(* ===== verification/Prelude.thy ===== *)
theory Prelude
  imports Main "HOL-Library.Word" "HOL-Library.AList"
begin

text \<open>
  Shared ground of the development: machine integer types, the pieces of the Rust standard
  library the sources use on strings, numbers and byte buffers (decimal printing and parsing,
  \<open>strip_prefix\<close>, \<open>split_once\<close>, big-endian words), bounded searches, and the generic lemmas
  about association lists that the component theories rest on.

  A Rust \<open>HashMap\<close> or \<open>BTreeMap\<close> is an association list with distinct keys: the order of the
  list stands for the (unspecified) iteration order.  \<open>AList.update\<close>, \<open>AList.delete\<close> and
  \<open>AList.map_entry\<close> are \<open>insert\<close>, \<open>remove\<close> and \<open>get_mut\<close> followed by a write.  Rust strings
  are HOL strings, one \<open>char\<close> per byte.
\<close>

unbundle bit_operations_syntax

type_synonym u8 = "8 word"
type_synonym u16 = "16 word"
type_synonym u32 = "32 word"
type_synonym u64 = "64 word"
type_synonym bytes = "u8 list"
type_synonym ('k, 'v) amap = "('k \<times> 'v) list"

named_theorems map_simps \<open>lookups after updates of association lists\<close>
named_theorems inv_intros \<open>an operation keeps an invariant\<close>
named_theorems bound_simps \<open>words that stay within their width\<close>

section \<open>Bounded searches\<close>

text \<open>\<open>(lo..lo + n).find(p)\<close> on an integer range.\<close>

fun first_from :: "nat \<Rightarrow> nat \<Rightarrow> (nat \<Rightarrow> bool) \<Rightarrow> nat option" where
  "first_from lo 0 P = None"
| "first_from lo (Suc n) P = (if P lo then Some lo else first_from (Suc lo) n P)"

lemma first_from_numeral [simp]:
  "first_from lo (numeral k) P = (if P lo then Some lo else first_from (lo + 1) (pred_numeral k) P)"
  by (simp add: numeral_eq_Suc)

lemma first_from_Some:
  "first_from lo n P = Some i \<Longrightarrow> lo \<le> i \<and> i < lo + n \<and> P i \<and> (\<forall>j. lo \<le> j \<and> j < i \<longrightarrow> \<not> P j)"
proof (induction lo n P rule: first_from.induct)
  case (2 lo n P)
  show ?case
  proof (cases "P lo")
    case True
    with 2 show ?thesis by auto
  next
    case False
    with 2 have *: "Suc lo \<le> i \<and> i < Suc lo + n \<and> P i \<and> (\<forall>j. Suc lo \<le> j \<and> j < i \<longrightarrow> \<not> P j)"
      by auto
    have "\<not> P j" if "lo \<le> j" "j < i" for j
      using that * False by (cases "j = lo") auto
    with * show ?thesis by auto
  qed
qed simp

lemma first_from_NoneD:
  "first_from lo n P = None \<Longrightarrow> lo \<le> j \<Longrightarrow> j < lo + n \<Longrightarrow> \<not> P j"
proof (induction lo n P rule: first_from.induct)
  case (2 lo n P)
  then show ?case by (cases "j = lo") (auto split: if_splits)
qed simp

lemma first_from_None:
  "(\<And>j. lo \<le> j \<Longrightarrow> j < lo + n \<Longrightarrow> \<not> P j) \<Longrightarrow> first_from lo n P = None"
  by (cases "first_from lo n P") (auto dest: first_from_Some)

lemma first_from_least:
  assumes "lo \<le> i" "i < lo + n" "P i" "\<And>j. lo \<le> j \<Longrightarrow> j < i \<Longrightarrow> \<not> P j"
  shows "first_from lo n P = Some i"
proof (cases "first_from lo n P")
  case None
  from first_from_NoneD[OF this assms(1,2)] assms(3) show ?thesis by simp
next
  case (Some k)
  from first_from_Some[OF this] assms show ?thesis
    by (metis Some linorder_neqE_nat)
qed

section \<open>Association lists\<close>

lemmas amap_update [map_simps] = update_conv'
lemmas amap_delete [map_simps] = delete_conv'

lemma amap_map_entry [map_simps]:
  "map_of (AList.map_entry k f al) = (map_of al)(k := map_option f (map_of al k))"
  by (induction al) (auto simp: fun_eq_iff)

lemma map_entry_keys [simp]: "map fst (AList.map_entry k f al) = map fst al"
  by (induction al) auto

lemma update_fresh: "k \<notin> set (map fst al) \<Longrightarrow> AList.update k v al = al @ [(k, v)]"
  by (induction al) auto

lemma delete_fresh: "k \<notin> set (map fst al) \<Longrightarrow> AList.delete k al = al"
  by (induction al) auto

lemma delete_append: "AList.delete k (xs @ ys) = AList.delete k xs @ AList.delete k ys"
  by (simp add: AList.delete_eq)

lemma map_entry_fresh: "k \<notin> set (map fst al) \<Longrightarrow> AList.map_entry k f al = al"
  by (induction al) auto

lemma map_entry_map_entry:
  "AList.map_entry k f (AList.map_entry k g al) = AList.map_entry k (\<lambda>v. f (g v)) al"
  by (induction al) auto

lemma map_entry_id: "map_of al k = Some v \<Longrightarrow> f v = v \<Longrightarrow> AList.map_entry k f al = al"
  by (induction al) auto

lemma update_present: "map_of al k = Some v \<Longrightarrow> AList.update k w al = AList.map_entry k (\<lambda>_. w) al"
  by (induction al) auto

lemma delete_map_entry: "AList.delete k (AList.map_entry k f al) = AList.delete k al"
  by (induction al) (auto simp: AList.delete_eq)

lemma map_entry_map:
  "distinct (map fst al) \<Longrightarrow>
     AList.map_entry k f al = map (\<lambda>(k', v). (k', if k' = k then f v else v)) al"
proof (induction al)
  case (Cons x al)
  have "(\<lambda>(k', v). (k', if k' = fst x then f v else v)) y = y" if "y \<in> set al" for y
  proof -
    have "fst x \<notin> fst ` set al" using Cons.prems by simp
    moreover have "fst y \<in> fst ` set al" using that by (rule imageI)
    ultimately have "fst y \<noteq> fst x" by metis
    then show ?thesis by (cases y) simp
  qed
  then have "map (\<lambda>(k', v). (k', if k' = fst x then f v else v)) al = al"
    by (rule map_idI)
  with Cons show ?case by (cases x) auto
qed simp

lemma map_entry_proj:
  "(\<And>v. g (f v) = g v) \<Longrightarrow> map (\<lambda>(_, v). g v) (AList.map_entry k f al) = map (\<lambda>(_, v). g v) al"
  by (induction al) auto

lemma list_all_map_entry:
  assumes "distinct (map fst al)" "map_of al k = Some v"
    and "list_all (\<lambda>(k, v). P k v) al" "P k (f v)"
  shows "list_all (\<lambda>(k, v). P k v) (AList.map_entry k f al)"
proof -
  have "P k' (if k' = k then f w else w)" if "(k', w) \<in> set al" for k' w
  proof (cases "k' = k")
    case True
    with that assms(1,2) have "w = v" by (metis map_of_is_SomeI option.inject)
    with True assms(4) show ?thesis by simp
  next
    case False
    with that assms(3) show ?thesis by (auto simp: list_all_iff)
  qed
  then show ?thesis by (auto simp: map_entry_map[OF assms(1)] list_all_iff)
qed

lemma list_all_delete: "list_all P al \<Longrightarrow> list_all P (AList.delete k al)"
  by (auto simp: list_all_iff AList.delete_eq)

lemma distinct_map_delete: "distinct (map g al) \<Longrightarrow> distinct (map g (AList.delete k al))"
  by (simp add: AList.delete_eq distinct_map_filter)

lemma amap_none: "map_of al k = None \<longleftrightarrow> k \<notin> set (map fst al)"
  by (simp add: map_of_eq_None_iff)

lemma ran_amap:
  assumes "distinct (map fst al)"
  shows "v \<in> snd ` set al \<longleftrightarrow> (\<exists>k. map_of al k = Some v)"
proof -
  have "v \<in> snd ` set al \<longleftrightarrow> (\<exists>k. (k, v) \<in> set al)" by force
  with assms show ?thesis by (simp only: map_of_eq_Some_iff)
qed

lemma distinct_concat_map:
  "distinct (map g xs) \<Longrightarrow> (\<And>x. x \<in> set xs \<Longrightarrow> distinct (f x)) \<Longrightarrow>
   (\<And>x y a. x \<in> set xs \<Longrightarrow> y \<in> set xs \<Longrightarrow> a \<in> set (f x) \<Longrightarrow> a \<in> set (f y) \<Longrightarrow> g x = g y) \<Longrightarrow>
   distinct (concat (map f xs))"
proof (induction xs)
  case (Cons x xs)
  have "set (f x) \<inter> set (f y) = {}" if y: "y \<in> set xs" for y
  proof (rule ccontr)
    assume "set (f x) \<inter> set (f y) \<noteq> {}"
    then obtain a where "a \<in> set (f x)" "a \<in> set (f y)" by blast
    with Cons.prems(3)[of x y a] y have "g x = g y" by simp
    with Cons.prems(1) y show False by (metis distinct.simps(2) image_eqI list.set_map list.simps(9))
  qed
  moreover have "distinct (concat (map f xs))"
  proof (rule Cons.IH)
    show "distinct (map g xs)" using Cons.prems(1) by simp
    show "distinct (f y)" if "y \<in> set xs" for y using Cons.prems(2) that by simp
    show "g y = g z" if "y \<in> set xs" "z \<in> set xs" "a \<in> set (f y)" "a \<in> set (f z)" for y z a
      using Cons.prems(3)[of y z a] that by simp
  qed
  ultimately show ?case using Cons.prems(2)[of x] by auto
qed simp

end
