(* ===== verification/RustStd.thy ===== *)
theory RustStd
  imports Prelude
begin

text \<open>
  The parts of the Rust standard library the sources use on strings and numbers: decimal
  printing (\<open>Display\<close> of the unsigned integers), \<open>str::parse\<close> for unsigned integers with its
  error texts, \<open>strip_prefix\<close>, \<open>split_once\<close>, splitting at a character, \<open>Debug\<close> quoting, fixed
  width hexadecimal, and big-endian \<open>u32\<close> words.  The lemmas are the round trips the
  components use.
\<close>

section \<open>Decimal numbers\<close>

definition digit_char :: "nat \<Rightarrow> char" where
  "digit_char d = char_of (48 + d)"

definition is_digit :: "char \<Rightarrow> bool" where
  "is_digit c \<longleftrightarrow> 48 \<le> (of_char c :: nat) \<and> (of_char c :: nat) \<le> 57"

definition digit_val :: "char \<Rightarrow> nat" where
  "digit_val c = of_char c - 48"

lemma of_digit_char: "d < 10 \<Longrightarrow> of_char (digit_char d) = (48 + d :: nat)"
  by (simp add: digit_char_def)

lemma digit_char_props [simp]:
  "d < 10 \<Longrightarrow> is_digit (digit_char d)" "d < 10 \<Longrightarrow> digit_val (digit_char d) = d"
  by (simp_all add: is_digit_def digit_val_def of_digit_char)

lemma digit_char_inj: "d < 10 \<Longrightarrow> e < 10 \<Longrightarrow> digit_char d = digit_char e \<longleftrightarrow> d = e"
  by (metis digit_char_props(2))

fun dec :: "nat \<Rightarrow> string" where
  "dec n = (if n < 10 then [digit_char n] else dec (n div 10) @ [digit_char (n mod 10)])"

declare dec.simps [simp del]

lemma dec_small: "n < 10 \<Longrightarrow> dec n = [digit_char n]"
  by (subst dec.simps) simp

lemma dec_step: "10 \<le> n \<Longrightarrow> dec n = dec (n div 10) @ [digit_char (n mod 10)]"
  by (subst dec.simps) simp

lemma dec_not_Nil [simp]: "dec n \<noteq> []"
  by (subst dec.simps) simp

lemma dec_digits: "c \<in> set (dec n) \<Longrightarrow> is_digit c"
proof (induction n rule: dec.induct)
  case (1 n)
  then show ?case
    by (cases "n < 10") (auto simp: dec_small dec_step)
qed

lemma dec_not_in: "\<not> is_digit c \<Longrightarrow> c \<notin> set (dec n)"
  using dec_digits by blast

lemma dec_length: "length (dec n) \<le> k \<longleftrightarrow> n < 10 ^ k" if "0 < k"
  using that
proof (induction n arbitrary: k rule: dec.induct)
  case (1 n)
  show ?case
  proof (cases "n < 10")
    case True
    moreover have "(10::nat) ^ 1 \<le> 10 ^ k" using \<open>0 < k\<close> by (intro power_increasing) auto
    ultimately show ?thesis using \<open>0 < k\<close> by (auto simp: dec_small Suc_le_eq)
  next
    case False
    then obtain m where m: "k = Suc m" using \<open>0 < k\<close> by (cases k) auto
    show ?thesis
    proof (cases "m = 0")
      case True
      with m False show ?thesis by (simp add: dec_step)
    next
      case m0: False
      have "length (dec (n div 10)) \<le> m \<longleftrightarrow> n div 10 < 10 ^ m"
        using "1.IH"[of m] False m0 by simp
      also have "\<dots> \<longleftrightarrow> n < 10 ^ k"
        by (simp add: m div_less_iff_less_mult mult.commute)
      finally show ?thesis using False by (simp add: m dec_step)
    qed
  qed
qed

text \<open>
  \<open>uN::from_str\<close>: an optional \<open>+\<close>, then at least one digit; on each digit the multiplication
  and the addition are checked against the largest value \<open>mx\<close> of the type.
\<close>

fun parse_digits :: "nat \<Rightarrow> nat \<Rightarrow> string \<Rightarrow> string + nat" where
  "parse_digits mx acc [] = Inr acc"
| "parse_digits mx acc (c # cs) =
     (if \<not> is_digit c then Inl ''invalid digit found in string''
      else if mx < acc * 10 then Inl ''number too large to fit in target type''
      else if mx < acc * 10 + digit_val c then Inl ''number too large to fit in target type''
      else parse_digits mx (acc * 10 + digit_val c) cs)"

definition parse_uint :: "nat \<Rightarrow> string \<Rightarrow> string + nat" where
  "parse_uint mx s =
     (case s of
        [] \<Rightarrow> Inl ''cannot parse integer from empty string''
      | c # cs \<Rightarrow>
          if c = CHR ''+'' \<and> cs \<noteq> [] then parse_digits mx 0 cs
          else parse_digits mx 0 s)"

lemma parse_digits_bound: "parse_digits mx acc s = Inr n \<Longrightarrow> acc \<le> mx \<Longrightarrow> n \<le> mx"
  by (induction s arbitrary: acc) (auto split: if_splits)

lemma parse_uint_bound: "parse_uint mx s = Inr n \<Longrightarrow> n \<le> mx"
  by (auto simp: parse_uint_def dest: parse_digits_bound split: list.splits if_splits)

lemma parse_digits_append:
  "parse_digits mx acc (s @ t) =
     (case parse_digits mx acc s of Inl e \<Rightarrow> Inl e | Inr n \<Rightarrow> parse_digits mx n t)"
  by (induction s arbitrary: acc) auto

lemma parse_digits_dec: "n \<le> mx \<Longrightarrow> parse_digits mx 0 (dec n) = Inr n"
proof (induction n rule: dec.induct)
  case (1 n)
  show ?case
  proof (cases "n < 10")
    case True
    with "1.prems" show ?thesis by (simp add: dec_small)
  next
    case False
    with "1" have "parse_digits mx 0 (dec (n div 10)) = Inr (n div 10)" by simp
    moreover have "n div 10 * 10 \<le> mx" "n div 10 * 10 + n mod 10 \<le> mx"
      using "1.prems" by (auto intro: order_trans[OF div_times_less_eq_dividend])
    ultimately show ?thesis using False
      by (simp add: dec_step parse_digits_append)
  qed
qed

lemma dec_hd_zero: "hd (dec n) = digit_char 0 \<Longrightarrow> n = 0"
proof (induction n rule: dec.induct)
  case (1 n)
  show ?case
  proof (cases "n < 10")
    case True
    with "1.prems" have "digit_char n = digit_char 0" by (simp add: dec_small)
    with True show ?thesis using digit_char_inj[of n 0] by linarith
  next
    case False
    then have "hd (dec (n div 10)) = digit_char 0"
      using "1.prems" by (simp add: dec_step)
    with "1.IH"[OF False] have "n div 10 = 0" .
    with False show ?thesis by simp
  qed
qed

lemma slash_not_digit: "\<not> is_digit (CHR ''/'')"
  by (simp add: is_digit_def)

lemma digit_ne_plus: "is_digit c \<Longrightarrow> c \<noteq> CHR ''+''"
  by (auto simp: is_digit_def)

lemma parse_uint_dec: "n \<le> mx \<Longrightarrow> parse_uint mx (dec n) = Inr n"
proof -
  assume n: "n \<le> mx"
  obtain c cs where c: "dec n = c # cs" by (cases "dec n") auto
  then have "is_digit c" using dec_digits[of c n] by simp
  then have "c \<noteq> CHR ''+''" by (rule digit_ne_plus)
  then show ?thesis using parse_digits_dec[OF n] by (simp add: parse_uint_def c)
qed

lemma dec_inj: "dec m = dec n \<longleftrightarrow> m = n"
proof
  assume e: "dec m = dec n"
  have "parse_uint (max m n) (dec m) = Inr m" "parse_uint (max m n) (dec n) = Inr n"
    by (rule parse_uint_dec, simp)+
  then have "(Inr m :: string + nat) = Inr n" unfolding e by (rule subst)
  then show "m = n" by (rule sum.inject(2)[THEN iffD1])
qed simp

section \<open>Strings\<close>

definition strip_prefix :: "'a list \<Rightarrow> 'a list \<Rightarrow> 'a list option" where
  "strip_prefix p s = (if take (length p) s = p then Some (drop (length p) s) else None)"

definition starts_with :: "'a list \<Rightarrow> 'a list \<Rightarrow> bool" where
  "starts_with p s \<longleftrightarrow> take (length p) s = p"

lemma strip_prefix_append [simp]: "strip_prefix p (p @ s) = Some s"
  by (simp add: strip_prefix_def)

lemma strip_prefix_Some: "strip_prefix p s = Some r \<longleftrightarrow> s = p @ r"
  by (auto simp: strip_prefix_def) (metis append_take_drop_id)

fun split_once :: "'a \<Rightarrow> 'a list \<Rightarrow> ('a list \<times> 'a list) option" where
  "split_once c [] = None"
| "split_once c (x # xs) =
     (if x = c then Some ([], xs)
      else map_option (\<lambda>(a, b). (x # a, b)) (split_once c xs))"

lemma split_once_append [simp]: "c \<notin> set a \<Longrightarrow> split_once c (a @ c # b) = Some (a, b)"
  by (induction a) auto

lemma split_once_Some: "split_once c s = Some (a, b) \<Longrightarrow> s = a @ c # b \<and> c \<notin> set a"
  by (induction s arbitrary: a) (auto split: if_splits)

text \<open>\<open>s.split(c)\<close>: always at least one piece.\<close>

fun split_char :: "'a \<Rightarrow> 'a list \<Rightarrow> 'a list list" where
  "split_char c [] = [[]]"
| "split_char c (x # xs) =
     (if x = c then [] # split_char c xs
      else (case split_char c xs of [] \<Rightarrow> [[x]] | p # ps \<Rightarrow> (x # p) # ps))"

lemma split_char_not_in: "c \<notin> set a \<Longrightarrow> split_char c a = [a]"
  by (induction a) auto

lemma split_char_append: "c \<notin> set a \<Longrightarrow> split_char c (a @ c # b) = a # split_char c b"
  by (induction a) auto

fun join_with :: "'a list \<Rightarrow> 'a list list \<Rightarrow> 'a list" where
  "join_with sep [] = []"
| "join_with sep [s] = s"
| "join_with sep (s # t # ss) = s @ sep @ join_with sep (t # ss)"

text \<open>\<open>{:?}\<close> of a string: the quoting that \<open>str\<close>'s \<open>Debug\<close> applies to ASCII text.\<close>

definition debug_char :: "char \<Rightarrow> string" where
  "debug_char c =
     (if c = CHR 0x22 then [CHR 0x5C, CHR 0x22]
      else if c = CHR 0x5C then [CHR 0x5C, CHR 0x5C]
      else if c = CHR 0x0A then [CHR 0x5C, CHR ''n'']
      else if c = CHR 0x0D then [CHR 0x5C, CHR ''r'']
      else if c = CHR 0x09 then [CHR 0x5C, CHR ''t'']
      else if c = CHR 0x00 then [CHR 0x5C, CHR ''0'']
      else [c])"

definition debug_str :: "string \<Rightarrow> string" where
  "debug_str s = [CHR 0x22] @ concat (map debug_char s) @ [CHR 0x22]"

definition show_opt :: "('a \<Rightarrow> string) \<Rightarrow> 'a option \<Rightarrow> string" where
  "show_opt f x = (case x of None \<Rightarrow> ''None'' | Some y \<Rightarrow> ''Some('' @ f y @ '')'')"

section \<open>Hexadecimal bytes\<close>

definition hex_upper :: "nat \<Rightarrow> char" where
  "hex_upper d = (if d < 10 then digit_char d else char_of (55 + d))"

definition hex_lower :: "nat \<Rightarrow> char" where
  "hex_lower d = (if d < 10 then digit_char d else char_of (87 + d))"

text \<open>\<open>{:02X}\<close> and \<open>{:02x}\<close> of a byte.\<close>

definition hex02_upper :: "nat \<Rightarrow> string" where
  "hex02_upper n = [hex_upper (n div 16), hex_upper (n mod 16)]"

definition hex02_lower :: "nat \<Rightarrow> string" where
  "hex02_lower n = [hex_lower (n div 16), hex_lower (n mod 16)]"

lemma of_hex_upper: "d < 16 \<Longrightarrow> of_char (hex_upper d) = (if d < 10 then 48 + d else 55 + d :: nat)"
  by (simp add: hex_upper_def of_digit_char)

lemma of_hex_lower: "d < 16 \<Longrightarrow> of_char (hex_lower d) = (if d < 10 then 48 + d else 87 + d :: nat)"
  by (simp add: hex_lower_def of_digit_char)

lemma hex_upper_inj: "d < 16 \<Longrightarrow> e < 16 \<Longrightarrow> hex_upper d = hex_upper e \<longleftrightarrow> d = e"
proof
  assume "d < 16" "e < 16" "hex_upper d = hex_upper e"
  then have "(if d < 10 then 48 + d else 55 + d) = (if e < 10 then 48 + e else 55 + e)"
    by (metis of_hex_upper)
  then show "d = e" by (simp split: if_splits)
qed simp

lemma hex_lower_inj: "d < 16 \<Longrightarrow> e < 16 \<Longrightarrow> hex_lower d = hex_lower e \<longleftrightarrow> d = e"
proof
  assume "d < 16" "e < 16" "hex_lower d = hex_lower e"
  then have "(if d < 10 then 48 + d else 87 + d) = (if e < 10 then 48 + e else 87 + e)"
    by (metis of_hex_lower)
  then show "d = e" by (simp split: if_splits)
qed simp

lemma div_mod_16_inj: "m div 16 = n div 16 \<Longrightarrow> m mod 16 = n mod 16 \<Longrightarrow> m = (n::nat)"
  by (metis div_mult_mod_eq)

lemma hex02_upper_inj: "m < 256 \<Longrightarrow> n < 256 \<Longrightarrow> hex02_upper m = hex02_upper n \<longleftrightarrow> m = n"
  by (auto simp: hex02_upper_def hex_upper_inj dest: div_mod_16_inj)

lemma hex02_lower_inj: "m < 256 \<Longrightarrow> n < 256 \<Longrightarrow> hex02_lower m = hex02_lower n \<longleftrightarrow> m = n"
  by (auto simp: hex02_lower_def hex_lower_inj dest: div_mod_16_inj)

lemma hex02_length [simp]: "length (hex02_upper n) = 2" "length (hex02_lower n) = 2"
  by (simp_all add: hex02_upper_def hex02_lower_def)

section \<open>Bytes and big-endian words\<close>

definition str_bytes :: "string \<Rightarrow> bytes" where
  "str_bytes s = map (\<lambda>c. of_nat (of_char c)) s"

definition bytes_str :: "bytes \<Rightarrow> string" where
  "bytes_str bs = map (\<lambda>b. char_of (unat b)) bs"

lemma bytes_str_bytes [simp]: "bytes_str (str_bytes s) = s"
proof -
  have "unat (of_nat (of_char c) :: u8) = of_char c" for c :: char
    by (simp add: unat_of_nat take_bit_eq_mod)
  then show ?thesis by (simp add: bytes_str_def str_bytes_def o_def)
qed

lemma str_bytes_length [simp]: "length (str_bytes s) = length s"
  by (simp add: str_bytes_def)

lemma str_bytes_append [simp]: "str_bytes (s @ t) = str_bytes s @ str_bytes t"
  by (simp add: str_bytes_def)

lemma bytes_str_append [simp]: "bytes_str (s @ t) = bytes_str s @ bytes_str t"
  by (simp add: bytes_str_def)

definition be32 :: "u32 \<Rightarrow> bytes" where
  "be32 w = [ucast (drop_bit 24 w), ucast (drop_bit 16 w), ucast (drop_bit 8 w), ucast w]"

fun of_be32 :: "bytes \<Rightarrow> u32" where
  "of_be32 [a, b, c, d] =
     push_bit 24 (ucast a) OR push_bit 16 (ucast b) OR push_bit 8 (ucast c) OR ucast d"
| "of_be32 _ = 0"

lemma be32_length [simp]: "length (be32 w) = 4"
  by (simp add: be32_def)

lemma of_be32_be32 [simp]: "of_be32 (be32 w) = w"
proof (rule bit_word_eqI)
  fix n :: nat
  assume n: "n < LENGTH(32)"
  consider "n < 8" | "8 \<le> n" "n < 16" | "16 \<le> n" "n < 24" | "24 \<le> n" "n < 32"
    using n by fastforce
  then show "bit (of_be32 (be32 w)) n = bit w n"
    by cases (auto simp: be32_def bit_simps)
qed

section \<open>IO errors\<close>

text \<open>\<open>std::io::Error\<close>: the kinds the code looks at, with the printed text.\<close>

datatype io_error = NotFound string | InvalidInput string | OtherIo string

fun io_text :: "io_error \<Rightarrow> string" where
  "io_text (NotFound e) = e"
| "io_text (InvalidInput e) = e"
| "io_text (OtherIo e) = e"

text \<open>\<open>Path::join\<close> on Unix paths: an absolute second part replaces the first.\<close>

definition path_join :: "string \<Rightarrow> string \<Rightarrow> string" where
  "path_join p q =
     (if starts_with ''/'' q then q
      else if p = [] \<or> last p = CHR ''/'' then p @ q else p @ ''/'' @ q)"

section \<open>Trimming\<close>

text \<open>\<open>str::trim\<close> on the ASCII white space.\<close>

definition is_space :: "char \<Rightarrow> bool" where
  "is_space c \<longleftrightarrow> of_char c = (32 :: nat) \<or> (9 \<le> (of_char c :: nat) \<and> of_char c \<le> (13 :: nat))"

definition trim_str :: "string \<Rightarrow> string" where
  "trim_str s = rev (dropWhile is_space (rev (dropWhile is_space s)))"

lemma trim_str_plain:
  "s \<noteq> [] \<Longrightarrow> \<not> is_space (hd s) \<Longrightarrow> \<not> is_space (last s) \<Longrightarrow> \<forall>c \<in> set sp. is_space c \<Longrightarrow> trim_str (s @ sp) = s"
proof -
  assume s: "s \<noteq> []" "\<not> is_space (hd s)" "\<not> is_space (last s)" and sp: "\<forall>c \<in> set sp. is_space c"
  have "dropWhile is_space (s @ sp) = s @ sp" using s by (cases s) auto
  moreover have "dropWhile is_space (rev (s @ sp)) = dropWhile is_space (rev s)"
    unfolding rev_append using sp by (intro dropWhile_append2) simp
  moreover have "dropWhile is_space (rev s) = rev s"
    using s by (cases s rule: rev_cases) auto
  ultimately show ?thesis by (simp add: trim_str_def)
qed

lemma digit_not_space: "is_digit c \<Longrightarrow> \<not> is_space c"
  by (auto simp: is_digit_def is_space_def)

end
