(* ===== verification/Errors.thy ===== *)
theory Errors
  imports RustStd
begin

text \<open>
  The error type of hostd (\<open>hostd/src/error.rs\<close>) with its \<open>Display\<close> texts, and the enum
  \<open>VmState\<close> (\<open>hostd/src/vmm/vm.rs\<close>) it mentions.  Errors of foreign crates (IO, JSON, tracing)
  carry their printed text; a \<open>PoisonError\<close> (\<open>Error::Lock\<close>) needs a thread that panicked while
  it held the lock, and no modelled operation does.
\<close>

datatype vm_state =
    Creating | Starting | Pausing | Resuming | Suspending | Restoring | Destroying
  | Created | Started | Paused | Suspended | Destroyed

text \<open>\<open>#[derive(Debug)]\<close> prints the variant's name.\<close>

fun debug_vm_state :: "vm_state \<Rightarrow> string" where
  "debug_vm_state Creating = ''Creating''"
| "debug_vm_state Starting = ''Starting''"
| "debug_vm_state Pausing = ''Pausing''"
| "debug_vm_state Resuming = ''Resuming''"
| "debug_vm_state Suspending = ''Suspending''"
| "debug_vm_state Restoring = ''Restoring''"
| "debug_vm_state Destroying = ''Destroying''"
| "debug_vm_state Created = ''Created''"
| "debug_vm_state Started = ''Started''"
| "debug_vm_state Paused = ''Paused''"
| "debug_vm_state Suspended = ''Suspended''"
| "debug_vm_state Destroyed = ''Destroyed''"

datatype error =
    Io string
  | Json string
  | Lock string
  | TracingSubscriberFilterParse string
  | Vmm string
  | Net string
  | Storage string
  | VmNotFound string
  | WorkloadNotFound string
  | InvalidImage string
  | InvalidStateTransition vm_state vm_state
  | InvalidPort u16
  | PortAlreadyExposed string u16
  | PortNotExposed string u16
  | ProxyToken string
  | MissingApiToken

type_synonym 'a result = "error + 'a"

text \<open>The \<open>#[error(...)]\<close> attributes.\<close>

fun error_display :: "error \<Rightarrow> string" where
  "error_display (Io e) = ''IO error: '' @ e"
| "error_display (Json e) = ''JSON parse error: '' @ e"
| "error_display (Lock e) = ''Lock error: '' @ e"
| "error_display (TracingSubscriberFilterParse e) = ''tracing_subscriber filter parse: '' @ e"
| "error_display (Vmm e) = ''vmm error: '' @ e"
| "error_display (Net e) = ''net error: '' @ e"
| "error_display (Storage e) = ''storage error: '' @ e"
| "error_display (VmNotFound v) = ''vm '' @ v @ '' not found''"
| "error_display (WorkloadNotFound w) = ''workload '' @ w @ '' not found''"
| "error_display (InvalidImage i) = ''invalid VM image: '' @ i"
| "error_display (InvalidStateTransition a b) =
     ''invalid VM state transition: '' @ debug_vm_state a @ '' -> '' @ debug_vm_state b"
| "error_display (InvalidPort p) = ''invalid port '' @ dec (unat p) @ '': must be 1-65535''"
| "error_display (PortAlreadyExposed v p) =
     ''port '' @ dec (unat p) @ '' is already exposed on vm '' @ v"
| "error_display (PortNotExposed v p) =
     ''port '' @ dec (unat p) @ '' is not exposed on vm '' @ v"
| "error_display (ProxyToken e) = ''proxy token error: '' @ e"
| "error_display MissingApiToken =
     ''HOSTD_API_TOKEN environment variable must be set to a non-empty value''"

text \<open>The \<open>?\<close> operator.\<close>

definition try_res :: "'e + 'a \<Rightarrow> ('a \<Rightarrow> 'e + 'b) \<Rightarrow> 'e + 'b" where
  "try_res r k = (case r of Inl e \<Rightarrow> Inl e | Inr x \<Rightarrow> k x)"

lemma try_res_simps [simp]: "try_res (Inl e) k = Inl e" "try_res (Inr x) k = k x"
  by (simp_all add: try_res_def)

lemma try_res_Inr: "try_res r k = Inr y \<longleftrightarrow> (\<exists>x. r = Inr x \<and> k x = Inr y)"
  by (cases r) auto

text \<open>\<open>ok_or_else\<close>.\<close>

definition ok_or :: "'e \<Rightarrow> 'a option \<Rightarrow> 'e + 'a" where
  "ok_or e x = (case x of None \<Rightarrow> Inl e | Some y \<Rightarrow> Inr y)"

lemma ok_or_simps [simp]: "ok_or e None = Inl e" "ok_or e (Some y) = Inr y"
  by (simp_all add: ok_or_def)

end
