(* ===== verification/Cidr.thy ===== *)
theory Cidr
  imports Errors
begin

text \<open>
  \<open>hostd/src/net/cidr.rs\<close>: the IPv4 CIDR arithmetic of the subnet allocator.  An \<open>Ipv4Addr\<close>
  is the 32-bit word of its octets, so every addition and shift is the machine's; the lemmas
  show that on a network built by \<open>parse\<close> or \<open>subnet\<close> none of them leaves its width.
  The theory also states the interface \<open>address_plan\<close> the allocator relies on and interprets
  it on these definitions.
\<close>

section \<open>\<open>Ipv4Addr\<close> of the standard library\<close>

definition ipv4_display :: "u32 \<Rightarrow> string" where
  "ipv4_display a = join_with ''.'' (map (\<lambda>b. dec (unat b)) (be32 a))"

text \<open>
  \<open>Ipv4Addr::from_str\<close>: exactly four decimal octets, one to three digits each, no leading
  zero, at most 255.
\<close>

definition parse_octet :: "string \<Rightarrow> u8 option" where
  "parse_octet s =
     (if s = [] \<or> 3 < length s \<or> (hd s = CHR ''0'' \<and> 1 < length s) then None
      else case parse_digits 255 0 s of Inl _ \<Rightarrow> None | Inr n \<Rightarrow> Some (of_nat n))"

definition parse_ipv4 :: "string \<Rightarrow> string + u32" where
  "parse_ipv4 s =
     (case map parse_octet (split_char CHR ''.'' s) of
        [Some a, Some b, Some c, Some d] \<Rightarrow> Inr (of_be32 [a, b, c, d])
      | _ \<Rightarrow> Inl ''invalid IPv4 address syntax'')"

section \<open>\<open>Ipv4Net\<close>\<close>

record ipv4net =
  net_addr :: u32
  net_prefix :: nat \<comment> \<open>\<open>u8\<close>\<close>

definition invalid_cidr :: "string \<Rightarrow> string \<Rightarrow> error" where
  "invalid_cidr s why = Net (''invalid CIDR '' @ debug_str s @ '': '' @ why)"

definition net_mask :: "nat \<Rightarrow> u32" where
  "net_mask prefix = push_bit (32 - prefix) (- 1)"

definition net_parse :: "string \<Rightarrow> ipv4net result" where
  "net_parse s =
     (case split_once CHR ''/'' s of
        None \<Rightarrow> Inl (invalid_cidr s ''missing prefix'')
      | Some (addr, prefix) \<Rightarrow>
          (case parse_ipv4 addr of
             Inl e \<Rightarrow> Inl (invalid_cidr s e)
           | Inr addr \<Rightarrow>
               (case parse_uint 255 prefix of
                  Inl e \<Rightarrow> Inl (invalid_cidr s e)
                | Inr prefix \<Rightarrow>
                    if \<not> (1 \<le> prefix \<and> prefix \<le> 32) then Inl (invalid_cidr s ''bad prefix'')
                    else Inr \<lparr>net_addr = addr AND net_mask prefix, net_prefix = prefix\<rparr>)))"

definition net_size :: "ipv4net \<Rightarrow> u32" where
  "net_size n = push_bit (32 - net_prefix n) 1"

definition net_host :: "ipv4net \<Rightarrow> u32 \<Rightarrow> u32" where
  "net_host n idx = net_addr n + idx"

definition net_subnet :: "ipv4net \<Rightarrow> u32 \<Rightarrow> nat \<Rightarrow> ipv4net" where
  "net_subnet n index prefix =
     (let subnet_size = push_bit (32 - prefix) 1
      in \<lparr>net_addr = net_addr n + index * subnet_size, net_prefix = prefix\<rparr>)"

definition net_subnet_count :: "ipv4net \<Rightarrow> nat \<Rightarrow> u32" where
  "net_subnet_count n prefix = push_bit (prefix - net_prefix n) 1"

definition net_netmask :: "ipv4net \<Rightarrow> u32" where
  "net_netmask n = net_mask (net_prefix n)"

definition net_display :: "ipv4net \<Rightarrow> string" where
  "net_display n = ipv4_display (net_addr n) @ ''/'' @ dec (net_prefix n)"

text \<open>What \<open>parse\<close> and \<open>subnet\<close> establish: a legal prefix and clear host bits.\<close>

definition net_wf :: "ipv4net \<Rightarrow> bool" where
  "net_wf n \<longleftrightarrow> 1 \<le> net_prefix n \<and> net_prefix n \<le> 32 \<and>
     unat (net_addr n) mod 2 ^ (32 - net_prefix n) = 0"

section \<open>Parsing and printing\<close>

lemma unat_mod_pow: "unat (w :: u32) mod 2 ^ k = 0 \<longleftrightarrow> take_bit k w = 0"
proof -
  have "unat (take_bit k w) = unat w mod 2 ^ k"
    by (simp add: unsigned_take_bit_eq flip: take_bit_eq_mod)
  then show ?thesis by (metis unat_0 unat_eq_zero)
qed

lemma u32_lt: "unat (w :: u32) < 2 ^ 32"
  using unsigned_less[of w, where ?'a = nat] by simp

lemma u32_of_nat: "i < 2 ^ 32 \<Longrightarrow> unat (of_nat i :: u32) = i"
  by (simp add: unat_of_nat take_bit_nat_eq_self)

lemma pow32_le: "(2::nat) ^ (32 - k) \<le> 2 ^ 32"
  by (intro power_increasing) auto

lemma masked_take_bit: "take_bit (32 - p) (a AND net_mask p) = (0 :: u32)"
  by (rule bit_word_eqI) (auto simp: net_mask_def bit_simps)

lemma masked_same:
  assumes "take_bit (32 - p) (a :: u32) = 0"
  shows "a AND net_mask p = a"
proof (rule bit_word_eqI)
  fix n :: nat
  assume n: "n < LENGTH(32)"
  have "\<not> bit a n" if "n < 32 - p"
    using that arg_cong[OF assms, of "\<lambda>w. bit w n"] by (simp add: bit_take_bit_iff)
  with n show "bit (a AND net_mask p) n = bit a n"
    by (auto simp: net_mask_def bit_simps)
qed

lemma net_parse_wf: "net_parse s = Inr n \<Longrightarrow> net_wf n"
  by (auto simp: net_parse_def net_wf_def unat_mod_pow masked_take_bit simp del: take_bit_and
      split: option.splits sum.splits if_splits)

lemma parse_octet_dec: "parse_octet (dec (unat (b :: u8))) = Some b"
proof -
  have lt: "unat b < 256" using unsigned_less[of b, where ?'a = nat] by simp
  have "length (dec (unat b)) \<le> 3" using lt by (simp add: dec_length)
  moreover have "length (dec (unat b)) = 1" if "hd (dec (unat b)) = CHR ''0''"
  proof -
    have "digit_char 0 = CHR ''0''" by code_simp
    with that have "unat b = 0" using dec_hd_zero[of "unat b"] by simp
    then show ?thesis by (simp add: dec_small)
  qed
  ultimately show ?thesis
    using parse_digits_dec[of "unat b" 255] lt by (auto simp: parse_octet_def)
qed

lemma dot_not_digit: "CHR ''.'' \<notin> set (dec n)" "CHR ''/'' \<notin> set (dec n)"
  by (rule dec_not_in, simp add: is_digit_def)+

lemma be32_cases: obtains a b c d where "be32 w = [a, b, c, d]" "of_be32 [a, b, c, d] = w"
  using of_be32_be32[of w] by (simp add: be32_def)

lemma parse_ipv4_display: "parse_ipv4 (ipv4_display a) = Inr a"
proof -
  obtain x y z w where "be32 a = [x, y, z, w]" and a: "of_be32 [x, y, z, w] = a"
    by (rule be32_cases)
  then have "split_char CHR ''.'' (ipv4_display a) =
      [dec (unat x), dec (unat y), dec (unat z), dec (unat w)]"
    by (simp add: ipv4_display_def split_char_append split_char_not_in dot_not_digit)
  with a show ?thesis by (simp add: parse_ipv4_def parse_octet_dec)
qed

lemma slash_not_in_ipv4: "CHR ''/'' \<notin> set (ipv4_display a)"
  by (rule be32_cases[of a]) (simp add: ipv4_display_def dot_not_digit)

lemma net_parse_display: "net_wf n \<Longrightarrow> net_parse (net_display n) = Inr n"
proof -
  assume wf: "net_wf n"
  have "split_once CHR ''/'' (net_display n) = Some (ipv4_display (net_addr n), dec (net_prefix n))"
    by (simp add: net_display_def slash_not_in_ipv4)
  moreover have "parse_uint 255 (dec (net_prefix n)) = Inr (net_prefix n)"
    using wf by (simp add: parse_uint_dec net_wf_def)
  ultimately show ?thesis using wf
    by (simp add: net_parse_def parse_ipv4_display net_wf_def unat_mod_pow masked_same)
qed

section \<open>No operation overflows\<close>

lemma aligned_fits:
  assumes "(a :: nat) mod 2 ^ h = 0" "a < 2 ^ w" "h \<le> w"
  shows "a + 2 ^ h \<le> 2 ^ w"
proof -
  obtain k where k: "a = k * 2 ^ h" using assms(1) by (metis mod_0_imp_dvd dvd_def mult.commute)
  have "(2::nat) ^ w = 2 ^ (w - h) * 2 ^ h" using assms(3) by (simp flip: power_add)
  with assms(2) k have "k < 2 ^ (w - h)" by simp
  then have "Suc k * 2 ^ h \<le> 2 ^ (w - h) * 2 ^ h" by (intro mult_right_mono) simp_all
  with \<open>(2::nat) ^ w = _\<close> show ?thesis by (simp add: k)
qed

lemma unat_pow2 [simp]: "k < 32 \<Longrightarrow> unat (2 ^ k :: u32) = 2 ^ k"
proof -
  assume k: "k < 32"
  then have "(2 :: nat) ^ k < 2 ^ 32" by (intro power_strict_increasing) auto
  then have "unat (of_nat (2 ^ k) :: u32) = 2 ^ k"
    by (simp add: unat_of_nat take_bit_nat_eq_self del: of_nat_power)
  then show ?thesis by simp
qed

lemma unat_push_one: "k < 32 \<Longrightarrow> unat (push_bit k (1 :: u32)) = 2 ^ k"
  by simp

lemma net_size_unat [bound_simps]: "net_wf n \<Longrightarrow> unat (net_size n) = 2 ^ (32 - net_prefix n)"
  by (simp add: net_size_def net_wf_def)

lemma net_last_unat [bound_simps]:
  "net_wf n \<Longrightarrow> unat (net_size n - 1) = 2 ^ (32 - net_prefix n) - 1"
proof -
  assume wf: "net_wf n"
  then have "net_size n \<noteq> 0" by (metis net_size_unat power_not_zero unat_0 zero_neq_numeral)
  then show ?thesis by (simp add: unat_minus_one net_size_unat[OF wf])
qed

lemma net_addr_fits: "net_wf n \<Longrightarrow> unat (net_addr n) + 2 ^ (32 - net_prefix n) \<le> 2 ^ 32"
  using aligned_fits[of "unat (net_addr n)" "32 - net_prefix n" 32] u32_lt[of "net_addr n"]
  by (simp add: net_wf_def)

lemma net_host_unat [bound_simps]:
  "net_wf n \<Longrightarrow> unat idx < 2 ^ (32 - net_prefix n) \<Longrightarrow>
     unat (net_host n idx) = unat (net_addr n) + unat idx"
  using net_addr_fits[of n] by (simp add: net_host_def unat_word_ariths)

lemma pow_split: "p \<le> q \<Longrightarrow> q \<le> 32 \<Longrightarrow> (2::nat) ^ (32 - p) = 2 ^ (q - p) * 2 ^ (32 - q)"
  by (simp flip: power_add)

text \<open>The \<open>index\<close>-th subnet lies inside its network and its address does not wrap.\<close>

lemma net_subnet_unat [bound_simps]:
  assumes "net_wf n" "net_prefix n \<le> prefix" "prefix \<le> 32"
    and "unat index < 2 ^ (prefix - net_prefix n)"
  shows "unat (net_addr (net_subnet n index prefix)) =
    unat (net_addr n) + unat index * 2 ^ (32 - prefix)"
proof -
  have p: "1 \<le> prefix" using assms by (simp add: net_wf_def)
  have size: "unat (push_bit (32 - prefix) (1 :: u32)) = 2 ^ (32 - prefix)"
    using p assms(3) by (intro unat_push_one) auto
  have "Suc (unat index) * 2 ^ (32 - prefix) \<le> 2 ^ (32 - net_prefix n)"
    using assms(4) pow_split[OF assms(2,3)] by (simp only: Suc_le_eq mult_le_mono1)
  then have lt: "unat index * 2 ^ (32 - prefix) + 2 ^ (32 - prefix) \<le> 2 ^ (32 - net_prefix n)"
    by simp
  have "(2::nat) ^ (32 - net_prefix n) \<le> 2 ^ 32" by (intro power_increasing) auto
  moreover have "(0::nat) < 2 ^ (32 - prefix)" by simp
  ultimately have "unat index * 2 ^ (32 - prefix) < 2 ^ 32" using lt by linarith
  then have "unat (index * push_bit (32 - prefix) 1) = unat index * 2 ^ (32 - prefix)"
    by (simp only: unat_word_ariths size) simp
  moreover have "unat (net_addr n) + unat index * 2 ^ (32 - prefix) < 2 ^ 32"
    using net_addr_fits[OF assms(1)] lt \<open>(0::nat) < 2 ^ (32 - prefix)\<close> by linarith
  ultimately show ?thesis
    by (simp add: net_subnet_def Let_def unat_word_ariths)
qed

lemma net_subnet_wf [inv_intros]:
  assumes "net_wf n" "net_prefix n \<le> prefix" "prefix \<le> 32"
    and "unat index < 2 ^ (prefix - net_prefix n)"
  shows "net_wf (net_subnet n index prefix)"
proof -
  have pre: "net_prefix (net_subnet n index prefix) = prefix"
    by (simp add: net_subnet_def Let_def)
  have "2 ^ (32 - prefix) dvd unat (net_addr n)"
    using assms(1-3) pow_split[OF assms(2,3)]
    by (auto simp: net_wf_def mod_eq_0_iff_dvd intro: dvd_trans[rotated])
  then have "unat (net_addr (net_subnet n index prefix)) mod 2 ^ (32 - prefix) = 0"
    by (simp add: net_subnet_unat[OF assms])
  with assms(1-3) show ?thesis by (simp add: net_wf_def pre)
qed

lemma net_subnet_prefix [simp]: "net_prefix (net_subnet n index prefix) = prefix"
  by (simp add: net_subnet_def Let_def)

lemma net_subnet_count_unat [bound_simps]:
  "net_wf n \<Longrightarrow> net_prefix n \<le> prefix \<Longrightarrow> prefix \<le> 32 \<Longrightarrow>
     unat (net_subnet_count n prefix) = 2 ^ (prefix - net_prefix n)"
  by (simp add: net_subnet_count_def net_wf_def, subst unat_pow2) auto

section \<open>The address plan\<close>

text \<open>
  What the allocator needs of the arithmetic: inside a legal plan (a supernet and a subnet
  prefix), the hosts of a subnet are told apart by their index, and the hosts of two different
  subnets never meet.
\<close>

locale address_plan =
  fixes plan_ok :: "'n \<Rightarrow> nat \<Rightarrow> bool"
    and subnet :: "'n \<Rightarrow> 'i \<Rightarrow> nat \<Rightarrow> 'n"
    and host :: "'n \<Rightarrow> 'i \<Rightarrow> 'a"
    and in_plan :: "'n \<Rightarrow> nat \<Rightarrow> 'i \<Rightarrow> bool"
    and in_subnet :: "nat \<Rightarrow> 'i \<Rightarrow> bool"
  assumes host_eq: "plan_ok n p \<Longrightarrow> in_plan n p i \<Longrightarrow> in_plan n p j \<Longrightarrow>
      in_subnet p a \<Longrightarrow> in_subnet p b \<Longrightarrow>
      host (subnet n i p) a = host (subnet n j p) b \<Longrightarrow> i = j \<and> a = b"
begin

lemma hosts_inj: "plan_ok n p \<Longrightarrow> in_plan n p i \<Longrightarrow> inj_on (host (subnet n i p)) {a. in_subnet p a}"
  by (rule inj_onI) (auto dest: host_eq)

lemma subnets_disjoint:
  "plan_ok n p \<Longrightarrow> in_plan n p i \<Longrightarrow> in_plan n p j \<Longrightarrow> i \<noteq> j \<Longrightarrow>
     host (subnet n i p) ` {a. in_subnet p a} \<inter> host (subnet n j p) ` {a. in_subnet p a} = {}"
  by (auto dest: host_eq)

end

definition plan_ok :: "ipv4net \<Rightarrow> nat \<Rightarrow> bool" where
  "plan_ok n prefix \<longleftrightarrow> net_wf n \<and> net_prefix n < prefix \<and> prefix \<le> 30"

definition index_ok :: "ipv4net \<Rightarrow> nat \<Rightarrow> u32 \<Rightarrow> bool" where
  "index_ok n prefix i \<longleftrightarrow> unat i < 2 ^ (prefix - net_prefix n)"

definition offset_ok :: "nat \<Rightarrow> u32 \<Rightarrow> bool" where
  "offset_ok prefix a \<longleftrightarrow> unat a < 2 ^ (32 - prefix)"

lemma plan_subnet_wf [inv_intros]:
  "plan_ok n p \<Longrightarrow> index_ok n p i \<Longrightarrow> net_wf (net_subnet n i p)"
  by (rule net_subnet_wf) (simp_all add: plan_ok_def index_ok_def)

lemma plan_host_unat [bound_simps]:
  assumes "plan_ok n p" "index_ok n p i" "offset_ok p a"
  shows "unat (net_host (net_subnet n i p) a) = unat (net_addr n) + unat i * 2 ^ (32 - p) + unat a"
proof -
  have "unat (net_host (net_subnet n i p) a) = unat (net_addr (net_subnet n i p)) + unat a"
    using assms plan_subnet_wf by (intro net_host_unat) (auto simp: offset_ok_def)
  with assms show ?thesis
    by (simp add: net_subnet_unat plan_ok_def index_ok_def)
qed

interpretation ip: address_plan plan_ok net_subnet net_host index_ok offset_ok
proof
  fix n p i j a b
  assume plan: "plan_ok n p" and i: "index_ok n p i" and j: "index_ok n p j"
    and a: "offset_ok p a" and b: "offset_ok p b"
    and eq: "net_host (net_subnet n i p) a = net_host (net_subnet n j p) b"
  let ?h = "2 ^ (32 - p) :: nat"
  from eq have "unat i * ?h + unat a = unat j * ?h + unat b"
    using plan_host_unat[OF plan i a] plan_host_unat[OF plan j b] by simp
  moreover have "unat a < ?h" "unat b < ?h" using a b by (simp_all add: offset_ok_def)
  moreover have "(unat i * ?h + unat a) div ?h = unat i" "(unat j * ?h + unat b) div ?h = unat j"
    using \<open>unat a < ?h\<close> \<open>unat b < ?h\<close> by simp_all
  ultimately have "unat i = unat j" "unat a = unat b" by (metis, simp_all)
  then show "i = j \<and> a = b" by (simp add: word_unat_eq_iff)
qed

end
