(* ===== verification/NetTypes.thy ===== *)
theory NetTypes
  imports Cidr
begin

text \<open>
  \<open>hostd/src/net/types.rs\<close> (and the id generator of \<open>hostd/src/vmm/utils.rs\<close>): TAP names, the
  registry of exposed ports, and a VM's network identity.  A \<open>VmId\<close> or a \<open>TapName\<close> is its
  string.  The port registry is the revocation list of the proxy.
\<close>

type_synonym vm_id = string
type_synonym tap_name = string

definition IFNAMSIZ_MAX :: nat where
  "IFNAMSIZ_MAX = 15"

definition BRIDGE_PREFIX :: string where
  "BRIDGE_PREFIX = ''tbr-''"

section \<open>Identifiers\<close>

definition ID_CHARSET :: string where
  "ID_CHARSET = ''abcdefghjkmnpqrstuvwxyz23456789''"

text \<open>\<open>random_id\<close>: \<open>picks\<close> are the indices the random generator draws, one per character.\<close>

definition random_id :: "nat list \<Rightarrow> string \<Rightarrow> string" where
  "random_id picks prefix =
     (let short_id = map (\<lambda>k. ID_CHARSET ! (k mod length ID_CHARSET)) (take 6 picks)
      in prefix @ ''-'' @ short_id)"

definition vm_id_new_random :: "nat list \<Rightarrow> nat \<Rightarrow> vm_id" where
  "vm_id_new_random picks project_id = random_id picks (''vm-'' @ dec project_id)"

definition tap_for_vm :: "vm_id \<Rightarrow> tap_name" where
  "tap_for_vm vm_id =
     (let suffix = (case strip_prefix ''vm-'' vm_id of Some r \<Rightarrow> r | None \<Rightarrow> vm_id)
      in ''tap-'' @ suffix)"

lemma tap_for_vm_simps [simp]: "tap_for_vm (''vm-'' @ r) = ''tap-'' @ r"
  unfolding tap_for_vm_def strip_prefix_append by simp

lemma vm_id_new_random_alt:
  "vm_id_new_random picks pid = ''vm-'' @ dec pid @ ''-'' @
     map (\<lambda>k. ID_CHARSET ! (k mod length ID_CHARSET)) (take 6 picks)"
  by (simp add: vm_id_new_random_def random_id_def Let_def)

section \<open>Exposed ports\<close>

record exposed_port =
  ep_port :: u16
  ep_label :: string

record network_config =
  allow_internet :: bool
  exposed_ports :: "exposed_port list"
  egress :: "string list"
  public_access :: bool

definition add_exposed_port :: "network_config \<Rightarrow> vm_id \<Rightarrow> exposed_port \<Rightarrow> network_config result" where
  "add_exposed_port cfg vm_id port =
     (if ep_port port = 0 then Inl (InvalidPort (ep_port port))
      else if list_ex (\<lambda>p. ep_port p = ep_port port) (exposed_ports cfg)
        then Inl (PortAlreadyExposed vm_id (ep_port port))
      else Inr (cfg\<lparr>exposed_ports := exposed_ports cfg @ [port]\<rparr>))"

text \<open>\<open>Vec::remove\<close> at the first position with this port.\<close>

fun remove_first_port :: "u16 \<Rightarrow> exposed_port list \<Rightarrow> exposed_port list option" where
  "remove_first_port port [] = None"
| "remove_first_port port (p # ps) =
     (if ep_port p = port then Some ps else map_option ((#) p) (remove_first_port port ps))"

definition remove_exposed_port :: "network_config \<Rightarrow> vm_id \<Rightarrow> u16 \<Rightarrow> network_config result" where
  "remove_exposed_port cfg vm_id port =
     (case remove_first_port port (exposed_ports cfg) of
        None \<Rightarrow> Inl (PortNotExposed vm_id port)
      | Some ps \<Rightarrow> Inr (cfg\<lparr>exposed_ports := ps\<rparr>))"

definition port_exposed :: "network_config \<Rightarrow> u16 \<Rightarrow> bool" where
  "port_exposed cfg port \<longleftrightarrow> list_ex (\<lambda>p. ep_port p = port) (exposed_ports cfg)"

definition ports_ok :: "network_config \<Rightarrow> bool" where
  "ports_ok cfg \<longleftrightarrow> distinct (map ep_port (exposed_ports cfg)) \<and> 0 \<notin> set (map ep_port (exposed_ports cfg))"

lemma remove_first_port_None: "remove_first_port port ps = None \<longleftrightarrow> \<not> list_ex (\<lambda>p. ep_port p = port) ps"
  by (induction ps) auto

lemma remove_first_port_set:
  "remove_first_port port ps = Some qs \<Longrightarrow> distinct (map ep_port ps) \<Longrightarrow>
     map ep_port qs = removeAll port (map ep_port ps)"
  by (induction ps arbitrary: qs) (auto simp: removeAll_id split: if_splits)

lemma remove_first_port_snoc:
  "\<not> list_ex (\<lambda>p. ep_port p = ep_port q) ps \<Longrightarrow>
     remove_first_port (ep_port q) (ps @ [q]) = Some ps"
  by (induction ps) auto

lemma port_exposed_alt: "port_exposed cfg port \<longleftrightarrow> port \<in> set (map ep_port (exposed_ports cfg))"
  by (auto simp: port_exposed_def list_ex_iff)

lemma add_exposed_port_ok [inv_intros]:
  "add_exposed_port cfg v p = Inr cfg' \<Longrightarrow> ports_ok cfg \<Longrightarrow> ports_ok cfg'"
  by (force simp: add_exposed_port_def ports_ok_def list_ex_iff split: if_splits)

lemma remove_exposed_port_ports:
  "remove_exposed_port cfg v port = Inr cfg' \<Longrightarrow> ports_ok cfg \<Longrightarrow>
     map ep_port (exposed_ports cfg') = removeAll port (map ep_port (exposed_ports cfg))"
  by (auto simp: remove_exposed_port_def ports_ok_def dest: remove_first_port_set split: option.splits)

lemma remove_exposed_port_ok [inv_intros]:
  "remove_exposed_port cfg v port = Inr cfg' \<Longrightarrow> ports_ok cfg \<Longrightarrow> ports_ok cfg'"
  using remove_exposed_port_ports[of cfg v port cfg'] by (simp add: ports_ok_def distinct_removeAll)

text \<open>A history of requests to the registry; a refused one leaves it as it is.\<close>

fun run_registry :: "('c \<Rightarrow> 'p \<Rightarrow> 'e + 'c) \<Rightarrow> ('c \<Rightarrow> 'k \<Rightarrow> 'e + 'c) \<Rightarrow> 'c \<Rightarrow> ('p + 'k) list \<Rightarrow> 'c" where
  "run_registry add remove c [] = c"
| "run_registry add remove c (Inl p # ops) =
     run_registry add remove (case add c p of Inl _ \<Rightarrow> c | Inr c' \<Rightarrow> c') ops"
| "run_registry add remove c (Inr k # ops) =
     run_registry add remove (case remove c k of Inl _ \<Rightarrow> c | Inr c' \<Rightarrow> c') ops"

text \<open>
  The interface of the registry towards the API and the proxy: a port is served exactly
  from its registration to its removal.
\<close>

locale port_registry =
  fixes add :: "'c \<Rightarrow> 'p \<Rightarrow> 'e + 'c"
    and remove :: "'c \<Rightarrow> 'k \<Rightarrow> 'e + 'c"
    and exposed :: "'c \<Rightarrow> 'k \<Rightarrow> bool"
    and key :: "'p \<Rightarrow> 'k"
    and ok :: "'c \<Rightarrow> bool"
  assumes add_ok: "ok c \<Longrightarrow> add c p = Inr c' \<Longrightarrow> ok c'"
    and add_exposed: "ok c \<Longrightarrow> add c p = Inr c' \<Longrightarrow> exposed c' k \<longleftrightarrow> k = key p \<or> exposed c k"
    and remove_ok: "ok c \<Longrightarrow> remove c k = Inr c' \<Longrightarrow> ok c'"
    and remove_exposed: "ok c \<Longrightarrow> remove c k = Inr c' \<Longrightarrow> exposed c' j \<longleftrightarrow> j \<noteq> k \<and> exposed c j"
    and remove_total: "ok c \<Longrightarrow> exposed c k \<Longrightarrow> \<exists>c'. remove c k = Inr c'"
begin

abbreviation "run \<equiv> run_registry add remove"

lemma run_ok: "ok c \<Longrightarrow> ok (run c ops)"
proof (induction ops arbitrary: c)
  case (Cons op ops)
  then show ?case by (cases op) (auto split: sum.splits dest: add_ok remove_ok)
qed simp

lemma run_not_exposed:
  "ok c \<Longrightarrow> \<not> exposed c k \<Longrightarrow> \<forall>p. Inl p \<in> set ops \<longrightarrow> key p \<noteq> k \<Longrightarrow> \<not> exposed (run c ops) k"
proof (induction ops arbitrary: c)
  case (Cons op ops)
  let ?c = "run c [op]"
  have "ok ?c" using Cons.prems(1) by (rule run_ok)
  moreover have "\<not> exposed ?c k"
    using Cons.prems by (cases op) (auto split: sum.splits simp: add_exposed remove_exposed)
  ultimately have "\<not> exposed (run ?c ops) k" using Cons by simp
  then show ?case by (cases op) simp_all
qed simp

lemma revoked:
  assumes "ok c" "\<forall>p. Inl p \<in> set ops \<longrightarrow> key p \<noteq> k"
  shows "\<not> exposed (run c (Inr k # ops)) k"
proof (cases "remove c k")
  case (Inl e)
  with remove_total assms(1) have "\<not> exposed c k" by fastforce
  with Inl assms show ?thesis by (simp add: run_not_exposed)
next
  case (Inr c')
  with assms remove_exposed[OF assms(1) Inr] remove_ok[OF assms(1) Inr] show ?thesis
    by (simp add: run_not_exposed)
qed

end

interpretation ports: port_registry
  "\<lambda>cfg. add_exposed_port cfg v" "\<lambda>cfg. remove_exposed_port cfg v" port_exposed ep_port ports_ok
  for v :: vm_id
proof
  fix c c' :: network_config and p :: exposed_port and k j :: u16
  show "ports_ok c \<Longrightarrow> add_exposed_port c v p = Inr c' \<Longrightarrow> ports_ok c'"
    by (rule add_exposed_port_ok)
  show "ports_ok c \<Longrightarrow> add_exposed_port c v p = Inr c' \<Longrightarrow>
      port_exposed c' k \<longleftrightarrow> k = ep_port p \<or> port_exposed c k"
    by (auto simp: add_exposed_port_def port_exposed_def split: if_splits)
  show "ports_ok c \<Longrightarrow> remove_exposed_port c v k = Inr c' \<Longrightarrow> ports_ok c'"
    by (rule remove_exposed_port_ok)
  show "ports_ok c \<Longrightarrow> remove_exposed_port c v k = Inr c' \<Longrightarrow>
      port_exposed c' j \<longleftrightarrow> j \<noteq> k \<and> port_exposed c j"
    using remove_exposed_port_ports[of c v k c'] by (auto simp: port_exposed_alt)
  show "ports_ok c \<Longrightarrow> port_exposed c k \<Longrightarrow> \<exists>c'. remove_exposed_port c v k = Inr c'"
    by (auto simp: remove_exposed_port_def port_exposed_def remove_first_port_None split: option.split)
qed

section \<open>A VM's network identity\<close>

record vm_net =
  vn_tap_name :: tap_name
  vn_guest_ip :: u32
  vn_gateway_ip :: u32
  vn_subnet :: ipv4net
  vn_guest_mac :: string

definition guest_mac_from_ip :: "u32 \<Rightarrow> string" where
  "guest_mac_from_ip ip =
     (case be32 ip of
        [a, b, c, d] \<Rightarrow>
          ''AA:FC:'' @ hex02_upper (unat a) @ '':'' @ hex02_upper (unat b) @ '':''
            @ hex02_upper (unat c) @ '':'' @ hex02_upper (unat d)
      | _ \<Rightarrow> [])"

definition vm_net_new :: "tap_name \<Rightarrow> u32 \<Rightarrow> u32 \<Rightarrow> ipv4net \<Rightarrow> vm_net" where
  "vm_net_new tap guest_ip gateway_ip subnet =
     \<lparr>vn_tap_name = tap, vn_guest_ip = guest_ip, vn_gateway_ip = gateway_ip,
      vn_subnet = subnet, vn_guest_mac = guest_mac_from_ip guest_ip\<rparr>"

definition vm_netmask :: "vm_net \<Rightarrow> u32" where
  "vm_netmask net = net_netmask (vn_subnet net)"

lemma unat_u8_lt: "unat (b :: u8) < 256"
  using unsigned_less[of b, where ?'a = nat] by simp

lemma guest_mac_inj_aux: "guest_mac_from_ip x = guest_mac_from_ip y \<Longrightarrow> x = y"
proof -
  assume eq: "guest_mac_from_ip x = guest_mac_from_ip y"
  obtain a b c d where x: "be32 x = [a, b, c, d]" "of_be32 [a, b, c, d] = x" by (rule be32_cases)
  obtain e f g h where y: "be32 y = [e, f, g, h]" "of_be32 [e, f, g, h] = y" by (rule be32_cases)
  have "unat a = unat e \<and> unat b = unat f \<and> unat c = unat g \<and> unat d = unat h"
    using eq by (simp add: guest_mac_from_ip_def x(1) y(1) hex02_upper_inj unat_u8_lt)
  then have "be32 x = be32 y" by (simp add: x(1) y(1) word_unat_eq_iff)
  then show "x = y" by (metis of_be32_be32)
qed

end
