(* ===== verification/Workload.thy ===== *)
theory Workload
  imports NetTypes
begin

text \<open>
  \<open>hostd/src/vmm/workload.rs\<close>: a process run in a guest, as hostd tracks it.  The clock is an
  argument of every operation that reads it; a \<open>WorkloadId\<close> is its string.
\<close>

type_synonym workload_id = string
type_synonym instant = nat \<comment> \<open>milliseconds of a clock\<close>

record env_var =
  ev_key :: string
  ev_value :: string

record workload_spec =
  ws_cmd :: "string list"
  ws_env :: "env_var list"
  ws_cwd :: "string option"

datatype workload_state = WlStarting | WlRunning | WlExited | WlStopped | WlFailed

datatype workload_origin = ApiOrigin | ScheduleOrigin

record workload =
  wl_id :: workload_id
  wl_vm_id :: vm_id
  wl_spec :: workload_spec
  wl_state :: workload_state
  wl_origin :: workload_origin
  wl_pid :: "u32 option"
  wl_exit_code :: "int option"
  wl_signal :: "int option"
  wl_created_at :: instant
  wl_started_at :: "instant option"
  wl_finished_at :: "instant option"
  wl_stop_requested :: bool

definition workload_id_new_random :: "nat list \<Rightarrow> workload_id" where
  "workload_id_new_random picks = random_id picks ''wl''"

definition workload_new :: "nat list \<Rightarrow> instant \<Rightarrow> vm_id \<Rightarrow> workload_spec \<Rightarrow> workload" where
  "workload_new picks now vm_id spec =
     \<lparr>wl_id = workload_id_new_random picks, wl_vm_id = vm_id, wl_spec = spec, wl_state = WlStarting,
      wl_origin = ApiOrigin, wl_pid = None, wl_exit_code = None, wl_signal = None,
      wl_created_at = now, wl_started_at = None, wl_finished_at = None, wl_stop_requested = False\<rparr>"

definition is_active :: "workload \<Rightarrow> bool" where
  "is_active w \<longleftrightarrow> wl_state w = WlStarting \<or> wl_state w = WlRunning"

definition mark_running :: "instant \<Rightarrow> u32 option \<Rightarrow> workload \<Rightarrow> workload" where
  "mark_running now pid w =
     (let w1 = (if wl_state w = WlStarting
                then w\<lparr>wl_state := WlRunning, wl_started_at := Some now\<rparr> else w)
      in if pid \<noteq> None then w1\<lparr>wl_pid := pid\<rparr> else w1)"

definition mark_finished :: "instant \<Rightarrow> int option \<Rightarrow> int option \<Rightarrow> workload \<Rightarrow> workload" where
  "mark_finished now exit_code signal w =
     (if \<not> is_active w then w
      else w\<lparr>wl_state := (if wl_stop_requested w then WlStopped else WlExited),
             wl_exit_code := exit_code, wl_signal := signal, wl_finished_at := Some now\<rparr>)"

definition mark_failed :: "instant \<Rightarrow> workload \<Rightarrow> workload" where
  "mark_failed now w =
     (if is_active w then w\<lparr>wl_state := WlFailed, wl_finished_at := Some now\<rparr> else w)"

section \<open>What happens to a tracked workload\<close>

datatype workload_event =
    Running instant "u32 option"
  | Finished instant "int option" "int option"
  | SpawnFailed instant
  | StopRequested bool \<comment> \<open>\<open>stop_workload\<close> sets the flag, and clears it if it could not be sent\<close>

fun workload_step :: "workload \<Rightarrow> workload_event \<Rightarrow> workload" where
  "workload_step w (Running now pid) = mark_running now pid w"
| "workload_step w (Finished now code sig) = mark_finished now code sig w"
| "workload_step w (SpawnFailed now) = mark_failed now w"
| "workload_step w (StopRequested b) = w\<lparr>wl_stop_requested := b\<rparr>"

text \<open>What the operations keep: a workload has an end time exactly when it is over, and a start time
  while it runs.\<close>

definition workload_wf :: "workload \<Rightarrow> bool" where
  "workload_wf w \<longleftrightarrow>
     (wl_finished_at w = None \<longleftrightarrow> is_active w) \<and>
     (wl_state w = WlStarting \<longrightarrow> wl_started_at w = None) \<and>
     (wl_state w = WlRunning \<longrightarrow> wl_started_at w \<noteq> None) \<and>
     (wl_exit_code w \<noteq> None \<or> wl_signal w \<noteq> None \<longrightarrow> wl_state w \<in> {WlExited, WlStopped})"

lemma workload_new_wf [inv_intros]: "workload_wf (workload_new picks now v spec)"
  by (simp add: workload_wf_def workload_new_def is_active_def)

lemma workload_step_wf [inv_intros]: "workload_wf w \<Longrightarrow> workload_wf (workload_step w ev)"
  by (cases ev; cases "wl_state w")
    (auto simp: workload_wf_def is_active_def mark_running_def mark_finished_def mark_failed_def Let_def)

lemma workload_step_terminal:
  "\<not> is_active w \<Longrightarrow> wl_state (workload_step w ev) = wl_state w \<and>
     wl_exit_code (workload_step w ev) = wl_exit_code w \<and> wl_signal (workload_step w ev) = wl_signal w \<and>
     wl_finished_at (workload_step w ev) = wl_finished_at w \<and> wl_started_at (workload_step w ev) = wl_started_at w"
  by (cases ev) (auto simp: is_active_def mark_running_def mark_finished_def mark_failed_def Let_def)

lemma workload_step_active: "\<not> is_active w \<Longrightarrow> \<not> is_active (workload_step w ev)"
  using workload_step_terminal[of w ev] by (simp add: is_active_def)

lemma workload_run_terminal:
  "\<not> is_active w \<Longrightarrow> wl_state (foldl workload_step w evs) = wl_state w \<and>
     wl_exit_code (foldl workload_step w evs) = wl_exit_code w \<and>
     wl_signal (foldl workload_step w evs) = wl_signal w \<and>
     wl_finished_at (foldl workload_step w evs) = wl_finished_at w"
proof (induction evs arbitrary: w)
  case (Cons ev evs)
  from Cons.IH[OF workload_step_active[OF Cons.prems, of ev]] workload_step_terminal[OF Cons.prems, of ev]
  show ?case by simp
qed simp

lemma workload_run_wf: "workload_wf w \<Longrightarrow> workload_wf (foldl workload_step w evs)"
  by (induction evs arbitrary: w) (auto intro: inv_intros)

text \<open>Whatever guestd reports, in whatever order and however often, a workload that is over stays as
  it ended: its state, its exit status and its end time never change again, and it has an end time
  exactly when it is over.\<close>

theorem workload_history_final:
  assumes w: "w = foldl workload_step (workload_new picks now v spec) evs" and over: "\<not> is_active w"
  shows "wl_state (foldl workload_step w later) = wl_state w \<and>
    wl_exit_code (foldl workload_step w later) = wl_exit_code w \<and>
    wl_signal (foldl workload_step w later) = wl_signal w \<and>
    wl_finished_at (foldl workload_step w later) = wl_finished_at w \<and> wl_finished_at w \<noteq> None"
proof -
  have "workload_wf w" unfolding w by (intro workload_run_wf workload_new_wf)
  with over have "wl_finished_at w \<noteq> None" by (simp add: workload_wf_def)
  with workload_run_terminal[OF over, of later] show ?thesis by blast
qed

lemma workload_history_final_witness:
  "wl_state (foldl workload_step (workload_new [] 5 ''vm-a'' \<lparr>ws_cmd = [''true''], ws_env = [], ws_cwd = None\<rparr>)
     ([Running 6 (Some 42), StopRequested True, Finished 7 None (Some 15)] @ [Running 8 None, SpawnFailed 9]))
   = WlStopped"
  using workload_history_final[OF refl, where picks = "[]" and now = 5 and v = "''vm-a''"
      and spec = "\<lparr>ws_cmd = [''true''], ws_env = [], ws_cwd = None\<rparr>"
      and evs = "[Running 6 (Some 42), StopRequested True, Finished 7 None (Some 15)]"
      and later = "[Running 8 None, SpawnFailed 9]"]
  by (simp add: workload_new_def mark_running_def mark_finished_def mark_failed_def is_active_def)

end
