(* ===== verification/Activity.thy ===== *)
theory Activity
  imports Workload
begin

text \<open>
  \<open>hostd/src/vmm/activity.rs\<close>: the requests the proxy has in flight per VM, and when the last one
  began or ended.  \<open>Instant::now()\<close> is an argument.  A guard is counted from \<open>track\<close> to its drop.
\<close>

record activity =
  ac_in_flight :: nat
  ac_last_activity :: "instant option"

definition activity_default :: activity where
  "activity_default = \<lparr>ac_in_flight = 0, ac_last_activity = None\<rparr>"

type_synonym tracker = "(vm_id, activity) amap"

definition track :: "instant \<Rightarrow> vm_id \<Rightarrow> tracker \<Rightarrow> tracker" where
  "track now vm_id t =
     (let a = (case map_of t vm_id of Some a \<Rightarrow> a | None \<Rightarrow> activity_default)
      in AList.update vm_id (a\<lparr>ac_in_flight := ac_in_flight a + 1, ac_last_activity := Some now\<rparr>) t)"

definition in_flight :: "tracker \<Rightarrow> vm_id \<Rightarrow> nat" where
  "in_flight t vm_id = (case map_of t vm_id of None \<Rightarrow> 0 | Some a \<Rightarrow> ac_in_flight a)"

definition last_activity :: "tracker \<Rightarrow> vm_id \<Rightarrow> instant option" where
  "last_activity t vm_id = Option.bind (map_of t vm_id) ac_last_activity"

definition clear :: "vm_id \<Rightarrow> tracker \<Rightarrow> tracker" where
  "clear vm_id t = AList.delete vm_id t"

definition guard_drop :: "instant \<Rightarrow> vm_id \<Rightarrow> tracker \<Rightarrow> tracker" where
  "guard_drop now vm_id t =
     (case map_of t vm_id of
        None \<Rightarrow> t
      | Some a \<Rightarrow> AList.update vm_id
          (a\<lparr>ac_in_flight := ac_in_flight a - 1, ac_last_activity := Some now\<rparr>) t)"

section \<open>Histories\<close>

datatype activity_op = Track instant vm_id | GuardDrop instant vm_id | Clear vm_id

fun activity_step :: "tracker \<Rightarrow> activity_op \<Rightarrow> tracker" where
  "activity_step t (Track now v) = track now v t"
| "activity_step t (GuardDrop now v) = guard_drop now v t"
| "activity_step t (Clear v) = clear v t"

text \<open>What a history means for one VM: the guards alive and the time of the last event.\<close>

fun outstanding :: "vm_id \<Rightarrow> activity_op list \<Rightarrow> nat" where
  "outstanding v [] = 0"
| "outstanding v (Track _ u # ops) = outstanding v ops + (if u = v then 1 else 0)"
| "outstanding v (GuardDrop _ u # ops) = outstanding v ops - (if u = v then 1 else 0)"
| "outstanding v (Clear u # ops) = (if u = v then 0 else outstanding v ops)"

fun last_event :: "vm_id \<Rightarrow> activity_op list \<Rightarrow> instant option" where
  "last_event v [] = None"
| "last_event v (Track now u # ops) = (if u = v then Some now else last_event v ops)"
| "last_event v (GuardDrop now u # ops) =
     (if u = v \<and> last_event v ops \<noteq> None then Some now else last_event v ops)"
| "last_event v (Clear u # ops) = (if u = v then None else last_event v ops)"

lemma tracker_get_step:
  "map_of (activity_step t (Track now u)) v =
     (if u = v then Some \<lparr>ac_in_flight = in_flight t v + 1, ac_last_activity = Some now\<rparr> else map_of t v)"
  "map_of (activity_step t (GuardDrop now u)) v =
     (if u = v then map_option (\<lambda>a. a\<lparr>ac_in_flight := ac_in_flight a - 1, ac_last_activity := Some now\<rparr>) (map_of t v)
      else map_of t v)"
  "map_of (activity_step t (Clear u)) v = (if u = v then None else map_of t v)"
  by (auto simp: track_def guard_drop_def clear_def in_flight_def activity_default_def Let_def map_simps
      split: option.split)

lemma tracker_history:
  "(case map_of (foldr (\<lambda>op t. activity_step t op) ops []) v of
      None \<Rightarrow> outstanding v ops = 0 \<and> last_event v ops = None
    | Some a \<Rightarrow> ac_in_flight a = outstanding v ops \<and> ac_last_activity a = last_event v ops \<and>
        last_event v ops \<noteq> None)"
proof (induction ops)
  case (Cons op ops)
  then show ?case
    by (cases op) (auto simp: tracker_get_step in_flight_def simp del: activity_step.simps split: option.splits)
qed simp

text \<open>The tracker counts exactly: after any interleaving of requests that begin, requests that end
  and VMs that are forgotten (the latest event first in the list), \<open>in_flight\<close> is the number of
  guards alive since the VM was last forgotten, and \<open>last_activity\<close> the time of its last event.
  VMs do not affect each other.\<close>

theorem tracker_counts:
  "in_flight (foldr (\<lambda>op t. activity_step t op) ops []) v = outstanding v ops \<and>
   last_activity (foldr (\<lambda>op t. activity_step t op) ops []) v = last_event v ops"
  using tracker_history[where ops = ops and v = v] by (auto simp: in_flight_def last_activity_def split: option.splits)

end
