(* ===== verification/VmState.thy ===== *)
theory VmState
  imports Errors
begin

text \<open>
  The lifecycle state machine of \<open>hostd/src/vmm/vm.rs\<close>: \<open>VmState::can_transition_to\<close> and
  \<open>VmState::transition\<close>.  Every lifecycle operation of the VMM is a pair of transitions around an
  external call: out of a stable state into a transitional one, and back into a stable state.
\<close>

fun can_transition_to :: "vm_state \<Rightarrow> vm_state \<Rightarrow> bool" where
  "can_transition_to self next =
     (case (self, next) of
        (Creating, Created) \<Rightarrow> True | (Starting, Created) \<Rightarrow> True
      | (Creating, Destroyed) \<Rightarrow> True | (Destroying, Destroyed) \<Rightarrow> True
      | (Created, Starting) \<Rightarrow> True | (Created, Destroying) \<Rightarrow> True
      | (Starting, Started) \<Rightarrow> True | (Pausing, Started) \<Rightarrow> True | (Resuming, Started) \<Rightarrow> True
      | (Suspending, Started) \<Rightarrow> True | (Restoring, Started) \<Rightarrow> True
      | (Started, Pausing) \<Rightarrow> True | (Started, Suspending) \<Rightarrow> True | (Started, Destroying) \<Rightarrow> True
      | (Pausing, Paused) \<Rightarrow> True | (Resuming, Paused) \<Rightarrow> True
      | (Paused, Resuming) \<Rightarrow> True | (Paused, Suspending) \<Rightarrow> True | (Paused, Destroying) \<Rightarrow> True
      | (Suspending, Suspended) \<Rightarrow> True | (Restoring, Suspended) \<Rightarrow> True
      | (Suspended, Restoring) \<Rightarrow> True | (Suspended, Destroying) \<Rightarrow> True
      | _ \<Rightarrow> False)"

definition transition :: "vm_state \<Rightarrow> vm_state \<Rightarrow> vm_state result" where
  "transition self next =
     (if can_transition_to self next then Inr next else Inl (InvalidStateTransition self next))"

definition transitional :: "vm_state \<Rightarrow> bool" where
  "transitional s \<longleftrightarrow> s \<in> {Creating, Starting, Pausing, Resuming, Suspending, Restoring, Destroying}"

lemma transition_Inr [simp]: "transition a b = Inr c \<longleftrightarrow> can_transition_to a b \<and> c = b"
  by (auto simp: transition_def simp del: can_transition_to.simps)

lemma transition_Inl: "transition a b = Inl e \<longleftrightarrow> \<not> can_transition_to a b \<and> e = InvalidStateTransition a b"
  by (auto simp: transition_def simp del: can_transition_to.simps)

text \<open>The machine alternates: no transition joins two stable or two transitional states.\<close>

lemma can_transition_alternates: "can_transition_to a b \<Longrightarrow> transitional a \<noteq> transitional b"
  by (cases a; cases b) (simp_all add: transitional_def)

lemma destroyed_final: "\<not> can_transition_to Destroyed b"
  by (cases b) simp_all

section \<open>The operations over the machine\<close>

datatype lifecycle_op = OpStart | OpPause | OpResume | OpSnapshot | OpRestore

text \<open>The transitional state an operation enters, and the stable ones it may end in.\<close>

fun op_begin :: "lifecycle_op \<Rightarrow> vm_state" where
  "op_begin OpStart = Starting"
| "op_begin OpPause = Pausing"
| "op_begin OpResume = Resuming"
| "op_begin OpSnapshot = Suspending"
| "op_begin OpRestore = Restoring"

fun op_done :: "lifecycle_op \<Rightarrow> vm_state" where
  "op_done OpStart = Started"
| "op_done OpPause = Paused"
| "op_done OpResume = Started"
| "op_done OpSnapshot = Suspended"
| "op_done OpRestore = Started"

fun op_failed :: "lifecycle_op \<Rightarrow> vm_state" where
  "op_failed OpStart = Created"
| "op_failed OpPause = Started"
| "op_failed OpResume = Paused"
| "op_failed OpSnapshot = Started"
| "op_failed OpRestore = Suspended"

text \<open>
  The contract of the operations over the machine: an operation that was let in can always leave,
  whichever way it ends, and while it is in progress no operation is let in.
\<close>

locale lifecycle =
  fixes step :: "'s \<Rightarrow> 's \<Rightarrow> bool"
    and enter leave_ok leave_err :: "'o \<Rightarrow> 's"
    and busy :: "'s \<Rightarrow> bool"
  assumes enter_idle: "step s (enter op) \<Longrightarrow> \<not> busy s" and enter_busy: "busy (enter op)"
    and leave: "step (enter op) (leave_ok op)" "step (enter op) (leave_err op)"
    and leave_stable: "\<not> busy (leave_ok op)" "\<not> busy (leave_err op)"
begin

text \<open>A holder is in the middle of \<open>op\<close>: nobody else can enter, and the holder can leave.\<close>

lemma exclusive: "\<not> step (enter op) (enter op')"
  using enter_idle enter_busy by blast

lemma can_finish: "step (enter op) (if ok then leave_ok op else leave_err op)"
  using leave by simp

end

interpretation lc: lifecycle can_transition_to op_begin op_done op_failed transitional
proof
  show "can_transition_to s (op_begin op) \<Longrightarrow> \<not> transitional s" for s op
    by (cases s; cases op) (simp_all add: transitional_def)
  show "transitional (op_begin op)" for op
    by (cases op) (simp_all add: transitional_def)
  show "can_transition_to (op_begin op) (op_done op)" "can_transition_to (op_begin op) (op_failed op)" for op
    by (cases op; simp)+
  show "\<not> transitional (op_done op)" "\<not> transitional (op_failed op)" for op
    by (cases op; simp add: transitional_def)+
qed

text \<open>Which operation is let in from which state, and where a failure goes back to.\<close>

lemma op_begin_from:
  "can_transition_to s (op_begin op) \<longleftrightarrow>
     (case op of OpStart \<Rightarrow> s = Created | OpPause \<Rightarrow> s = Started | OpResume \<Rightarrow> s = Paused
      | OpSnapshot \<Rightarrow> s = Started \<or> s = Paused | OpRestore \<Rightarrow> s = Suspended)"
  by (cases op; cases s) simp_all

text \<open>The comment on the machine says a failed operation goes back to the previous stable state.
  That holds except when a paused VM is snapshotted: it comes back as started.\<close>

lemma rollback_state:
  "can_transition_to s (op_begin op) \<Longrightarrow> op_failed op = s \<or> (op = OpSnapshot \<and> s = Paused \<and> op_failed op = Started)"
  by (cases op; cases s) simp_all

declare can_transition_to.simps [simp del]

end
