(* ===== verification/VmTypes.thy ===== *)
theory VmTypes
  imports Activity VmState
begin

text \<open>
  \<open>hostd/src/vmm/vm.rs\<close>: a VM's configuration and instance.  A path is its string, a
  \<open>DateTime\<close> an instant.
\<close>

datatype vm_mode = Ephemeral | Permanent | ScheduleMode

record auto_suspend_config =
  asc_idle_timeout_secs :: nat
  asc_idle_check_cmd :: "string list"
  asc_check_interval_secs :: nat

definition default_check_interval_secs :: nat where
  "default_check_interval_secs = 30"

record block_storage_config =
  bs_size_mb :: nat
  bs_chunk_kb :: "nat option"
  bs_mount_path :: string

definition default_mount_path :: string where
  "default_mount_path = ''/mnt/tikovm-data''"

record vm_snapshot =
  sn_state_path :: string
  sn_mem_path :: string
  sn_created_at :: instant

definition vm_snapshot_new :: "instant \<Rightarrow> vm_id \<Rightarrow> string \<Rightarrow> vm_snapshot" where
  "vm_snapshot_new now vm_id work_dir =
     \<lparr>sn_state_path = path_join work_dir (vm_id @ ''_snapshot.state''),
      sn_mem_path = path_join work_dir (vm_id @ ''_snapshot.mem''),
      sn_created_at = now\<rparr>"

record vm_config =
  vc_name :: string
  vc_project_id :: nat
  vc_mode :: vm_mode
  vc_image :: string
  vc_cpus :: nat
  vc_memory_mb :: nat
  vc_disk_size_mb :: nat
  vc_network_config :: network_config
  vc_ssh_access :: bool
  vc_env :: "env_var list"
  vc_cmd :: "string list"
  vc_services :: "string list"
  vc_cron_schedule :: "string option"
  vc_timeout_secs :: "nat option"
  vc_tags :: "string list"
  vc_auto_suspend :: "auto_suspend_config option"
  vc_block_storage :: "block_storage_config option"

definition rootfs_file :: "vm_config \<Rightarrow> string result" where
  "rootfs_file c =
     (if vc_image c = ''node-22'' then Inr ''node-22-rootfs.ext4''
      else if vc_image c = ''postgres-16'' then Inr ''postgres-16-rootfs.ext4''
      else if vc_image c = ''postgrest'' then Inr ''postgrest-rootfs.ext4''
      else if vc_image c = ''python-3.12'' then Inr ''python-3.12-rootfs.ext4''
      else if vc_image c = ''s3files'' then Inr ''s3files-rootfs.ext4''
      else if vc_image c = ''tiko-postgres'' then Inr ''tiko-postgres-rootfs.ext4''
      else if vc_image c = ''ubuntu-24'' then Inr ''ubuntu-24.04-rootfs.ext4''
      else Inl (InvalidImage (vc_image c)))"

record vm_instance =
  vi_vm_id :: vm_id
  vi_state :: vm_state
  vi_work_dir :: string
  vi_socket_path :: string
  vi_kernel_path :: string
  vi_initramfs_path :: string
  vi_boot_args :: string
  vi_rootfs_path :: string
  vi_overlay_disk :: string
  vi_block_device :: "string option"
  vi_net :: "vm_net option"
  vi_guest_cid :: "u32 option"
  vi_vsock_uds_path :: string
  vi_snapshot :: "vm_snapshot option"
  vi_serial_log :: string
  vi_error_log :: string
  vi_created_at :: instant
  vi_vm_config :: vm_config

text \<open>\<open>VmInstance::new\<close>: \<open>picks\<close> are the draws of the random id, \<open>now\<close> the clock.\<close>

definition vm_instance_new :: "nat list \<Rightarrow> instant \<Rightarrow> vm_config \<Rightarrow> string \<Rightarrow> string \<Rightarrow> vm_instance result" where
  "vm_instance_new picks now config assets_dir work_dir =
     (let vm_id = vm_id_new_random picks (vc_project_id config);
          work_dir = path_join work_dir vm_id
      in try_res (rootfs_file config) (\<lambda>rootfs. Inr
           \<lparr>vi_vm_id = vm_id,
            vi_state = Creating,
            vi_work_dir = work_dir,
            vi_socket_path = path_join work_dir (vm_id @ ''.socket''),
            vi_kernel_path = path_join assets_dir ''vmlinux.bin'',
            vi_initramfs_path = path_join assets_dir ''initramfs.cpio.gz'',
            vi_boot_args = ''console=ttyS0 reboot=k panic=1 pci=on nomodules'',
            vi_rootfs_path = path_join assets_dir rootfs,
            vi_overlay_disk = path_join work_dir (vm_id @ ''.overlay.ext4''),
            vi_block_device = None,
            vi_net = None,
            vi_guest_cid = None,
            vi_vsock_uds_path = path_join work_dir (vm_id @ ''.vsock''),
            vi_snapshot = None,
            vi_serial_log = path_join work_dir (vm_id @ ''.serial.log''),
            vi_error_log = path_join work_dir (vm_id @ ''.stderr.log''),
            vi_created_at = now,
            vi_vm_config = config\<rparr>))"

definition new_snapshot :: "instant \<Rightarrow> vm_instance \<Rightarrow> vm_snapshot" where
  "new_snapshot now inst = vm_snapshot_new now (vi_vm_id inst) (vi_work_dir inst)"

lemma vm_instance_new_fields:
  "vm_instance_new picks now config assets work = Inr inst \<Longrightarrow>
     vi_state inst = Creating \<and> vi_snapshot inst = None \<and> vi_net inst = None \<and>
     vi_vm_id inst = vm_id_new_random picks (vc_project_id config) \<and> vi_vm_config inst = config"
  by (auto simp: vm_instance_new_def Let_def try_res_Inr)

end
