(* ===== verification/Ipam.thy ===== *)
theory Ipam
  imports NetTypes
begin

text \<open>
  \<open>hostd/src/net/state.rs\<close>: the pure allocator.  \<open>NetState\<close> maps a project to its subnet and
  its VMs; \<open>alloc\<close>, \<open>rollback_alloc\<close> and \<open>release\<close> update it and return the plan the host has
  to carry out.  The invariant \<open>ipam_wf\<close> says what every reachable state guarantees: distinct
  subnets inside the supernet, distinct usable guest addresses inside each subnet, no empty
  project.
\<close>

record project_state =
  ps_subnet_index :: u32
  ps_bridge :: string
  ps_gateway :: u32
  ps_vms :: "(u32, vm_id) amap"

type_synonym project_id = nat \<comment> \<open>\<open>u64\<close>, only compared and printed\<close>

record net_state =
  projects :: "(project_id, project_state) amap"

definition net_state_default :: net_state where
  "net_state_default = \<lparr>projects = []\<rparr>"

record project_setup =
  su_bridge :: string
  su_gateway :: u32
  su_subnet :: ipv4net
  su_supernet :: ipv4net

record alloc_plan =
  ap_bridge :: string
  ap_setup :: "project_setup option"
  ap_vm_net :: vm_net

record release_plan =
  rp_tap :: tap_name
  rp_teardown :: "project_setup option"

definition owns_vm :: "project_state \<Rightarrow> vm_id \<Rightarrow> bool" where
  "owns_vm p vm_id \<longleftrightarrow> list_ex (\<lambda>(_, id). id = vm_id) (ps_vms p)"

definition remove_vm :: "vm_id \<Rightarrow> project_state \<Rightarrow> project_state" where
  "remove_vm vm_id p = p\<lparr>ps_vms := filter (\<lambda>(_, id). id \<noteq> vm_id) (ps_vms p)\<rparr>"

text \<open>The range \<open>2..subnet.size() - 1\<close>, first address not in \<open>used\<close>.\<close>

definition lowest_free_ip :: "ipv4net \<Rightarrow> (u32, vm_id) amap \<Rightarrow> u32 option" where
  "lowest_free_ip subnet used =
     map_option (\<lambda>idx. net_host subnet (of_nat idx))
       (first_from 2 (unat (net_size subnet - 1) - 2)
         (\<lambda>idx. map_of used (net_host subnet (of_nat idx)) = None))"

definition alloc ::
  "net_state \<Rightarrow> project_id \<Rightarrow> vm_id \<Rightarrow> tap_name \<Rightarrow> ipv4net \<Rightarrow> nat \<Rightarrow> net_state \<times> alloc_plan result" where
  "alloc s project_id vm_id tap supernet prefix =
     (case map_of (projects s) project_id of
        Some project \<Rightarrow>
          if owns_vm project vm_id
          then (s, Inl (Net (''vm '' @ vm_id @ '' already has an IP allocated'')))
          else
            let subnet = net_subnet supernet (ps_subnet_index project) prefix
            in (case lowest_free_ip subnet (ps_vms project) of
                  None \<Rightarrow> (s, Inl (Net (''subnet '' @ net_display subnet @ '' for project ''
                                  @ dec project_id @ '' is exhausted'')))
                | Some guest_ip \<Rightarrow>
                    (s\<lparr>projects := AList.map_entry project_id
                         (\<lambda>p. p\<lparr>ps_vms := AList.update guest_ip vm_id (ps_vms p)\<rparr>) (projects s)\<rparr>,
                     Inr \<lparr>ap_bridge = ps_bridge project, ap_setup = None,
                          ap_vm_net = vm_net_new tap guest_ip (ps_gateway project) subnet\<rparr>))
      | None \<Rightarrow>
          let used = map (\<lambda>(_, p). ps_subnet_index p) (projects s)
          in (case first_from 0 (unat (net_subnet_count supernet prefix))
                     (\<lambda>i. of_nat i \<notin> set used) of
                None \<Rightarrow> (s, Inl (Net (''supernet '' @ net_display supernet @ '' has no free subnets'')))
              | Some i \<Rightarrow>
                  let subnet_index = of_nat i;
                      bridge = BRIDGE_PREFIX @ dec project_id
                  in if IFNAMSIZ_MAX < length bridge
                     then (s, Inl (Net (''bridge name '' @ debug_str bridge @ '' exceeds ''
                                  @ dec IFNAMSIZ_MAX @ '' bytes'')))
                     else
                       let subnet = net_subnet supernet subnet_index prefix;
                           gateway = net_host subnet 1;
                           guest_ip = net_host subnet 2
                       in (s\<lparr>projects := AList.update project_id
                             \<lparr>ps_subnet_index = subnet_index, ps_bridge = bridge,
                              ps_gateway = gateway, ps_vms = [(guest_ip, vm_id)]\<rparr> (projects s)\<rparr>,
                           Inr \<lparr>ap_bridge = bridge,
                                ap_setup = Some \<lparr>su_bridge = bridge, su_gateway = gateway,
                                             su_subnet = subnet, su_supernet = supernet\<rparr>,
                                ap_vm_net = vm_net_new tap guest_ip gateway subnet\<rparr>)))"

definition rollback_alloc :: "net_state \<Rightarrow> project_id \<Rightarrow> vm_id \<Rightarrow> net_state" where
  "rollback_alloc s project_id vm_id =
     (case map_of (projects s) project_id of
        None \<Rightarrow> s
      | Some project \<Rightarrow>
          let s' = s\<lparr>projects := AList.map_entry project_id (remove_vm vm_id) (projects s)\<rparr>
          in if ps_vms (remove_vm vm_id project) = []
             then s'\<lparr>projects := AList.delete project_id (projects s')\<rparr>
             else s')"

definition find_owner :: "vm_id \<Rightarrow> (project_id, project_state) amap \<Rightarrow> (project_id \<times> project_state) option" where
  "find_owner vm_id ps = List.find (\<lambda>(_, p). owns_vm p vm_id) ps"

definition release :: "net_state \<Rightarrow> vm_id \<Rightarrow> ipv4net \<Rightarrow> nat \<Rightarrow> net_state \<times> release_plan option" where
  "release s vm_id supernet prefix =
     (case find_owner vm_id (projects s) of
        None \<Rightarrow> (s, None)
      | Some (project_id, project) \<Rightarrow>
          let s' = s\<lparr>projects := AList.map_entry project_id (remove_vm vm_id) (projects s)\<rparr>;
              project' = remove_vm vm_id project
          in if ps_vms project' = []
             then (s'\<lparr>projects := AList.delete project_id (projects s')\<rparr>,
                   Some \<lparr>rp_tap = tap_for_vm vm_id,
                         rp_teardown = Some \<lparr>su_bridge = ps_bridge project',
                           su_gateway = ps_gateway project',
                           su_subnet = net_subnet supernet (ps_subnet_index project') prefix,
                           su_supernet = supernet\<rparr>\<rparr>)
             else (s', Some \<lparr>rp_tap = tap_for_vm vm_id, rp_teardown = None\<rparr>))"

section \<open>The invariant\<close>

definition usable_ip :: "ipv4net \<Rightarrow> u32 \<Rightarrow> bool" where
  "usable_ip subnet ip \<longleftrightarrow>
     unat (net_addr subnet) + 2 \<le> unat ip \<and>
     unat ip + 1 < unat (net_addr subnet) + 2 ^ (32 - net_prefix subnet)"

definition project_wf :: "ipv4net \<Rightarrow> nat \<Rightarrow> project_id \<Rightarrow> project_state \<Rightarrow> bool" where
  "project_wf supernet prefix pid p \<longleftrightarrow>
     (let subnet = net_subnet supernet (ps_subnet_index p) prefix
      in index_ok supernet prefix (ps_subnet_index p) \<and>
         ps_bridge p = BRIDGE_PREFIX @ dec pid \<and> length (BRIDGE_PREFIX @ dec pid) \<le> IFNAMSIZ_MAX \<and>
         ps_gateway p = net_host subnet 1 \<and>
         ps_vms p \<noteq> [] \<and> distinct (map fst (ps_vms p)) \<and> distinct (map snd (ps_vms p)) \<and>
         list_all (\<lambda>(ip, _). usable_ip subnet ip) (ps_vms p))"

definition ipam_wf :: "ipv4net \<Rightarrow> nat \<Rightarrow> net_state \<Rightarrow> bool" where
  "ipam_wf supernet prefix s \<longleftrightarrow>
     distinct (map fst (projects s)) \<and>
     distinct (map (\<lambda>(_, p). ps_subnet_index p) (projects s)) \<and>
     list_all (\<lambda>(pid, p). project_wf supernet prefix pid p) (projects s)"

text \<open>The requests the manager sends to the allocator.\<close>

datatype ipam_op = Alloc project_id vm_id tap_name | Rollback project_id vm_id | Release vm_id

fun ipam_step :: "ipv4net \<Rightarrow> nat \<Rightarrow> net_state \<Rightarrow> ipam_op \<Rightarrow> net_state" where
  "ipam_step supernet prefix s (Alloc pid v tap) = fst (alloc s pid v tap supernet prefix)"
| "ipam_step supernet prefix s (Rollback pid v) = rollback_alloc s pid v"
| "ipam_step supernet prefix s (Release v) = fst (release s v supernet prefix)"

section \<open>Lemmas\<close>

lemma owns_vm_iff: "owns_vm p v \<longleftrightarrow> v \<in> snd ` set (ps_vms p)"
  by (force simp: owns_vm_def list_ex_iff)

lemma remove_vm_fields [simp]:
  "ps_subnet_index (remove_vm v p) = ps_subnet_index p"
  "ps_bridge (remove_vm v p) = ps_bridge p"
  "ps_gateway (remove_vm v p) = ps_gateway p"
  by (simp_all add: remove_vm_def)

lemma remove_vm_vms: "ps_vms (remove_vm v p) = filter (\<lambda>x. snd x \<noteq> v) (ps_vms p)"
  by (auto simp: remove_vm_def intro: filter_cong)

lemma remove_vm_not_owner: "\<not> owns_vm p v \<Longrightarrow> remove_vm v p = p"
  by (cases p) (force simp: remove_vm_def owns_vm_iff filter_id_conv)

lemma remove_vm_wf [inv_intros]:
  "project_wf n q pid p \<Longrightarrow> ps_vms (remove_vm v p) \<noteq> [] \<Longrightarrow> project_wf n q pid (remove_vm v p)"
  by (auto simp: project_wf_def Let_def remove_vm_vms list_all_iff distinct_map_filter)

lemma lowest_free_ip_props:
  assumes wf: "net_wf subnet" "net_prefix subnet \<le> 30"
    and ip: "lowest_free_ip subnet used = Some ip"
  obtains i where "2 \<le> i" "i + 1 < 2 ^ (32 - net_prefix subnet)" "ip = net_host subnet (of_nat i)"
    "unat ip = unat (net_addr subnet) + i" "map_of used ip = None"
    "\<And>j. 2 \<le> j \<Longrightarrow> j < i \<Longrightarrow> map_of used (net_host subnet (of_nat j)) \<noteq> None"
proof -
  obtain i where i: "first_from 2 (unat (net_size subnet - 1) - 2)
      (\<lambda>idx. map_of used (net_host subnet (of_nat idx)) = None) = Some i"
    and ip_eq: "ip = net_host subnet (of_nat i)"
    using ip by (auto simp: lowest_free_ip_def)
  from first_from_Some[OF i] have i2: "2 \<le> i" "i + 1 < 2 ^ (32 - net_prefix subnet)"
    "map_of used ip = None"
    and least: "\<And>j. 2 \<le> j \<Longrightarrow> j < i \<Longrightarrow> map_of used (net_host subnet (of_nat j)) \<noteq> None"
    by (auto simp: net_last_unat[OF wf(1)] ip_eq)
  then have "unat (of_nat i :: u32) = i"
    using pow32_le[of "net_prefix subnet"] by (intro u32_of_nat) linarith
  with i2 have "unat ip = unat (net_addr subnet) + i"
    by (simp add: ip_eq net_host_unat[OF wf(1)])
  with that i2 ip_eq least show ?thesis by blast
qed

lemma lowest_free_ip_usable:
  "net_wf subnet \<Longrightarrow> net_prefix subnet \<le> 30 \<Longrightarrow> lowest_free_ip subnet used = Some ip \<Longrightarrow>
     usable_ip subnet ip \<and> map_of used ip = None"
  by (erule lowest_free_ip_props) (auto simp: usable_ip_def)

lemma usable_is_host:
  assumes "net_wf subnet" "usable_ip subnet ip"
  obtains i where "2 \<le> i" "i + 1 < 2 ^ (32 - net_prefix subnet)" "ip = net_host subnet (of_nat i)"
    "unat (of_nat i :: u32) = i"
proof -
  obtain i where i: "i = unat ip - unat (net_addr subnet)" by simp
  with assms(2) have i2: "2 \<le> i" "i + 1 < 2 ^ (32 - net_prefix subnet)"
    by (auto simp: usable_ip_def)
  then have u: "unat (of_nat i :: u32) = i"
    using pow32_le[of "net_prefix subnet"] by (intro u32_of_nat) linarith
  with i2 have "unat (net_host subnet (of_nat i)) = unat ip"
    using assms(2) i by (simp add: net_host_unat[OF assms(1)] usable_ip_def)
  then have "ip = net_host subnet (of_nat i)" by (simp add: word_unat_eq_iff)
  with that i2 u show ?thesis by blast
qed

lemma host_usable:
  assumes "net_wf subnet" "2 \<le> i" "i + 1 < 2 ^ (32 - net_prefix subnet)"
  shows "usable_ip subnet (net_host subnet (of_nat i))"
proof -
  have "unat (of_nat i :: u32) = i"
    using assms pow32_le[of "net_prefix subnet"] by (intro u32_of_nat) linarith
  with assms show ?thesis by (simp add: usable_ip_def net_host_unat)
qed

lemma lowest_free_ip_None:
  assumes "net_wf subnet" "lowest_free_ip subnet used = None" "usable_ip subnet ip"
  shows "map_of used ip \<noteq> None"
proof -
  obtain i where i: "2 \<le> i" "i + 1 < 2 ^ (32 - net_prefix subnet)" "ip = net_host subnet (of_nat i)"
    using usable_is_host[OF assms(1,3)] by blast
  have "first_from 2 (unat (net_size subnet - 1) - 2)
      (\<lambda>idx. map_of used (net_host subnet (of_nat idx)) = None) = None"
    using assms(2) by (simp add: lowest_free_ip_def)
  from first_from_NoneD[OF this i(1)] i show ?thesis by (simp add: net_last_unat[OF assms(1)])
qed

lemma card_usable:
  assumes "net_wf subnet" "net_prefix subnet \<le> 30"
  shows "finite {ip. usable_ip subnet ip}" "card {ip. usable_ip subnet ip} = 2 ^ (32 - net_prefix subnet) - 3"
proof -
  let ?size = "2 ^ (32 - net_prefix subnet) :: nat"
  let ?h = "\<lambda>i. net_host subnet (of_nat i)"
  have eq: "{ip. usable_ip subnet ip} = ?h ` {2..<?size - 1}"
  proof
    show "{ip. usable_ip subnet ip} \<subseteq> ?h ` {2..<?size - 1}"
      by (auto elim!: usable_is_host[OF assms(1)])
    show "?h ` {2..<?size - 1} \<subseteq> {ip. usable_ip subnet ip}"
      by (auto intro!: host_usable[OF assms(1)])
  qed
  have "inj_on ?h {2..<?size - 1}"
  proof (rule inj_onI)
    fix i j assume ij: "i \<in> {2..<?size - 1}" "j \<in> {2..<?size - 1}" and h: "?h i = ?h j"
    then have "(of_nat i :: u32) = of_nat j" by (simp add: net_host_def)
    moreover have "unat (of_nat i :: u32) = i" "unat (of_nat j :: u32) = j"
      using ij pow32_le[of "net_prefix subnet"] by (auto intro!: u32_of_nat)
    ultimately show "i = j" by metis
  qed
  then show "card {ip. usable_ip subnet ip} = ?size - 3"
    by (simp only: eq card_image) simp
  show "finite {ip. usable_ip subnet ip}" by (simp only: eq) simp
qed

subsection \<open>Preservation of the invariant\<close>

lemma project_subnet_wf:
  "plan_ok n q \<Longrightarrow> project_wf n q pid p \<Longrightarrow> net_wf (net_subnet n (ps_subnet_index p) q)"
  by (auto simp: project_wf_def Let_def intro: plan_subnet_wf)

lemma project_wf_subnet_prefix: "plan_ok n q \<Longrightarrow> net_prefix (net_subnet n i q) \<le> 30"
  by (simp add: plan_ok_def)

lemma add_vm_wf:
  assumes "plan_ok n q" "project_wf n q pid p" "\<not> owns_vm p v"
    and ip: "lowest_free_ip (net_subnet n (ps_subnet_index p) q) (ps_vms p) = Some ip"
  shows "project_wf n q pid (p\<lparr>ps_vms := AList.update ip v (ps_vms p)\<rparr>)"
proof -
  have "usable_ip (net_subnet n (ps_subnet_index p) q) ip \<and> map_of (ps_vms p) ip = None"
    using assms by (intro lowest_free_ip_usable project_subnet_wf project_wf_subnet_prefix)
  then show ?thesis using assms
    by (simp add: project_wf_def Let_def update_fresh amap_none owns_vm_iff)
qed

lemma alloc_existing:
  assumes "map_of (projects s) pid = Some p" "\<not> owns_vm p v"
    "lowest_free_ip (net_subnet n (ps_subnet_index p) q) (ps_vms p) = Some ip"
  shows "alloc s pid v tap n q =
    (s\<lparr>projects := AList.map_entry pid (\<lambda>p. p\<lparr>ps_vms := AList.update ip v (ps_vms p)\<rparr>) (projects s)\<rparr>,
     Inr \<lparr>ap_bridge = ps_bridge p, ap_setup = None,
          ap_vm_net = vm_net_new tap ip (ps_gateway p) (net_subnet n (ps_subnet_index p) q)\<rparr>)"
  using assms by (simp add: alloc_def Let_def)

text \<open>The state of a project that has just been created, and its first free subnet.\<close>

definition first_project :: "ipv4net \<Rightarrow> nat \<Rightarrow> project_id \<Rightarrow> u32 \<Rightarrow> vm_id \<Rightarrow> project_state" where
  "first_project n q pid i v =
     \<lparr>ps_subnet_index = i, ps_bridge = BRIDGE_PREFIX @ dec pid,
      ps_gateway = net_host (net_subnet n i q) 1, ps_vms = [(net_host (net_subnet n i q) 2, v)]\<rparr>"

abbreviation free_subnet :: "ipv4net \<Rightarrow> nat \<Rightarrow> net_state \<Rightarrow> nat option" where
  "free_subnet n q s \<equiv> first_from 0 (unat (net_subnet_count n q))
     (\<lambda>i. of_nat i \<notin> set (map (\<lambda>(_, p). ps_subnet_index p) (projects s)))"

lemma alloc_new:
  assumes "map_of (projects s) pid = None" "free_subnet n q s = Some i"
    "length (BRIDGE_PREFIX @ dec pid) \<le> IFNAMSIZ_MAX"
  shows "alloc s pid v tap n q =
    (s\<lparr>projects := projects s @ [(pid, first_project n q pid (of_nat i) v)]\<rparr>,
     Inr \<lparr>ap_bridge = BRIDGE_PREFIX @ dec pid,
          ap_setup = Some \<lparr>su_bridge = BRIDGE_PREFIX @ dec pid,
            su_gateway = net_host (net_subnet n (of_nat i) q) 1,
            su_subnet = net_subnet n (of_nat i) q, su_supernet = n\<rparr>,
          ap_vm_net = vm_net_new tap (net_host (net_subnet n (of_nat i) q) 2)
            (net_host (net_subnet n (of_nat i) q) 1) (net_subnet n (of_nat i) q)\<rparr>)"
proof -
  have "AList.update pid x (projects s) = projects s @ [(pid, x)]" for x
    by (intro update_fresh) (simp only: assms(1) flip: amap_none)
  with assms show ?thesis
    unfolding alloc_def Let_def first_project_def by (simp del: map_of_eq_None_iff)
qed

lemma alloc_cases:
  obtains (none) "fst (alloc s pid v tap n q) = s" "\<exists>e. snd (alloc s pid v tap n q) = Inl e"
  | (existing) p ip where "map_of (projects s) pid = Some p" "\<not> owns_vm p v"
      "lowest_free_ip (net_subnet n (ps_subnet_index p) q) (ps_vms p) = Some ip"
  | (new) i where "map_of (projects s) pid = None" "free_subnet n q s = Some i"
      "length (BRIDGE_PREFIX @ dec pid) \<le> IFNAMSIZ_MAX"
proof (cases "map_of (projects s) pid")
  case (Some p)
  with that(1,2) show ?thesis
    by (cases "owns_vm p v"; cases "lowest_free_ip (net_subnet n (ps_subnet_index p) q) (ps_vms p)")
      (auto simp: alloc_def Let_def)
next
  case None
  show ?thesis
  proof (cases "free_subnet n q s = None \<or> IFNAMSIZ_MAX < length (BRIDGE_PREFIX @ dec pid)")
    case True
    with None that(1) show ?thesis
      by (auto simp: alloc_def Let_def simp del: map_of_eq_None_iff split: option.splits)
  next
    case False
    with None that(3) show ?thesis by auto
  qed
qed

lemma free_subnet_ok:
  assumes "plan_ok n q" "free_subnet n q s = Some i"
  shows "index_ok n q (of_nat i)" "of_nat i \<notin> set (map (\<lambda>(_, p). ps_subnet_index p) (projects s))"
proof -
  have "unat (net_subnet_count n q) = 2 ^ (q - net_prefix n)"
    using assms(1) by (intro net_subnet_count_unat) (auto simp: plan_ok_def)
  with first_from_Some[OF assms(2)] have "i < 2 ^ (q - net_prefix n)" by simp
  moreover have "(2::nat) ^ (q - net_prefix n) \<le> 2 ^ 32"
    using assms(1) by (intro power_increasing) (auto simp: plan_ok_def)
  ultimately show "index_ok n q (of_nat i)" by (simp add: index_ok_def u32_of_nat)
  show "of_nat i \<notin> set (map (\<lambda>(_, p). ps_subnet_index p) (projects s))"
    using first_from_Some[OF assms(2)] by blast
qed

lemma first_project_wf:
  assumes "plan_ok n q" "index_ok n q i" "length (BRIDGE_PREFIX @ dec pid) \<le> IFNAMSIZ_MAX"
  shows "project_wf n q pid (first_project n q pid i v)"
proof -
  let ?sub = "net_subnet n i q"
  have "(2::nat) ^ 2 \<le> 2 ^ (32 - q)"
    using assms(1) by (intro power_increasing) (auto simp: plan_ok_def)
  then have "usable_ip ?sub (net_host ?sub (of_nat 2))"
    by (intro host_usable plan_subnet_wf[OF assms(1,2)]) simp_all
  with assms(2,3) show ?thesis
    by (simp add: project_wf_def Let_def first_project_def del: length_append)
qed

lemma alloc_wf [inv_intros]:
  assumes plan: "plan_ok n q" and wf: "ipam_wf n q s"
  shows "ipam_wf n q (fst (alloc s pid v tap n q))"
proof (cases rule: alloc_cases[of s pid v tap n q])
  case none
  with wf show ?thesis by simp
next
  case (existing p ip)
  have "project_wf n q pid p"
    using wf map_of_SomeD[OF existing(1)] by (auto simp: ipam_wf_def list_all_iff)
  from add_vm_wf[OF plan this existing(2,3)] wf existing(1) show ?thesis
    by (simp add: alloc_existing[OF existing] ipam_wf_def map_entry_proj list_all_map_entry)
next
  case (new i)
  note ok = free_subnet_ok[OF plan new(2)]
  have "ps_subnet_index (first_project n q pid (of_nat i) v) = of_nat i" by (simp add: first_project_def)
  with wf ok(2) new(1) first_project_wf[OF plan ok(1) new(3), of v] show ?thesis
    by (simp add: alloc_new[OF new] ipam_wf_def amap_none)
qed

lemma rollback_alloc_alt:
  "rollback_alloc s pid v =
     (case map_of (projects s) pid of
        None \<Rightarrow> s
      | Some p \<Rightarrow>
          if ps_vms (remove_vm v p) = [] then s\<lparr>projects := AList.delete pid (projects s)\<rparr>
          else s\<lparr>projects := AList.map_entry pid (remove_vm v) (projects s)\<rparr>)"
  by (simp add: rollback_alloc_def Let_def delete_map_entry split: option.split)

lemma rollback_alloc_wf [inv_intros]:
  assumes "ipam_wf n q s"
  shows "ipam_wf n q (rollback_alloc s pid v)"
proof (cases "map_of (projects s) pid")
  case (Some p)
  then have "project_wf n q pid p"
    using assms map_of_SomeD[OF Some] by (auto simp: ipam_wf_def list_all_iff)
  with Some assms show ?thesis
    by (simp add: rollback_alloc_alt ipam_wf_def distinct_delete distinct_map_delete list_all_delete
        map_entry_proj list_all_map_entry remove_vm_wf)
qed (simp add: rollback_alloc_alt assms)

lemma find_owner_Some:
  "find_owner v ps = Some (pid, p) \<Longrightarrow> (pid, p) \<in> set ps \<and> owns_vm p v"
  by (auto simp: find_owner_def find_Some_iff) (metis nth_mem)

lemma find_owner_None: "find_owner v ps = None \<longleftrightarrow> (\<forall>(pid, p) \<in> set ps. \<not> owns_vm p v)"
  by (force simp: find_owner_def find_None_iff)

text \<open>\<open>release\<close> is \<open>rollback_alloc\<close> on the project it finds.\<close>

lemma release_state:
  assumes "distinct (map fst (projects s))"
  shows "fst (release s v n q) =
    (case find_owner v (projects s) of None \<Rightarrow> s | Some (pid, _) \<Rightarrow> rollback_alloc s pid v)"
proof (cases "find_owner v (projects s)")
  case (Some x)
  obtain pid p where x: "x = (pid, p)" by (cases x)
  with Some assms have "map_of (projects s) pid = Some p"
    by (auto dest: find_owner_Some)
  with Some x show ?thesis by (simp add: release_def rollback_alloc_def Let_def)
qed (simp add: release_def)

lemma release_wf [inv_intros]:
  assumes "ipam_wf n q s"
  shows "ipam_wf n q (fst (release s v n q))"
proof -
  have "distinct (map fst (projects s))" using assms by (simp add: ipam_wf_def)
  then show ?thesis
    by (simp add: release_state assms rollback_alloc_wf split: option.split)
qed

lemma ipam_step_wf [inv_intros]:
  "plan_ok n q \<Longrightarrow> ipam_wf n q s \<Longrightarrow> ipam_wf n q (ipam_step n q s op)"
  by (cases op) (auto intro: inv_intros)

lemma ipam_default_wf [inv_intros]: "ipam_wf n q net_state_default"
  by (simp add: ipam_wf_def net_state_default_def)

lemma ipam_run_wf:
  "plan_ok n q \<Longrightarrow> ipam_wf n q s \<Longrightarrow> ipam_wf n q (foldl (ipam_step n q) s ops)"
  by (induction ops arbitrary: s) (auto intro: inv_intros)

section \<open>Properties\<close>

abbreviation ipam_run :: "ipv4net \<Rightarrow> nat \<Rightarrow> ipam_op list \<Rightarrow> net_state" where
  "ipam_run n q ops \<equiv> foldl (ipam_step n q) net_state_default ops"

definition guest_ips :: "net_state \<Rightarrow> u32 list" where
  "guest_ips s = concat (map (\<lambda>(_, p). map fst (ps_vms p)) (projects s))"

definition gateways :: "net_state \<Rightarrow> u32 list" where
  "gateways s = map (\<lambda>(_, p). ps_gateway p) (projects s)"

lemma ipam_run_default_wf: "plan_ok n q \<Longrightarrow> ipam_wf n q (ipam_run n q ops)"
  by (intro ipam_run_wf ipam_default_wf)

lemma project_ips:
  assumes "plan_ok n q" "project_wf n q pid p" "ip \<in> set (map fst (ps_vms p))"
  obtains i where "ip = net_host (net_subnet n (ps_subnet_index p) q) (of_nat i)"
    "offset_ok q (of_nat i)" "2 \<le> i" "unat (of_nat i :: u32) = i"
proof -
  have u: "usable_ip (net_subnet n (ps_subnet_index p) q) ip"
    using assms by (auto simp: project_wf_def Let_def list_all_iff)
  obtain i where i: "2 \<le> i" "i + 1 < 2 ^ (32 - q)" "unat (of_nat i :: u32) = i"
    "ip = net_host (net_subnet n (ps_subnet_index p) q) (of_nat i)"
    by (rule usable_is_host[OF project_subnet_wf[OF assms(1,2)] u]) simp
  then have "offset_ok q (of_nat i)" by (simp add: offset_ok_def)
  with i that show ?thesis by blast
qed

text \<open>Two addresses of the plan, in the terms of the address-plan interface.\<close>

lemma project_hosts_apart:
  assumes "plan_ok n q" "project_wf n q pid p" "project_wf n q pid' p'"
    "offset_ok q a" "offset_ok q b"
    "net_host (net_subnet n (ps_subnet_index p) q) a = net_host (net_subnet n (ps_subnet_index p') q) b"
  shows "ps_subnet_index p = ps_subnet_index p' \<and> a = b"
  using assms ip.host_eq[of n q "ps_subnet_index p" "ps_subnet_index p'" a b]
  by (auto simp: project_wf_def Let_def)

lemma offset_one: "plan_ok n q \<Longrightarrow> offset_ok q 1"
  using one_less_power[of "2::nat" "32 - q"] by (simp add: offset_ok_def plan_ok_def)

lemma ipam_ips_distinct:
  assumes plan: "plan_ok n q" and wf: "ipam_wf n q s"
  shows "distinct (guest_ips s)" "set (guest_ips s) \<inter> set (gateways s) = {}" "distinct (gateways s)"
proof -
  have pw: "project_wf n q pid p" if "(pid, p) \<in> set (projects s)" for pid p
    using wf that by (auto simp: ipam_wf_def list_all_iff)
  have idx: "distinct (map (\<lambda>(_, p). ps_subnet_index p) (projects s))"
    using wf by (simp add: ipam_wf_def)
  have same: "ps_subnet_index p = ps_subnet_index p'"
    if at: "(pid, p) \<in> set (projects s)" "(pid', p') \<in> set (projects s)"
      "ip \<in> set (map fst (ps_vms p))" "ip \<in> set (map fst (ps_vms p'))" for pid p pid' p' ip
  proof -
    obtain i where i: "ip = net_host (net_subnet n (ps_subnet_index p) q) (of_nat i)" "offset_ok q (of_nat i)"
      using project_ips[OF plan pw[OF at(1)] at(3)] .
    obtain j where j: "ip = net_host (net_subnet n (ps_subnet_index p') q) (of_nat j)" "offset_ok q (of_nat j)"
      using project_ips[OF plan pw[OF at(2)] at(4)] .
    from project_hosts_apart[OF plan pw[OF at(1)] pw[OF at(2)] i(2) j(2)] i(1) j(1)
    show ?thesis by simp
  qed
  show "distinct (guest_ips s)"
    unfolding guest_ips_def
  proof (rule distinct_concat_map[OF idx])
    show "distinct (case x of (_, p) \<Rightarrow> map fst (ps_vms p))" if "x \<in> set (projects s)" for x
      using pw[of "fst x" "snd x"] that by (auto simp: project_wf_def Let_def split: prod.split)
    show "(case x of (_, p) \<Rightarrow> ps_subnet_index p) = (case y of (_, p) \<Rightarrow> ps_subnet_index p)"
      if "x \<in> set (projects s)" "y \<in> set (projects s)"
        "ip \<in> set (case x of (_, p) \<Rightarrow> map fst (ps_vms p))"
        "ip \<in> set (case y of (_, p) \<Rightarrow> map fst (ps_vms p))" for x y ip
      using that same[of "fst x" "snd x" "fst y" "snd y" ip] by (force split: prod.splits)
  qed
  have gw: "ps_gateway p = net_host (net_subnet n (ps_subnet_index p) q) 1"
    if "(pid, p) \<in> set (projects s)" for pid p
    using pw[OF that] by (simp add: project_wf_def Let_def)
  have "ip \<noteq> ps_gateway p'" if at: "(pid, p) \<in> set (projects s)" "(pid', p') \<in> set (projects s)"
      "ip \<in> set (map fst (ps_vms p))" for pid p pid' p' ip
  proof
    assume eq: "ip = ps_gateway p'"
    obtain i where i: "ip = net_host (net_subnet n (ps_subnet_index p) q) (of_nat i)"
      "offset_ok q (of_nat i)" "2 \<le> i" "unat (of_nat i :: u32) = i"
      using project_ips[OF plan pw[OF at(1)] at(3)] .
    have "net_host (net_subnet n (ps_subnet_index p) q) (of_nat i) =
        net_host (net_subnet n (ps_subnet_index p') q) 1"
      using i(1) gw[OF at(2)] eq by metis
    from project_hosts_apart[OF plan pw[OF at(1)] pw[OF at(2)] i(2) offset_one[OF plan] this]
    have "(of_nat i :: u32) = 1" by blast
    with i(3,4) show False by simp
  qed
  then show "set (guest_ips s) \<inter> set (gateways s) = {}"
    by (fastforce simp: guest_ips_def gateways_def)
  show "distinct (gateways s)"
    unfolding gateways_def distinct_map
  proof (intro conjI inj_onI)
    show "distinct (projects s)" using wf by (auto simp: ipam_wf_def distinct_map)
    fix x y assume xy: "x \<in> set (projects s)" "y \<in> set (projects s)"
      and eq: "(case x of (_, p) \<Rightarrow> ps_gateway p) = (case y of (_, p) \<Rightarrow> ps_gateway p)"
    have x: "(fst x, snd x) \<in> set (projects s)" and y: "(fst y, snd y) \<in> set (projects s)"
      using xy by simp_all
    have "net_host (net_subnet n (ps_subnet_index (snd x)) q) 1 =
        net_host (net_subnet n (ps_subnet_index (snd y)) q) 1"
      using gw[OF x] gw[OF y] eq by (simp add: case_prod_beta)
    then have "ps_subnet_index (snd x) = ps_subnet_index (snd y)"
      using project_hosts_apart[OF plan pw[OF x] pw[OF y] offset_one[OF plan] offset_one[OF plan]]
      by blast
    then have "(case x of (_, p) \<Rightarrow> ps_subnet_index p) = (case y of (_, p) \<Rightarrow> ps_subnet_index p)"
      by (simp add: case_prod_beta)
    with idx xy show "x = y" unfolding distinct_map inj_on_def by blast
  qed
qed

text \<open>Whatever the manager asks of the allocator, in any order, no guest address is ever
  given to two VMs, in one project or in two, no guest gets a gateway's address, and no two
  projects share a gateway.\<close>

theorem guest_addresses_unique:
  assumes "plan_ok supernet prefix"
  shows "distinct (guest_ips (ipam_run supernet prefix ops)) \<and>
    set (guest_ips (ipam_run supernet prefix ops)) \<inter> set (gateways (ipam_run supernet prefix ops)) = {} \<and>
    distinct (gateways (ipam_run supernet prefix ops))"
  using ipam_ips_distinct[OF assms ipam_run_default_wf[OF assms]] by blast

lemma rollback_restores_project:
  "\<not> owns_vm p v \<Longrightarrow> remove_vm v (p\<lparr>ps_vms := ps_vms p @ [(ip, v)]\<rparr>) = p"
  by (cases p) (force simp: remove_vm_def owns_vm_iff filter_id_conv)

lemma alloc_rollback_aux:
  assumes "plan_ok n q" "ipam_wf n q s"
  shows "case alloc s pid v tap n q of
      (s', Inl _) \<Rightarrow> s' = s
    | (s', Inr _) \<Rightarrow> rollback_alloc s' pid v = s"
proof (cases rule: alloc_cases[of s pid v tap n q])
  case none
  then show ?thesis by (auto split: prod.split)
next
  case (existing p ip)
  have pw: "project_wf n q pid p"
    using assms(2) map_of_SomeD[OF existing(1)] by (auto simp: ipam_wf_def list_all_iff)
  have "usable_ip (net_subnet n (ps_subnet_index p) q) ip \<and> map_of (ps_vms p) ip = None"
    using assms pw existing by (intro lowest_free_ip_usable project_subnet_wf project_wf_subnet_prefix)
  then have up: "AList.update ip v (ps_vms p) = ps_vms p @ [(ip, v)]"
    by (simp add: update_fresh amap_none)
  note undone = rollback_restores_project[OF existing(2), of ip]
  have "AList.map_entry pid (\<lambda>p. remove_vm v (p\<lparr>ps_vms := AList.update ip v (ps_vms p)\<rparr>)) (projects s)
      = projects s"
    using existing(1) by (rule map_entry_id) (simp add: up undone)
  with existing(1) pw undone show ?thesis
    by (simp add: alloc_existing[OF existing] rollback_alloc_alt amap_map_entry up
        map_entry_map_entry project_wf_def Let_def)
next
  case (new i)
  have "map_of (projects s @ [(pid, x)]) pid = Some x" for x
    using new(1) by (simp add: map_add_def del: map_of_eq_None_iff)
  moreover have "pid \<notin> set (map fst (projects s))" using new(1) by (simp only: amap_none) simp
  ultimately show ?thesis
    by (simp add: alloc_new[OF new] rollback_alloc_alt first_project_def remove_vm_def
        delete_append delete_fresh del: map_of_append)
qed

text \<open>C14: A failed allocation leaves the state alone, and rolling back a successful one restores
  exactly the state before it, project creation included.\<close>

theorem alloc_rollback:
  assumes "plan_ok n q"
  shows "case alloc (ipam_run n q ops) pid v tap n q of
      (s', Inl _) \<Rightarrow> s' = ipam_run n q ops
    | (s', Inr _) \<Rightarrow> rollback_alloc s' pid v = ipam_run n q ops"
  by (rule alloc_rollback_aux[OF assms ipam_run_default_wf[OF assms]])

lemma find_owner_unique:
  assumes "distinct (map fst ps)" "map_of ps pid = Some p" "owns_vm p v"
    "\<And>pid' p'. (pid', p') \<in> set ps \<Longrightarrow> owns_vm p' v \<Longrightarrow> pid' = pid"
  shows "find_owner v ps = Some (pid, p)"
proof (cases "find_owner v ps")
  case None
  then show ?thesis using assms(2,3) map_of_SomeD by (fastforce simp: find_owner_None)
next
  case (Some x)
  obtain pid' p' where x: "x = (pid', p')" by (cases x)
  with find_owner_Some[of v ps pid' p'] Some have "(pid', p') \<in> set ps" "owns_vm p' v" by auto
  with assms(4)[of pid' p'] have "(pid, p') \<in> set ps" "pid' = pid" by auto
  with assms(1,2) Some x show ?thesis by (auto dest: map_of_is_SomeI)
qed

lemma alloc_owner:
  assumes "plan_ok n q" "ipam_wf n q s" "find_owner v (projects s) = None"
    "alloc s pid v tap n q = (s', Inr plan)"
  obtains p where "find_owner v (projects s') = Some (pid, p)" "map_of (projects s') pid = Some p"
    "ps_bridge p = ap_bridge plan" "distinct (map fst (projects s'))"
    "ap_setup plan = (if ps_vms (remove_vm v p) = [] then
       Some \<lparr>su_bridge = ps_bridge p, su_gateway = ps_gateway p,
             su_subnet = net_subnet n (ps_subnet_index p) q, su_supernet = n\<rparr> else None)"
proof -
  have wf': "ipam_wf n q s'" using alloc_wf[OF assms(1,2), of pid v tap] assms(4) by simp
  then have d: "distinct (map fst (projects s'))" by (simp add: ipam_wf_def)
  show thesis
  proof (cases rule: alloc_cases[of s pid v tap n q])
    case none
    with assms(4) show ?thesis by simp
  next
    case (existing p ip)
    have pw: "project_wf n q pid p"
      using assms(2) map_of_SomeD[OF existing(1)] by (auto simp: ipam_wf_def list_all_iff)
    have "usable_ip (net_subnet n (ps_subnet_index p) q) ip \<and> map_of (ps_vms p) ip = None"
      using assms pw existing by (intro lowest_free_ip_usable project_subnet_wf project_wf_subnet_prefix)
    then have up: "AList.update ip v (ps_vms p) = ps_vms p @ [(ip, v)]"
      by (simp add: update_fresh amap_none)
    define p' where "p' = p\<lparr>ps_vms := ps_vms p @ [(ip, v)]\<rparr>"
    have s': "projects s' = AList.map_entry pid (\<lambda>p. p\<lparr>ps_vms := AList.update ip v (ps_vms p)\<rparr>) (projects s)"
      and plan: "ap_setup plan = None" "ap_bridge plan = ps_bridge p"
      using assms(4) by (auto simp: alloc_existing[OF existing])
    have at: "map_of (projects s') pid = Some p'"
      using existing(1) by (simp add: s' amap_map_entry up p'_def)
    have owner: "find_owner v (projects s') = Some (pid, p')"
    proof (rule find_owner_unique[OF d at])
      show "owns_vm p' v" by (simp add: owns_vm_iff p'_def)
      fix pid2 p2 assume "(pid2, p2) \<in> set (projects s')" "owns_vm p2 v"
      with assms(3) show "pid2 = pid"
        using assms(2) by (fastforce simp: s' map_entry_map ipam_wf_def find_owner_None split: if_splits)
    qed
    have "remove_vm v p' = p" using rollback_restores_project[OF existing(2)] by (simp add: p'_def)
    with that[OF owner at _ d] pw plan show ?thesis by (simp add: p'_def project_wf_def Let_def)
  next
    case (new i)
    let ?p = "first_project n q pid (of_nat i) v"
    have s': "projects s' = projects s @ [(pid, ?p)]"
      using assms(4) by (auto simp: alloc_new[OF new])
    have at: "map_of (projects s') pid = Some ?p"
      using new(1) by (simp add: s' map_add_def del: map_of_eq_None_iff)
    have owner: "find_owner v (projects s') = Some (pid, ?p)"
    proof (rule find_owner_unique[OF d at])
      show "owns_vm ?p v" by (simp add: owns_vm_iff first_project_def)
      fix pid2 p2 assume "(pid2, p2) \<in> set (projects s')" "owns_vm p2 v"
      with assms(3) show "pid2 = pid" by (auto simp: s' find_owner_None)
    qed
    from assms(4) show ?thesis
      by (intro that[OF owner at _ d]) (auto simp: alloc_new[OF new] first_project_def remove_vm_def)
  qed
qed

text \<open>\<open>release\<close> undoes \<open>alloc\<close>: when no project owned the VM before, releasing it right after a
  successful allocation restores the state, removes the VM's TAP, and asks for the teardown of
  exactly the bridge, gateway and subnet the allocation asked to set up.\<close>

theorem alloc_release:
  assumes "plan_ok n q" "ipam_wf n q s" "find_owner v (projects s) = None"
    "alloc s pid v tap n q = (s', Inr plan)"
  shows "release s' v n q = (s, Some \<lparr>rp_tap = tap_for_vm v, rp_teardown = ap_setup plan\<rparr>)"
proof -
  obtain p where p: "find_owner v (projects s') = Some (pid, p)" "distinct (map fst (projects s'))"
    "ap_setup plan = (if ps_vms (remove_vm v p) = [] then
       Some \<lparr>su_bridge = ps_bridge p, su_gateway = ps_gateway p,
             su_subnet = net_subnet n (ps_subnet_index p) q, su_supernet = n\<rparr> else None)"
    by (rule alloc_owner[OF assms]) blast
  have "fst (release s' v n q) = s"
    using alloc_rollback_aux[OF assms(1,2), of pid v tap] assms(4) p(1) by (simp add: release_state[OF p(2)])
  moreover have "snd (release s' v n q) = Some \<lparr>rp_tap = tap_for_vm v, rp_teardown = ap_setup plan\<rparr>"
    by (simp add: release_def p Let_def)
  ultimately show ?thesis by (metis prod.collapse)
qed

lemma project_full:
  assumes "plan_ok n q" "project_wf n q pid p"
  shows "lowest_free_ip (net_subnet n (ps_subnet_index p) q) (ps_vms p) = None
    \<longleftrightarrow> \<not> length (ps_vms p) < 2 ^ (32 - q) - 3"
proof -
  let ?sub = "net_subnet n (ps_subnet_index p) q" and ?keys = "set (map fst (ps_vms p))"
  note subnet = project_subnet_wf[OF assms] project_wf_subnet_prefix[OF assms(1), of "ps_subnet_index p"]
  have sub: "?keys \<subseteq> {ip. usable_ip ?sub ip}" and d: "distinct (map fst (ps_vms p))"
    using assms(2) by (auto simp: project_wf_def Let_def list_all_iff)
  have card: "card ?keys = length (ps_vms p)" using distinct_card[OF d] by simp
  have cu: "card {ip. usable_ip ?sub ip} = 2 ^ (32 - q) - 3" "finite {ip. usable_ip ?sub ip}"
    using card_usable[OF subnet] by simp_all
  show ?thesis
  proof
    assume "lowest_free_ip ?sub (ps_vms p) = None"
    from lowest_free_ip_None[OF subnet(1) this] have "{ip. usable_ip ?sub ip} \<subseteq> ?keys"
      by (auto simp: amap_none)
    with card_mono[of ?keys "{ip. usable_ip ?sub ip}"] card cu(1)
    show "\<not> length (ps_vms p) < 2 ^ (32 - q) - 3" by simp
  next
    assume "\<not> length (ps_vms p) < 2 ^ (32 - q) - 3"
    with card_seteq[OF cu(2) sub] card cu(1) have all: "?keys = {ip. usable_ip ?sub ip}" by simp
    show "lowest_free_ip ?sub (ps_vms p) = None"
    proof (rule ccontr)
      assume "lowest_free_ip ?sub (ps_vms p) \<noteq> None"
      then obtain ip where "lowest_free_ip ?sub (ps_vms p) = Some ip" by blast
      from lowest_free_ip_usable[OF subnet this] all show False by (auto simp: amap_none)
    qed
  qed
qed

lemma free_index_None:
  assumes "cnt \<le> 2 ^ 32"
  shows "first_from 0 cnt (\<lambda>i. (of_nat i :: u32) \<notin> U) = None \<longleftrightarrow> {0..<cnt} \<subseteq> unat ` U"
proof -
  have "i \<in> unat ` U \<longleftrightarrow> (of_nat i :: u32) \<in> U" if "i < cnt" for i
    using that assms u32_of_nat[of i] by (auto simp: image_iff intro!: bexI[of _ "of_nat i"])
  moreover have "first_from 0 cnt (\<lambda>i. (of_nat i :: u32) \<notin> U) = None \<longleftrightarrow> (\<forall>i < cnt. of_nat i \<in> U)"
    by (auto dest: first_from_NoneD intro!: first_from_None)
  ultimately show ?thesis by (simp add: subset_iff)
qed

lemma subnets_full:
  assumes "plan_ok n q" "ipam_wf n q s"
  shows "free_subnet n q s = None \<longleftrightarrow> \<not> length (projects s) < 2 ^ (q - net_prefix n)"
proof -
  let ?used = "map (\<lambda>(_, p). ps_subnet_index p) (projects s)" and ?cnt = "2 ^ (q - net_prefix n) :: nat"
  have cnt: "unat (net_subnet_count n q) = ?cnt"
    using assms(1) by (intro net_subnet_count_unat) (auto simp: plan_ok_def)
  have small: "?cnt \<le> 2 ^ 32" using assms(1) by (intro power_increasing) (auto simp: plan_ok_def)
  have d: "distinct ?used" using assms(2) by (simp add: ipam_wf_def)
  have sub: "unat ` set ?used \<subseteq> {0..<?cnt}"
    using assms(2) by (fastforce simp: ipam_wf_def list_all_iff project_wf_def Let_def index_ok_def)
  have inj: "inj_on unat (set ?used)" by (auto intro: inj_onI simp: word_unat_eq_iff)
  have card: "card (unat ` set ?used) = length (projects s)"
    using card_image[OF inj] distinct_card[OF d] by simp
  have "free_subnet n q s = None \<longleftrightarrow> {0..<?cnt} \<subseteq> unat ` set ?used"
    using free_index_None[OF small, of "set ?used"] by (simp only: cnt)
  also have "\<dots> \<longleftrightarrow> \<not> length (projects s) < ?cnt"
    using card_seteq[OF _ sub] card_mono[of "unat ` set ?used" "{0..<?cnt}"] card by auto
  finally show ?thesis .
qed

lemma bridge_fits: "length (BRIDGE_PREFIX @ dec pid) \<le> IFNAMSIZ_MAX \<longleftrightarrow> pid < 10 ^ 11"
  using dec_length[of 11 pid] by (simp add: BRIDGE_PREFIX_def IFNAMSIZ_MAX_def)

text \<open>An allocation succeeds exactly when there is room: for a project that exists, the VM has no
  address yet and one of the subnet's \<open>2^(32 - prefix) - 3\<close> guest addresses is free; for a new
  project, one of the supernet's subnets is free and the project's bridge name fits the kernel.\<close>

theorem alloc_succeeds_iff:
  assumes "plan_ok n q" and s: "s = ipam_run n q ops"
  shows "(\<exists>plan. snd (alloc s pid v tap n q) = Inr plan) \<longleftrightarrow>
    (case map_of (projects s) pid of
       Some p \<Rightarrow> \<not> owns_vm p v \<and> length (ps_vms p) < 2 ^ (32 - q) - 3
     | None \<Rightarrow> length (projects s) < 2 ^ (q - net_prefix n) \<and> pid < 10 ^ 11)"
proof -
  have wf: "ipam_wf n q s" using ipam_run_default_wf[OF assms(1)] s by simp
  show ?thesis
  proof (cases "map_of (projects s) pid")
    case (Some p)
    have pw: "project_wf n q pid p"
      using wf map_of_SomeD[OF Some] by (auto simp: ipam_wf_def list_all_iff)
    show ?thesis
      using Some project_full[OF assms(1) pw] by (auto simp: alloc_def Let_def split: option.splits)
  next
    case None
    then show ?thesis
      using subnets_full[OF assms(1) wf] bridge_fits[of pid]
      by (cases "free_subnet n q s")
        (auto simp: alloc_def Let_def simp del: map_of_eq_None_iff length_append)
  qed
qed

text \<open>The address a VM is given in a project that exists is the lowest free one: every usable
  address below it is taken.\<close>

theorem alloc_lowest_ip:
  assumes "plan_ok n q" "s = ipam_run n q ops" "map_of (projects s) pid = Some p"
    "snd (alloc s pid v tap n q) = Inr plan"
  shows "usable_ip (net_subnet n (ps_subnet_index p) q) (vn_guest_ip (ap_vm_net plan)) \<and>
    map_of (ps_vms p) (vn_guest_ip (ap_vm_net plan)) = None \<and>
    (\<forall>ip < vn_guest_ip (ap_vm_net plan).
       usable_ip (net_subnet n (ps_subnet_index p) q) ip \<longrightarrow> map_of (ps_vms p) ip \<noteq> None)"
proof -
  let ?sub = "net_subnet n (ps_subnet_index p) q"
  have wf: "ipam_wf n q s" using ipam_run_default_wf[OF assms(1)] assms(2) by simp
  have pw: "project_wf n q pid p"
    using wf map_of_SomeD[OF assms(3)] by (auto simp: ipam_wf_def list_all_iff)
  note subnet = project_subnet_wf[OF assms(1) pw] project_wf_subnet_prefix[OF assms(1), of "ps_subnet_index p"]
  from assms(3,4) obtain ip where ip: "lowest_free_ip ?sub (ps_vms p) = Some ip"
    and plan: "vn_guest_ip (ap_vm_net plan) = ip"
    by (auto simp: alloc_def Let_def vm_net_new_def split: if_splits option.splits)
  obtain i where i: "unat ip = unat (net_addr ?sub) + i"
    "\<And>j. 2 \<le> j \<Longrightarrow> j < i \<Longrightarrow> map_of (ps_vms p) (net_host ?sub (of_nat j)) \<noteq> None"
    by (rule lowest_free_ip_props[OF subnet ip]) blast
  have "map_of (ps_vms p) x \<noteq> None" if lt: "x < ip" and u: "usable_ip ?sub x" for x
  proof -
    obtain j where j: "2 \<le> j" "j + 1 < 2 ^ (32 - net_prefix ?sub)" "x = net_host ?sub (of_nat j)"
      "unat (of_nat j :: u32) = j"
      using usable_is_host[OF subnet(1) u] .
    then have "unat x = unat (net_addr ?sub) + j" by (simp add: net_host_unat[OF subnet(1)])
    with lt i(1) have "j < i" by (simp add: word_less_nat_alt)
    from i(2)[OF j(1) this] j(3) show ?thesis by simp
  qed
  with lowest_free_ip_usable[OF subnet ip] plan show ?thesis by blast
qed

section \<open>The properties on a concrete plan\<close>

text \<open>Supernet 10.0.0.0/24 with /29 subnets, project 7 and its first VM.\<close>

abbreviation demo_net :: ipv4net where
  "demo_net \<equiv> \<lparr>net_addr = 0x0A000000, net_prefix = 24\<rparr>"

abbreviation demo_subnet :: ipv4net where
  "demo_subnet \<equiv> \<lparr>net_addr = 0x0A000000, net_prefix = 29\<rparr>"

abbreviation demo_state :: net_state where
  "demo_state \<equiv> \<lparr>projects = [(7, \<lparr>ps_subnet_index = 0, ps_bridge = ''tbr-7'',
     ps_gateway = 0x0A000001, ps_vms = [(0x0A000002, ''vm-a'')]\<rparr>)]\<rparr>"

lemma demo_plan: "plan_ok demo_net 29"
  by (simp add: plan_ok_def net_wf_def)

lemma dec_seven: "dec 7 = ''7''"
  by code_simp

lemma demo_alloc: "alloc net_state_default 7 ''vm-a'' ''tap-7-a'' demo_net 29 =
  (demo_state, Inr \<lparr>ap_bridge = ''tbr-7'',
     ap_setup = Some \<lparr>su_bridge = ''tbr-7'', su_gateway = 0x0A000001, su_subnet = demo_subnet,
       su_supernet = demo_net\<rparr>,
     ap_vm_net = vm_net_new ''tap-7-a'' 0x0A000002 0x0A000001 demo_subnet\<rparr>)"
  by (simp add: alloc_def net_subnet_count_unat net_wf_def net_state_default_def IFNAMSIZ_MAX_def
      BRIDGE_PREFIX_def net_subnet_def net_host_def dec_seven Let_def)

lemma demo_alloc_second: "alloc demo_state 7 ''vm-b'' ''tap-7-b'' demo_net 29 =
  (demo_state\<lparr>projects := [(7, \<lparr>ps_subnet_index = 0, ps_bridge = ''tbr-7'',
     ps_gateway = 0x0A000001, ps_vms = [(0x0A000002, ''vm-a''), (0x0A000003, ''vm-b'')]\<rparr>)]\<rparr>,
   Inr \<lparr>ap_bridge = ''tbr-7'', ap_setup = None,
     ap_vm_net = vm_net_new ''tap-7-b'' 0x0A000003 0x0A000001 demo_subnet\<rparr>)"
  by (simp add: alloc_def owns_vm_def lowest_free_ip_def net_subnet_def net_last_unat net_wf_def
      net_host_def)

lemma demo_wf: "ipam_wf demo_net 29 net_state_default"
  by (rule ipam_default_wf)

lemma guest_addresses_unique_witness:
  "distinct (guest_ips (ipam_run demo_net 29 [Alloc 7 ''vm-a'' ''tap-7-a'', Alloc 7 ''vm-b'' ''tap-7-b'']))
   \<and> guest_ips (ipam_run demo_net 29 [Alloc 7 ''vm-a'' ''tap-7-a'', Alloc 7 ''vm-b'' ''tap-7-b''])
     = [0x0A000002, 0x0A000003]"
  using guest_addresses_unique[OF demo_plan] by (simp add: demo_alloc demo_alloc_second guest_ips_def)

lemma alloc_rollback_witness:
  "rollback_alloc demo_state 7 ''vm-a'' = net_state_default"
  using alloc_rollback[OF demo_plan, of "[]" 7 "''vm-a''" "''tap-7-a''"] by (simp add: demo_alloc)

lemma alloc_release_witness:
  "release demo_state ''vm-a'' demo_net 29 = (net_state_default, Some \<lparr>rp_tap = tap_for_vm ''vm-a'',
     rp_teardown = Some \<lparr>su_bridge = ''tbr-7'', su_gateway = 0x0A000001, su_subnet = demo_subnet,
       su_supernet = demo_net\<rparr>\<rparr>)"
  using alloc_release[OF demo_plan demo_wf _ demo_alloc]
  by (simp add: find_owner_def net_state_default_def)

lemma alloc_succeeds_iff_witness:
  "\<exists>plan. snd (alloc demo_state 7 ''vm-b'' ''tap-7-b'' demo_net 29) = Inr plan"
  by (subst alloc_succeeds_iff[OF demo_plan, of _ "[Alloc 7 ''vm-a'' ''tap-7-a'']"])
    (simp_all add: demo_alloc owns_vm_def)

lemma alloc_lowest_ip_witness:
  "usable_ip demo_subnet 0x0A000003 \<and>
   {ip. ip < 0x0A000003 \<and> usable_ip demo_subnet ip \<and> map_of [(0x0A000002, ''vm-a'')] ip = None} = {}"
proof -
  have s: "demo_state = ipam_run demo_net 29 [Alloc 7 ''vm-a'' ''tap-7-a'']" by (simp add: demo_alloc)
  have p: "map_of (projects demo_state) 7 = Some \<lparr>ps_subnet_index = 0, ps_bridge = ''tbr-7'',
     ps_gateway = 0x0A000001, ps_vms = [(0x0A000002, ''vm-a'')]\<rparr>" by simp
  from alloc_lowest_ip[OF demo_plan s p arg_cong[OF demo_alloc_second, of snd, unfolded snd_conv]]
  show ?thesis by (auto simp: vm_net_new_def net_subnet_def)
qed

end
