(* ===== verification/NetHost.thy ===== *)
theory NetHost
  imports Ipam
begin

text \<open>
  \<open>hostd/src/net/host.rs\<close>: the host-side effects.  The operating system is a parameter: a record
  of the calls the code makes (run a command, read, write and rename a file), each with the host
  state \<open>'h\<close> threaded through it.  Every operation below is the sequence of calls the code makes,
  with its early returns and its ignored results.
\<close>

record cmd_output =
  co_success :: bool
  co_stdout :: string
  co_stderr :: string

text \<open>A failed call is \<open>Inl\<close> of the text of its \<open>std::io::Error\<close>; a read also tells a missing file apart.\<close>

record 'h host_os =
  os_output :: "string \<Rightarrow> string list \<Rightarrow> 'h \<Rightarrow> 'h \<times> (string + cmd_output)"
  os_read :: "string \<Rightarrow> 'h \<Rightarrow> 'h \<times> (io_error + string)"
  os_write :: "string \<Rightarrow> string \<Rightarrow> 'h \<Rightarrow> 'h \<times> (string + unit)"
  os_rename :: "string \<Rightarrow> string \<Rightarrow> 'h \<Rightarrow> 'h \<times> (string + unit)"

section \<open>Host actions\<close>

text \<open>An action that may fail, \<open>?\<close> between two actions, and \<open>let _ =\<close>.\<close>

type_synonym ('h, 'a) action = "'h \<Rightarrow> 'h \<times> 'a result"

definition act_ok :: "'a \<Rightarrow> ('h, 'a) action" where
  "act_ok x = (\<lambda>h. (h, Inr x))"

definition act_then :: "('h, 'a) action \<Rightarrow> ('a \<Rightarrow> ('h, 'b) action) \<Rightarrow> ('h, 'b) action" where
  "act_then m k = (\<lambda>h. case m h of (h', Inl e) \<Rightarrow> (h', Inl e) | (h', Inr x) \<Rightarrow> k x h')"

fun act_each :: "('a \<Rightarrow> ('h, unit) action) \<Rightarrow> 'a list \<Rightarrow> ('h, unit) action" where
  "act_each f [] = act_ok ()"
| "act_each f (x # xs) = act_then (f x) (\<lambda>_. act_each f xs)"

definition act_quiet :: "('h, 'a) action \<Rightarrow> 'h \<Rightarrow> 'h" where
  "act_quiet m h = fst (m h)"

lemma act_ok_apply [simp]: "act_ok x h = (h, Inr x)"
  by (simp add: act_ok_def)

lemma act_then_apply:
  "act_then m k h = (case snd (m h) of Inl e \<Rightarrow> (fst (m h), Inl e) | Inr x \<Rightarrow> k x (fst (m h)))"
  by (auto simp: act_then_def split: prod.split sum.split)

section \<open>Commands\<close>

definition run_cmd :: "('h, 'm) host_os_scheme \<Rightarrow> string \<Rightarrow> string list \<Rightarrow> ('h, unit) action" where
  "run_cmd os cmd args = (\<lambda>h.
     case os_output os cmd args h of
       (h', Inl e) \<Rightarrow> (h', Inl (Net (''spawn '' @ cmd @ '': '' @ e)))
     | (h', Inr out) \<Rightarrow>
         if co_success out then (h', Inr ())
         else (h', Inl (Net (cmd @ '' '' @ join_with '' '' args @ '' failed: '' @ trim_str (co_stderr out)))))"

definition cmd_succeeds :: "('h, 'm) host_os_scheme \<Rightarrow> string \<Rightarrow> string list \<Rightarrow> 'h \<Rightarrow> 'h \<times> bool" where
  "cmd_succeeds os cmd args h =
     (case os_output os cmd args h of
        (h', Inl _) \<Rightarrow> (h', False)
      | (h', Inr out) \<Rightarrow> (h', co_success out))"

definition link_exists :: "('h, 'm) host_os_scheme \<Rightarrow> string \<Rightarrow> 'h \<Rightarrow> 'h \<times> bool" where
  "link_exists os name = cmd_succeeds os ''ip'' [''link'', ''show'', ''dev'', name]"

text \<open>\<open>stdout.lines()\<close> and \<open>split(": ")\<close>.\<close>

fun strip_cr :: "string \<Rightarrow> string" where
  "strip_cr s = (if s \<noteq> [] \<and> last s = char_of (13 :: nat) then butlast s else s)"

definition str_lines :: "string \<Rightarrow> string list" where
  "str_lines s =
     (let ls = split_char (char_of (10 :: nat)) s
      in map strip_cr (if last ls = [] then butlast ls else ls))"

fun split_colon :: "string \<Rightarrow> string list" where
  "split_colon [] = [[]]"
| "split_colon [c] = [[c]]"
| "split_colon (a # b # s) =
     (if a = CHR '':'' \<and> b = CHR '' '' then [] # split_colon s
      else (case split_colon (b # s) of w # ws \<Rightarrow> (a # w) # ws | [] \<Rightarrow> [[a]]))"

definition stray_names :: "string \<Rightarrow> string list" where
  "stray_names stdout =
     filter (starts_with BRIDGE_PREFIX)
       (map (\<lambda>name. hd (split_char CHR ''@'' name))
         (List.map_filter (\<lambda>line. let ws = split_colon line in if 1 < length ws then Some (ws ! 1) else None)
           (str_lines stdout)))"

definition stray_bridges :: "('h, 'm) host_os_scheme \<Rightarrow> ('h, string list) action" where
  "stray_bridges os = (\<lambda>h.
     case os_output os ''ip'' [''-o'', ''link'', ''show'', ''type'', ''bridge''] h of
       (h', Inl e) \<Rightarrow> (h', Inl (Net (''spawn ip: '' @ e)))
     | (h', Inr out) \<Rightarrow> (h', Inr (stray_names (co_stdout out))))"

section \<open>Rules\<close>

definition nat_rules :: "project_setup \<Rightarrow> string \<Rightarrow> string list list" where
  "nat_rules su verb =
     (let subnet = net_display (su_subnet su) in
      [[''-t'', ''nat'', verb, ''POSTROUTING'', ''-s'', subnet, ''!'', ''-o'', BRIDGE_PREFIX @ ''+'',
        ''-j'', ''MASQUERADE''],
       [verb, ''FORWARD'', ''-s'', subnet, ''-j'', ''ACCEPT''],
       [verb, ''FORWARD'', ''-d'', subnet, ''-m'', ''conntrack'', ''--ctstate'', ''RELATED,ESTABLISHED'',
        ''-j'', ''ACCEPT'']])"

definition legacy_masq_rules :: "project_setup \<Rightarrow> string list list" where
  "legacy_masq_rules su =
     (let subnet = net_display (su_subnet su) in
      [[''-t'', ''nat'', ''-D'', ''POSTROUTING'', ''-s'', subnet, ''-j'', ''MASQUERADE''],
       [''-t'', ''nat'', ''-D'', ''POSTROUTING'', ''-s'', subnet, ''!'', ''-d'',
        net_display (su_supernet su), ''-j'', ''MASQUERADE'']])"

definition iptables_ensure :: "('h, 'm) host_os_scheme \<Rightarrow> string list \<Rightarrow> ('h, unit) action" where
  "iptables_ensure os args = (\<lambda>h.
     let check = map (\<lambda>a. if a = ''-A'' then ''-C'' else a) args
     in case cmd_succeeds os ''iptables'' check h of
          (h', exists) \<Rightarrow> if \<not> exists then run_cmd os ''iptables'' args h' else (h', Inr ()))"

definition iptables_remove :: "('h, 'm) host_os_scheme \<Rightarrow> string list \<Rightarrow> 'h \<Rightarrow> 'h" where
  "iptables_remove os args h = fst (os_output os ''iptables'' args h)"

abbreviation IP_FORWARD :: string where
  "IP_FORWARD \<equiv> ''/proc/sys/net/ipv4/ip_forward''"

definition ensure_ip_forward :: "('h, 'm) host_os_scheme \<Rightarrow> ('h, unit) action" where
  "ensure_ip_forward os = (\<lambda>h.
     let (h', r) = os_read os IP_FORWARD h
     in case r of
          Inr s \<Rightarrow> if trim_str s = ''1'' then (h', Inr ()) else
                 (case os_write os IP_FORWARD ''1'' h' of
                    (h'', Inl e) \<Rightarrow> (h'', Inl (Io e)) | (h'', Inr _) \<Rightarrow> (h'', Inr ()))
        | Inl _ \<Rightarrow>
                 (case os_write os IP_FORWARD ''1'' h' of
                    (h'', Inl e) \<Rightarrow> (h'', Inl (Io e)) | (h'', Inr _) \<Rightarrow> (h'', Inr ())))"

section \<open>Bridges and TAP devices\<close>

definition ensure_link :: "('h, 'm) host_os_scheme \<Rightarrow> string \<Rightarrow> string list \<Rightarrow> ('h, unit) action" where
  "ensure_link os name add_args = (\<lambda>h.
     case link_exists os name h of
       (h', exists) \<Rightarrow> if \<not> exists then run_cmd os ''ip'' add_args h' else (h', Inr ()))"

definition ensure_bridge :: "('h, 'm) host_os_scheme \<Rightarrow> project_setup \<Rightarrow> ('h, unit) action" where
  "ensure_bridge os su =
     act_then (ensure_link os (su_bridge su) [''link'', ''add'', ''name'', su_bridge su, ''type'', ''bridge''])
       (\<lambda>_. act_then (run_cmd os ''ip'' [''addr'', ''replace'',
               ipv4_display (su_gateway su) @ ''/'' @ dec (net_prefix (su_subnet su)), ''dev'', su_bridge su])
       (\<lambda>_. act_then (run_cmd os ''ip'' [''link'', ''set'', su_bridge su, ''up''])
       (\<lambda>_. act_then (ensure_ip_forward os)
       (\<lambda>_ h. act_each (iptables_ensure os) (nat_rules su ''-A'')
                (fold (iptables_remove os) (legacy_masq_rules su) h)))))"

definition delete_bridge :: "('h, 'm) host_os_scheme \<Rightarrow> project_setup \<Rightarrow> ('h, unit) action" where
  "delete_bridge os su = (\<lambda>h.
     let h1 = fold (iptables_remove os) (nat_rules su ''-D'') h;
         h2 = fold (iptables_remove os) (legacy_masq_rules su) h1
     in case link_exists os (su_bridge su) h2 of
          (h3, exists) \<Rightarrow>
            if exists
            then act_then (run_cmd os ''ip'' [''link'', ''set'', su_bridge su, ''down''])
                   (\<lambda>_. run_cmd os ''ip'' [''link'', ''del'', su_bridge su]) h3
            else (h3, Inr ()))"

definition ensure_tap :: "('h, 'm) host_os_scheme \<Rightarrow> tap_name \<Rightarrow> string \<Rightarrow> ('h, unit) action" where
  "ensure_tap os tap bridge =
     act_then (ensure_link os tap [''tuntap'', ''add'', ''dev'', tap, ''mode'', ''tap''])
       (\<lambda>_. run_cmd os ''ip'' [''link'', ''set'', tap, ''master'', bridge, ''up''])"

definition delete_tap :: "('h, 'm) host_os_scheme \<Rightarrow> tap_name \<Rightarrow> ('h, unit) action" where
  "delete_tap os tap = (\<lambda>h.
     case link_exists os tap h of
       (h', exists) \<Rightarrow> if exists then run_cmd os ''ip'' [''link'', ''del'', tap] h' else (h', Inr ()))"

section \<open>What the rules amount to on a Linux host\<close>

text \<open>
  What the code relies on of \<open>iptables\<close> (its manual page): \<open>-C\<close> succeeds exactly when the rule is
  there and changes nothing, \<open>-A\<close> appends it, \<open>-D\<close> deletes the first copy of it; and no other call of
  this file changes the rules.  \<open>rules\<close> reads the rules of a host state, each under its \<open>-A\<close> form.
\<close>

definition rule_spec :: "string list \<Rightarrow> string list" where
  "rule_spec args = map (\<lambda>a. if a = ''-C'' \<or> a = ''-D'' then ''-A'' else a) args"

definition verbs :: "string list \<Rightarrow> string list" where
  "verbs args = filter (\<lambda>a. a = ''-A'' \<or> a = ''-C'' \<or> a = ''-D'') args"

definition iptables_host :: "('h, 'm) host_os_scheme \<Rightarrow> ('h \<Rightarrow> string list list) \<Rightarrow> bool" where
  "iptables_host os rules \<longleftrightarrow>
     (\<forall>h args. verbs args = [''-C''] \<longrightarrow>
        (\<exists>h' out. os_output os ''iptables'' args h = (h', Inr out) \<and> rules h' = rules h \<and>
           co_success out = (rule_spec args \<in> set (rules h)))) \<and>
     (\<forall>h args. verbs args = [''-A''] \<longrightarrow>
        (\<exists>h' out. os_output os ''iptables'' args h = (h', Inr out) \<and> co_success out \<and>
           rules h' = rules h @ [rule_spec args])) \<and>
     (\<forall>h args. verbs args = [''-D''] \<longrightarrow>
        rules (fst (os_output os ''iptables'' args h)) = remove1 (rule_spec args) (rules h)) \<and>
     (\<forall>h cmd args. cmd \<noteq> ''iptables'' \<longrightarrow> rules (fst (os_output os cmd args h)) = rules h) \<and>
     (\<forall>h path. rules (fst (os_read os path h)) = rules h) \<and>
     (\<forall>h path s. rules (fst (os_write os path s h)) = rules h)"

lemma net_display_not_verb:
  "net_display n \<noteq> ''-A''" "net_display n \<noteq> ''-C''" "net_display n \<noteq> ''-D''"
  "net_display n \<noteq> CHR ''-'' # s"
proof -
  have "CHR ''/'' \<in> set (net_display n)" by (simp add: net_display_def)
  then show "net_display n \<noteq> ''-A''" "net_display n \<noteq> ''-C''" "net_display n \<noteq> ''-D''" by auto
  have "hd (net_display n) \<in> set (dec (unat (hd (be32 (net_addr n)))))"
    by (simp add: net_display_def ipv4_display_def be32_def Let_def)
  then have "is_digit (hd (net_display n))" by (rule dec_digits)
  then show "net_display n \<noteq> CHR ''-'' # s" by (auto simp: is_digit_def)
qed

lemma nat_rules_spec:
  "map rule_spec (nat_rules su ''-D'') = nat_rules su ''-A''"
  "map rule_spec (nat_rules su ''-A'') = nat_rules su ''-A''"
  "distinct (nat_rules su ''-A'')"
  by (simp_all add: nat_rules_def rule_spec_def net_display_not_verb BRIDGE_PREFIX_def Let_def)

lemma fold_remove_rules:
  assumes "iptables_host os rules" "\<And>r. r \<in> set rs \<Longrightarrow> verbs r = [''-D'']"
  shows "rules (fold (iptables_remove os) rs h) = fold remove1 (map rule_spec rs) (rules h)"
  using assms(2)
proof (induction rs arbitrary: h)
  case (Cons r rs)
  have "rules (iptables_remove os r h) = remove1 (rule_spec r) (rules h)"
    using assms(1) Cons.prems[of r] by (simp add: iptables_remove_def iptables_host_def)
  with Cons show ?case by simp
qed simp

lemma fold_remove1_absent: "set rs \<inter> set xs = {} \<Longrightarrow> fold remove1 rs xs = xs"
  by (induction rs) (auto simp: remove1_idem)

lemma fold_remove1_suffix: "set rs \<inter> set xs = {} \<Longrightarrow> distinct rs \<Longrightarrow> fold remove1 rs (xs @ rs) = xs"
proof (induction rs)
  case (Cons r rs)
  then show ?case by (simp add: remove1_append remove1_idem)
qed simp

lemma iptables_host_other:
  assumes "iptables_host os rules"
  shows "cmd \<noteq> ''iptables'' \<Longrightarrow> rules (fst (os_output os cmd args h)) = rules h"
    "rules (fst (os_read os path h)) = rules h" "rules (fst (os_write os path s h)) = rules h"
  using assms unfolding iptables_host_def by blast+

lemma run_cmd_state: "fst (run_cmd os cmd args h) = fst (os_output os cmd args h)"
  by (simp add: run_cmd_def split: prod.split sum.split)

lemma cmd_succeeds_state: "fst (cmd_succeeds os cmd args h) = fst (os_output os cmd args h)"
  by (simp add: cmd_succeeds_def split: prod.split sum.split)

lemma ip_not_iptables: "''ip'' \<noteq> ''iptables''"
  by simp

lemma run_cmd_rules [simp]:
  "iptables_host os rules \<Longrightarrow> cmd \<noteq> ''iptables'' \<Longrightarrow> rules (fst (run_cmd os cmd args h)) = rules h"
  by (simp add: run_cmd_state iptables_host_other)

lemma link_exists_rules [simp]:
  "iptables_host os rules \<Longrightarrow> rules (fst (link_exists os name h)) = rules h"
  by (simp add: link_exists_def cmd_succeeds_state iptables_host_other)

lemma ensure_link_rules [simp]:
  "iptables_host os rules \<Longrightarrow> rules (fst (ensure_link os name args h)) = rules h"
  using link_exists_rules[of os rules name h]
  by (cases "link_exists os name h") (simp add: ensure_link_def)

lemma ensure_ip_forward_cases:
  "fst (ensure_ip_forward os h) = fst (os_read os IP_FORWARD h) \<or>
   fst (ensure_ip_forward os h) = fst (os_write os IP_FORWARD ''1'' (fst (os_read os IP_FORWARD h)))"
  by (simp add: ensure_ip_forward_def split: prod.split sum.split)

lemma ensure_ip_forward_rules [simp]:
  "iptables_host os rules \<Longrightarrow> rules (fst (ensure_ip_forward os h)) = rules h"
  using ensure_ip_forward_cases[of os h] iptables_host_other(2,3)[of os rules] by metis

lemma iptables_host_check:
  assumes "iptables_host os rules" "verbs args = [''-C'']"
  obtains h' out where "os_output os ''iptables'' args h = (h', Inr out)" "rules h' = rules h"
    "co_success out = (rule_spec args \<in> set (rules h))"
  using assms(1)[unfolded iptables_host_def, THEN conjunct1, rule_format, OF assms(2)] that by blast

lemma iptables_host_append:
  assumes "iptables_host os rules" "verbs args = [''-A'']"
  obtains h' out where "os_output os ''iptables'' args h = (h', Inr out)" "co_success out"
    "rules h' = rules h @ [rule_spec args]"
  using assms(1)[unfolded iptables_host_def, THEN conjunct2, THEN conjunct1, rule_format, OF assms(2)] that
  by blast

lemma iptables_ensure_rules:
  assumes "iptables_host os rules" "verbs r = [''-A'']"
  shows "rules (fst (iptables_ensure os r h)) = (if r \<in> set (rules h) then rules h else rules h @ [r])"
    "snd (iptables_ensure os r h) = Inr ()"
proof -
  let ?check = "map (\<lambda>a. if a = ''-A'' then ''-C'' else a) r"
  have no: "''-C'' \<notin> set r" "''-D'' \<notin> set r"
    using assms(2) by (auto simp: verbs_def filter_eq_Cons_iff split: if_splits dest!: arg_cong[of _ _ set])
  then have spec: "rule_spec r = r" "rule_spec ?check = r"
    by (auto simp: rule_spec_def intro!: map_idI)
  have "verbs ?check = map (\<lambda>a. if a = ''-A'' then ''-C'' else a) (verbs r)"
    unfolding verbs_def by (induction r) simp_all
  then have "verbs ?check = [''-C'']" using assms(2) by simp
  then obtain h' out where c: "os_output os ''iptables'' ?check h = (h', Inr out)"
      "rules h' = rules h" "co_success out = (r \<in> set (rules h))"
    using iptables_host_check[OF assms(1), of ?check h] unfolding spec(2) by blast
  obtain h'' out' where a: "os_output os ''iptables'' r h' = (h'', Inr out')"
      "co_success out'" "rules h'' = rules h' @ [r]"
    using iptables_host_append[OF assms(1,2), of h'] unfolding spec(1) by blast
  have "cmd_succeeds os ''iptables'' ?check h = (h', r \<in> set (rules h))"
    using c by (simp add: cmd_succeeds_def)
  moreover have "run_cmd os ''iptables'' r h' = (h'', Inr ())"
    using a by (simp add: run_cmd_def)
  ultimately show "rules (fst (iptables_ensure os r h)) = (if r \<in> set (rules h) then rules h else rules h @ [r])"
    "snd (iptables_ensure os r h) = Inr ()"
    using c(2) a(3) unfolding iptables_ensure_def Let_def by simp_all
qed

lemma ensure_each_rules:
  assumes "iptables_host os rules" "\<And>r. r \<in> set rs \<Longrightarrow> verbs r = [''-A'']"
    "distinct rs" "set rs \<inter> set (rules h) = {} \<or> set rs \<subseteq> set (rules h)"
  shows "rules (fst (act_each (iptables_ensure os) rs h)) =
    (if set rs \<inter> set (rules h) = {} then rules h @ rs else rules h)"
  using assms(2-)
proof (induction rs arbitrary: h)
  case (Cons r rs)
  have r: "verbs r = [''-A'']" using Cons.prems(1)[of r] by simp
  let ?h = "fst (iptables_ensure os r h)"
  note step = iptables_ensure_rules[OF assms(1) r, of h]
  have "rules (fst (act_each (iptables_ensure os) rs ?h)) =
      (if set rs \<inter> set (rules ?h) = {} then rules ?h @ rs else rules ?h)"
    using Cons.prems by (intro Cons.IH) (auto simp: step(1))
  with Cons.prems step show ?case by (cases rs) (auto simp: act_then_apply)
qed simp

lemma act_then_Inr:
  "act_then m k h = (h', Inr y) \<longleftrightarrow> (\<exists>h1 x. m h = (h1, Inr x) \<and> k x h1 = (h', Inr y))"
  by (auto simp: act_then_def split: prod.split sum.split)

text \<open>A bridge that came up has its rules, once each.\<close>

lemma nat_rules_verbs:
  "r \<in> set (nat_rules su ''-A'') \<Longrightarrow> verbs r = [''-A'']"
  "r \<in> set (nat_rules su ''-D'') \<Longrightarrow> verbs r = [''-D'']"
  "r \<in> set (legacy_masq_rules su) \<Longrightarrow> verbs r = [''-D'']"
  by (auto simp: nat_rules_def legacy_masq_rules_def verbs_def Let_def BRIDGE_PREFIX_def net_display_not_verb)

abbreviation own_rules :: "project_setup \<Rightarrow> string list set" where
  "own_rules su \<equiv> set (nat_rules su ''-A'')"

abbreviation legacy_rules :: "project_setup \<Rightarrow> string list set" where
  "legacy_rules su \<equiv> set (map rule_spec (legacy_masq_rules su))"

lemma legacy_not_own: "legacy_rules su \<inter> own_rules su = {}"
  by (simp add: legacy_masq_rules_def nat_rules_def rule_spec_def Let_def net_display_not_verb BRIDGE_PREFIX_def)

lemma ensure_bridge_rules:
  assumes os: "iptables_host os rules" and ok: "ensure_bridge os su h = (h', Inr ())"
    and "legacy_rules su \<inter> set (rules h) = {}"
    and "own_rules su \<inter> set (rules h) = {} \<or> own_rules su \<subseteq> set (rules h)"
  shows "rules h' = (if own_rules su \<inter> set (rules h) = {} then rules h @ nat_rules su ''-A'' else rules h)"
proof -
  obtain h1 h2 h3 h4 where steps:
    "ensure_link os (su_bridge su) [''link'', ''add'', ''name'', su_bridge su, ''type'', ''bridge''] h = (h1, Inr ())"
    "run_cmd os ''ip'' [''addr'', ''replace'',
       ipv4_display (su_gateway su) @ ''/'' @ dec (net_prefix (su_subnet su)), ''dev'', su_bridge su] h1
      = (h2, Inr ())"
    "run_cmd os ''ip'' [''link'', ''set'', su_bridge su, ''up''] h2 = (h3, Inr ())"
    "ensure_ip_forward os h3 = (h4, Inr ())"
    and final: "act_each (iptables_ensure os) (nat_rules su ''-A'')
      (fold (iptables_remove os) (legacy_masq_rules su) h4) = (h', Inr ())"
    using ok unfolding ensure_bridge_def act_then_Inr by auto
  have "rules h1 = rules h" "rules h2 = rules h1" "rules h3 = rules h2" "rules h4 = rules h3"
    using arg_cong[OF steps(1), of "rules \<circ> fst"] arg_cong[OF steps(2), of "rules \<circ> fst"]
      arg_cong[OF steps(3), of "rules \<circ> fst"] arg_cong[OF steps(4), of "rules \<circ> fst"]
    by (simp_all add: os)
  then have "rules h4 = rules h" by simp
  then have "rules (fold (iptables_remove os) (legacy_masq_rules su) h4) = rules h"
    using fold_remove_rules[OF os, of "legacy_masq_rules su" h4] nat_rules_verbs(3)[of _ su]
      fold_remove1_absent[OF assms(3)] by simp
  moreover have "rules (fst (act_each (iptables_ensure os) (nat_rules su ''-A'') h5)) =
      (if own_rules su \<inter> set (rules h5) = {} then rules h5 @ nat_rules su ''-A'' else rules h5)"
    if "rules h5 = rules h" for h5
    using that assms(4)
    by (intro ensure_each_rules[OF os]) (simp_all add: nat_rules_verbs(1) nat_rules_spec(3))
  ultimately show ?thesis using final by (metis (no_types) fst_conv)
qed

lemma delete_bridge_rules:
  assumes os: "iptables_host os rules" and "rules h = rs @ nat_rules su ''-A''"
    and "legacy_rules su \<inter> set rs = {}" "own_rules su \<inter> set rs = {}"
  shows "rules (fst (delete_bridge os su h)) = rs"
proof -
  let ?h1 = "fold (iptables_remove os) (nat_rules su ''-D'') h"
  let ?h2 = "fold (iptables_remove os) (legacy_masq_rules su) ?h1"
  have "rules ?h1 = rs"
    using fold_remove_rules[OF os, of "nat_rules su ''-D''" h] nat_rules_verbs(2)[of _ su]
      fold_remove1_suffix[OF assms(4) nat_rules_spec(3)] by (simp add: nat_rules_spec(1) assms(2))
  then have "rules ?h2 = rs"
    using fold_remove_rules[OF os, of "legacy_masq_rules su" ?h1] nat_rules_verbs(3)[of _ su] fold_remove1_absent[OF assms(3)] by simp
  moreover obtain h3 b where "link_exists os (su_bridge su) ?h2 = (h3, b)" by fastforce
  ultimately show ?thesis
    using link_exists_rules[OF os, of "su_bridge su" ?h2] run_cmd_rules[OF os]
    by (simp add: delete_bridge_def Let_def act_then_apply split: sum.split)
qed


text \<open>A host that is only a packet filter, to apply the theorem to.\<close>

definition filter_host :: "string list list host_os" where
  "filter_host =
     \<lparr>os_output = (\<lambda>cmd args h.
        let ok = (\<lambda>b. Inr \<lparr>co_success = b, co_stdout = [], co_stderr = []\<rparr>)
        in if cmd \<noteq> ''iptables'' then (h, ok True)
           else if verbs args = [''-C''] then (h, ok (rule_spec args \<in> set h))
           else if verbs args = [''-A''] then (h @ [rule_spec args], ok True)
           else if verbs args = [''-D''] then (remove1 (rule_spec args) h, ok True)
           else (h, ok False)),
      os_read = (\<lambda>_ h. (h, Inr ''1'')), os_write = (\<lambda>_ _ h. (h, Inr ())), os_rename = (\<lambda>_ _ h. (h, Inr ()))\<rparr>"

lemma filter_host_ok: "iptables_host filter_host (\<lambda>h. h)"
  by (simp add: iptables_host_def filter_host_def)

abbreviation demo_setup :: project_setup where
  "demo_setup \<equiv> \<lparr>su_bridge = ''tbr-7'', su_gateway = 0x0A000001, su_subnet = demo_subnet, su_supernet = demo_net\<rparr>"

lemma filter_host_ensure: "\<exists>h'. ensure_bridge filter_host demo_setup h = (h', Inr ())"
proof -
  have each: "\<exists>h'. act_each (iptables_ensure filter_host) rs h = (h', Inr ())"
    if "\<And>r. r \<in> set rs \<Longrightarrow> verbs r = [''-A'']" for rs h
    using that
  proof (induction rs arbitrary: h)
    case (Cons r rs)
    have "verbs r = [''-A'']" using Cons.prems by simp
    from iptables_ensure_rules(2)[OF filter_host_ok this, of h] Cons
    show ?case by (auto simp: act_then_apply)
  qed simp
  from each[OF nat_rules_verbs(1)] show ?thesis
    by (simp add: ensure_bridge_def act_then_def ensure_link_def link_exists_def cmd_succeeds_def
        run_cmd_def ensure_ip_forward_def filter_host_def trim_str_def is_space_def)
qed


end
