(* ===== verification/NetManager.thy ===== *)
theory NetManager
  imports NetHost
begin

text \<open>
  \<open>hostd/src/net/manager.rs\<close>: \<open>NetworkManager\<close> ties the allocator to the host and persists the
  state after every mutation.  The mutex makes every operation one step.  The JSON serialiser
  (\<open>serde_json\<close>) is a parameter: it prints a state or fails with a text.
\<close>

record net_manager =
  nm_state :: net_state
  nm_state_path :: string
  nm_supernet :: ipv4net
  nm_subnet_prefix :: nat

text \<open>\<open>NetworkManager::new\<close>; \<open>from_json\<close> parses the persisted state.\<close>

definition net_manager_new ::
  "('h, 'm) host_os_scheme \<Rightarrow> (string \<Rightarrow> string + net_state) \<Rightarrow> string \<Rightarrow> string \<Rightarrow> nat \<Rightarrow>
   ('h, net_manager) action" where
  "net_manager_new os from_json work_dir supernet subnet_prefix = (\<lambda>h.
     case net_parse supernet of
       Inl e \<Rightarrow> (h, Inl e)
     | Inr supernet \<Rightarrow>
         if subnet_prefix \<le> net_prefix supernet \<or> 30 < subnet_prefix
         then (h, Inl (Net (''subnet prefix /'' @ dec subnet_prefix @ '' must be between /''
                 @ dec (net_prefix supernet + 1) @ '' and /30 for supernet '' @ net_display supernet)))
         else
           let state_path = path_join work_dir ''network_state.json'';
               made = (\<lambda>st. \<lparr>nm_state = st, nm_state_path = state_path, nm_supernet = supernet,
                             nm_subnet_prefix = subnet_prefix\<rparr>)
           in (case os_read os state_path h of
                 (h', Inr contents) \<Rightarrow>
                   (case from_json contents of
                      Inl e \<Rightarrow> (h', Inl (Net (''parse '' @ state_path @ '': '' @ e)))
                    | Inr st \<Rightarrow> (h', Inr (made st)))
               | (h', Inl (NotFound _)) \<Rightarrow> (h', Inr (made net_state_default))
               | (h', Inl e) \<Rightarrow> (h', Inl (Io (io_text e)))))"

definition apply_alloc :: "('h, 'm) host_os_scheme \<Rightarrow> alloc_plan \<Rightarrow> ('h, unit) action" where
  "apply_alloc os plan =
     act_then (case ap_setup plan of None \<Rightarrow> act_ok () | Some su \<Rightarrow> ensure_bridge os su)
       (\<lambda>_. ensure_tap os (vn_tap_name (ap_vm_net plan)) (ap_bridge plan))"

definition persist ::
  "('h, 'm) host_os_scheme \<Rightarrow> (net_state \<Rightarrow> string + string) \<Rightarrow> string \<Rightarrow> net_state \<Rightarrow> ('h, unit) action" where
  "persist os to_json path st = (\<lambda>h.
     let tmp = path @ ''.tmp'' in
     case to_json st of
       Inl e \<Rightarrow> (h, Inl (Json e))
     | Inr txt \<Rightarrow>
         (case os_write os tmp txt h of
            (h', Inl e) \<Rightarrow> (h', Inl (Io e))
          | (h', Inr _) \<Rightarrow>
              (case os_rename os tmp path h' of
                 (h'', Inl e) \<Rightarrow> (h'', Inl (Io e))
               | (h'', Inr _) \<Rightarrow> (h'', Inr ()))))"

text \<open>\<open>(manager, host)\<close> after the call, and its result.\<close>

definition nm_allocate ::
  "('h, 'm) host_os_scheme \<Rightarrow> (net_state \<Rightarrow> string + string) \<Rightarrow> net_manager \<Rightarrow> project_id \<Rightarrow> vm_id \<Rightarrow> tap_name \<Rightarrow>
   'h \<Rightarrow> (net_manager \<times> 'h) \<times> vm_net result" where
  "nm_allocate os to_json m project_id vm_id tap_name h =
     (case alloc (nm_state m) project_id vm_id tap_name (nm_supernet m) (nm_subnet_prefix m) of
        (st, Inl e) \<Rightarrow> ((m\<lparr>nm_state := st\<rparr>, h), Inl e)
      | (st, Inr plan) \<Rightarrow>
          (case apply_alloc os plan h of
             (h1, Inl e) \<Rightarrow>
               let h2 = act_quiet (delete_tap os (vn_tap_name (ap_vm_net plan))) h1;
                   h3 = (case ap_setup plan of Some su \<Rightarrow> act_quiet (delete_bridge os su) h2 | None \<Rightarrow> h2)
               in ((m\<lparr>nm_state := rollback_alloc st project_id vm_id\<rparr>, h3), Inl e)
           | (h1, Inr _) \<Rightarrow>
               (case persist os to_json (nm_state_path m) st h1 of
                  (h2, Inl e) \<Rightarrow> ((m\<lparr>nm_state := st\<rparr>, h2), Inl e)
                | (h2, Inr _) \<Rightarrow> ((m\<lparr>nm_state := st\<rparr>, h2), Inr (ap_vm_net plan)))))"

definition nm_release ::
  "('h, 'm) host_os_scheme \<Rightarrow> (net_state \<Rightarrow> string + string) \<Rightarrow> net_manager \<Rightarrow> vm_id \<Rightarrow>
   'h \<Rightarrow> (net_manager \<times> 'h) \<times> unit result" where
  "nm_release os to_json m vm_id h =
     (case release (nm_state m) vm_id (nm_supernet m) (nm_subnet_prefix m) of
        (st, None) \<Rightarrow> ((m\<lparr>nm_state := st\<rparr>, h), Inr ())
      | (st, Some plan) \<Rightarrow>
          let h1 = act_quiet (delete_tap os (rp_tap plan)) h;
              h2 = (case rp_teardown plan of Some su \<Rightarrow> act_quiet (delete_bridge os su) h1 | None \<Rightarrow> h1);
              (h3, r) = persist os to_json (nm_state_path m) st h2
          in ((m\<lparr>nm_state := st\<rparr>, h3), r))"

definition reconcile_project :: "('h, 'm) host_os_scheme \<Rightarrow> net_manager \<Rightarrow> project_state \<Rightarrow> 'h \<Rightarrow> 'h" where
  "reconcile_project os m project h =
     (let h1 = fold (\<lambda>(_, vm_id). act_quiet (delete_tap os (tap_for_vm vm_id))) (ps_vms project) h;
          su = \<lparr>su_bridge = ps_bridge project, su_gateway = ps_gateway project,
                su_subnet = net_subnet (nm_supernet m) (ps_subnet_index project) (nm_subnet_prefix m),
                su_supernet = nm_supernet m\<rparr>
      in act_quiet (delete_bridge os su) h1)"

definition reconcile_on_startup ::
  "('h, 'm) host_os_scheme \<Rightarrow> (net_state \<Rightarrow> string + string) \<Rightarrow> net_manager \<Rightarrow>
   'h \<Rightarrow> (net_manager \<times> 'h) \<times> unit result" where
  "reconcile_on_startup os to_json m h =
     (let h1 = fold (\<lambda>(_, p). reconcile_project os m p) (projects (nm_state m)) h
      in case stray_bridges os h1 of
           (h2, Inl e) \<Rightarrow> ((m, h2), Inl e)
         | (h2, Inr names) \<Rightarrow>
             let h3 = fold (\<lambda>name. act_quiet (run_cmd os ''ip'' [''link'', ''del'', name])) names h2;
                 m' = m\<lparr>nm_state := net_state_default\<rparr>;
                 (h4, r) = persist os to_json (nm_state_path m) (nm_state m') h3
             in ((m', h4), r))"

section \<open>Histories\<close>

datatype nm_op = NmAllocate project_id vm_id tap_name | NmRelease vm_id | NmReconcile

fun nm_step ::
  "('h, 'm) host_os_scheme \<Rightarrow> (net_state \<Rightarrow> string + string) \<Rightarrow> net_manager \<times> 'h \<Rightarrow> nm_op \<Rightarrow> net_manager \<times> 'h" where
  "nm_step os js (m, h) (NmAllocate pid v tap) = fst (nm_allocate os js m pid v tap h)"
| "nm_step os js (m, h) (NmRelease v) = fst (nm_release os js m v h)"
| "nm_step os js (m, h) NmReconcile = fst (reconcile_on_startup os js m h)"

text \<open>Every step of the manager is a step of the allocator, a reset, or nothing.\<close>

lemma nm_allocate_state:
  assumes "plan_ok (nm_supernet m) (nm_subnet_prefix m)"
    "ipam_wf (nm_supernet m) (nm_subnet_prefix m) (nm_state m)"
  obtains "fst (fst (nm_allocate os js m pid v tap h)) = m" "\<exists>e. snd (nm_allocate os js m pid v tap h) = Inl e"
  | st plan where "alloc (nm_state m) pid v tap (nm_supernet m) (nm_subnet_prefix m) = (st, Inr plan)"
      "fst (fst (nm_allocate os js m pid v tap h)) = m\<lparr>nm_state := st\<rparr>"
      "snd (nm_allocate os js m pid v tap h) = Inr (ap_vm_net plan) \<or>
       (\<exists>h1 e. apply_alloc os plan h = (h1, Inr ()) \<and>
          snd (persist os js (nm_state_path m) st h1) = Inl e \<and>
          snd (nm_allocate os js m pid v tap h) = Inl e)"
proof (cases "alloc (nm_state m) pid v tap (nm_supernet m) (nm_subnet_prefix m)")
  case (Pair st r)
  note undo = alloc_rollback_aux[OF assms, of pid v tap]
  show ?thesis
  proof (cases r)
    case (Inl e)
    with Pair undo that(1) show ?thesis by (simp add: nm_allocate_def)
  next
    case (Inr plan)
    obtain h1 r1 where applied: "apply_alloc os plan h = (h1, r1)" by fastforce
    show ?thesis
    proof (cases r1)
      case (Inl e)
      with Pair Inr applied undo that(1) show ?thesis by (simp add: nm_allocate_def Let_def)
    next
      case r1: (Inr u)
      obtain h2 r2 where "persist os js (nm_state_path m) st h1 = (h2, r2)" by fastforce
      with Pair Inr applied r1 that(2)[of st plan] show ?thesis
        by (cases r2) (simp_all add: nm_allocate_def)
    qed
  qed
qed

lemma nm_release_state:
  "fst (fst (nm_release os js m v h)) =
     m\<lparr>nm_state := fst (release (nm_state m) v (nm_supernet m) (nm_subnet_prefix m))\<rparr>"
  by (simp add: nm_release_def Let_def split: prod.split option.split)

lemma reconcile_state:
  "fst (fst (reconcile_on_startup os js m h)) \<in> {m, m\<lparr>nm_state := net_state_default\<rparr>}"
  by (simp add: reconcile_on_startup_def Let_def split: prod.split sum.split)

abbreviation nm_wf :: "net_manager \<Rightarrow> bool" where
  "nm_wf m \<equiv> plan_ok (nm_supernet m) (nm_subnet_prefix m) \<and>
     ipam_wf (nm_supernet m) (nm_subnet_prefix m) (nm_state m)"

lemma nm_step_wf:
  assumes "nm_wf m"
  shows "nm_wf (fst (nm_step os js (m, h) op))"
proof (cases op)
  case (NmAllocate pid v tap)
  show ?thesis
  proof (rule nm_allocate_state[OF conjunct1[OF assms] conjunct2[OF assms], of os js pid v tap h])
    fix st plan
    assume a: "alloc (nm_state m) pid v tap (nm_supernet m) (nm_subnet_prefix m) = (st, Inr plan)"
      "fst (fst (nm_allocate os js m pid v tap h)) = m\<lparr>nm_state := st\<rparr>"
    have "ipam_wf (nm_supernet m) (nm_subnet_prefix m) st"
      using alloc_wf[of "nm_supernet m" "nm_subnet_prefix m" "nm_state m" pid v tap] a(1) assms by simp
    with a(2) assms NmAllocate show ?thesis by simp
  qed (use assms NmAllocate in simp)
next
  case (NmRelease v)
  with assms show ?thesis by (simp add: nm_release_state release_wf)
next
  case NmReconcile
  with assms reconcile_state[of os js m h] show ?thesis by (auto simp: ipam_default_wf)
qed

lemma nm_run_wf: "nm_wf (fst mh) \<Longrightarrow> nm_wf (fst (foldl (nm_step os js) mh ops))"
proof (induction ops arbitrary: mh)
  case (Cons op ops)
  obtain m h where mh: "mh = (m, h)" by (cases mh)
  show ?case using Cons.IH[of "nm_step os js mh op"] nm_step_wf[of m os js h op] Cons.prems mh by simp
qed simp

text \<open>What \<open>new\<close> returns on a host with no persisted state.\<close>

lemma net_manager_new_wf:
  assumes "net_manager_new os fj dir cidr q h = (h', Inr m)"
    "snd (os_read os (path_join dir ''network_state.json'') h) = Inl (NotFound e)"
  shows "nm_wf m \<and> nm_state m = net_state_default"
proof -
  obtain n where n: "net_parse cidr = Inr n" "\<not> (q \<le> net_prefix n \<or> 30 < q)"
    using assms(1) by (auto simp: net_manager_new_def Let_def split: sum.splits if_splits)
  then have "m = \<lparr>nm_state = net_state_default, nm_state_path = path_join dir ''network_state.json'',
      nm_supernet = n, nm_subnet_prefix = q\<rparr>"
    using assms by (auto simp: net_manager_new_def Let_def split: prod.splits)
  with n net_parse_wf[OF n(1)] show ?thesis by (simp add: plan_ok_def ipam_default_wf)
qed

text \<open>A network manager that starts on an accepted configuration with no state on disk never has
  the same guest address or gateway twice, whatever its clients ask and however the host behaves:
  every command may fail at any point, every write may fail.\<close>

theorem manager_addresses_unique:
  assumes "net_manager_new os from_json dir cidr prefix h = (h', Inr m)"
    "snd (os_read os (path_join dir ''network_state.json'') h) = Inl (NotFound e)"
  shows "distinct (guest_ips (nm_state (fst (foldl (nm_step os to_json) (m, h') ops))) @
    gateways (nm_state (fst (foldl (nm_step os to_json) (m, h') ops))))"
proof -
  let ?m = "fst (foldl (nm_step os to_json) (m, h') ops)"
  have "nm_wf (fst (m, h'))" using net_manager_new_wf[OF assms] by (simp add: ipam_default_wf)
  then have "nm_wf ?m" by (rule nm_run_wf)
  from ipam_ips_distinct[OF conjunct1[OF this] conjunct2[OF this]] show ?thesis by simp
qed


section \<open>The properties on a concrete host\<close>

definition empty_host :: "unit host_os" where
  "empty_host =
     \<lparr>os_output = (\<lambda>_ _ h. (h, Inr \<lparr>co_success = True, co_stdout = [], co_stderr = []\<rparr>)),
      os_read = (\<lambda>_ h. (h, Inl (NotFound ''no such file''))),
      os_write = (\<lambda>path _ h. (h, if path = IP_FORWARD then Inr () else Inl ''disk full'')), os_rename = (\<lambda>_ _ h. (h, Inr ()))\<rparr>"

abbreviation demo_manager :: net_manager where
  "demo_manager \<equiv> \<lparr>nm_state = net_state_default, nm_state_path = ''work/network_state.json'',
     nm_supernet = demo_net, nm_subnet_prefix = 29\<rparr>"

lemma demo_manager_new:
  "net_manager_new empty_host fj ''work'' (net_display demo_net) 29 () = ((), Inr demo_manager)"
proof -
  have "net_parse (net_display demo_net) = Inr demo_net"
    by (rule net_parse_display) (simp add: net_wf_def)
  then show ?thesis by (simp add: net_manager_new_def empty_host_def path_join_def starts_with_def)
qed

lemma manager_addresses_unique_witness:
  "distinct (guest_ips (nm_state (fst (foldl (nm_step empty_host (\<lambda>_. Inr ''{}'')) (demo_manager, ())
     [NmAllocate 7 ''vm-a'' ''tap-7-a'', NmAllocate 7 ''vm-b'' ''tap-7-b'']))))"
  using manager_addresses_unique[OF demo_manager_new, of _ "\<lambda>_. Inr ''{}''"
      "[NmAllocate 7 ''vm-a'' ''tap-7-a'', NmAllocate 7 ''vm-b'' ''tap-7-b'']"]
  by (simp add: empty_host_def)

lemma empty_host_commands:
  "run_cmd empty_host cmd args h = (h, Inr ())" "link_exists empty_host name h = (h, True)"
  "iptables_ensure empty_host args h = (h, Inr ())" "ensure_ip_forward empty_host h = (h, Inr ())"
  by (simp_all add: run_cmd_def link_exists_def cmd_succeeds_def iptables_ensure_def ensure_ip_forward_def
      empty_host_def)

lemma empty_host_apply: "apply_alloc empty_host plan h = (h, Inr ())"
  by (simp add: apply_alloc_def ensure_bridge_def act_then_def ensure_link_def ensure_tap_def
      nat_rules_def Let_def empty_host_commands split: option.split)

text \<open>The exception of the property above: the state file cannot be written.\<close>

lemma demo_manager_allocate:
  "nm_allocate empty_host (\<lambda>_. Inr ''{}'') demo_manager 7 ''vm-a'' ''tap-7-a'' () =
     ((demo_manager\<lparr>nm_state := demo_state\<rparr>, ()), Inl (Io ''disk full''))"
proof -
  have "persist empty_host (\<lambda>_. Inr ''{}'') path st () = ((), Inl (Io ''disk full''))"
    if "path @ ''.tmp'' \<noteq> IP_FORWARD" for path st
    using that by (simp add: persist_def empty_host_def)
  then show ?thesis by (simp add: nm_allocate_def demo_alloc empty_host_apply)
qed


end
