(* ===== verification/Volume.thy ===== *)
theory Volume
  imports Errors
begin

text \<open>
  \<open>hostd/src/storage/volume.rs\<close>: a block volume kept as one file per chunk.  A \<open>u64\<close> is a natural
  number and the one addition that can exceed the word is taken modulo \<open>2^64\<close>, as release builds
  compute it.  The directory the volume lives in is a store of files with the calls the code makes
  on it; every call first consumes one entry of a list of faults (\<open>None\<close> or the end of the list:
  the call works), so a theorem that does not mention the list holds whatever fails; a missing file is
  reported as such exactly when it is missing.  A file handle
  is the path it was opened with: the code never renames or removes a chunk file.
\<close>

section \<open>Files\<close>

record store =
  st_files :: "(string, bytes) amap"
  st_durable :: "(string, bytes) amap" \<comment> \<open>what the last \<open>fdatasync\<close> of the file covered\<close>
  st_faults :: "(string \<times> nat) option list" \<comment> \<open>the error, and how many bytes a failed write got out\<close>

text \<open>The result of a call that may panic.\<close>

datatype 'a io = IoOk 'a | IoErr io_error | Panicked string

definition next_fault :: "store \<Rightarrow> (io_error \<times> nat) option \<times> store" where
  "next_fault s =
     (case st_faults s of
        [] \<Rightarrow> (None, s)
      | f # fs \<Rightarrow> (map_option (map_prod OtherIo id) f, s\<lparr>st_faults := fs\<rparr>))"

definition io_bind :: "store \<times> 'a io \<Rightarrow> (store \<Rightarrow> 'a \<Rightarrow> store \<times> 'b io) \<Rightarrow> store \<times> 'b io" where
  "io_bind r k = (case r of (s, IoOk x) \<Rightarrow> k s x | (s, IoErr e) \<Rightarrow> (s, IoErr e) | (s, Panicked m) \<Rightarrow> (s, Panicked m))"

text \<open>\<open>create_dir_all\<close>: directories are not part of the store.\<close>

definition make_dirs :: "store \<Rightarrow> store \<times> unit io" where
  "make_dirs s = (case next_fault s of (Some (e, _), s') \<Rightarrow> (s', IoErr e) | (None, s') \<Rightarrow> (s', IoOk ()))"

definition open_file :: "bool \<Rightarrow> string \<Rightarrow> store \<Rightarrow> store \<times> string io" where
  "open_file create path s =
     (case next_fault s of
        (Some (e, _), s') \<Rightarrow> (s', IoErr e)
      | (None, s') \<Rightarrow>
          (case map_of (st_files s') path of
             Some _ \<Rightarrow> (s', IoOk path)
           | None \<Rightarrow>
               if create then (s'\<lparr>st_files := AList.update path [] (st_files s')\<rparr>, IoOk path)
               else (s', IoErr (NotFound path))))"

text \<open>Bytes \<open>data\<close> at offset \<open>off\<close> of a file, the gap before them zero.\<close>

definition splice :: "bytes \<Rightarrow> nat \<Rightarrow> bytes \<Rightarrow> bytes" where
  "splice content off data =
     take off (content @ replicate (off - length content) 0) @ data @ drop (off + length data) content"

definition file_content :: "(string, bytes) amap \<Rightarrow> string \<Rightarrow> bytes" where
  "file_content fs path = (case map_of fs path of Some c \<Rightarrow> c | None \<Rightarrow> [])"

definition write_all_at :: "string \<Rightarrow> bytes \<Rightarrow> nat \<Rightarrow> store \<Rightarrow> store \<times> unit io" where
  "write_all_at path data off s =
     (case next_fault s of
        (Some (e, n), s') \<Rightarrow>
          (s'\<lparr>st_files := AList.update path
               (splice (file_content (st_files s') path) off (take n data)) (st_files s')\<rparr>, IoErr e)
      | (None, s') \<Rightarrow>
          (s'\<lparr>st_files := AList.update path
               (splice (file_content (st_files s') path) off data) (st_files s')\<rparr>, IoOk ()))"

text \<open>One \<open>read_at\<close> into a part: the bytes the file has there; the rest of the part is left alone.\<close>

definition read_at :: "string \<Rightarrow> bytes \<Rightarrow> nat \<Rightarrow> store \<Rightarrow> store \<times> bytes io" where
  "read_at path part off s =
     (case next_fault s of
        (Some (e, _), s') \<Rightarrow> (s', IoErr e)
      | (None, s') \<Rightarrow>
          (let got = take (length part) (drop off (file_content (st_files s') path))
           in (s', IoOk (got @ drop (length got) part))))"

definition sync_data :: "string \<Rightarrow> store \<Rightarrow> store \<times> unit io" where
  "sync_data path s =
     (case next_fault s of
        (Some (e, _), s') \<Rightarrow> (s', IoErr e)
      | (None, s') \<Rightarrow>
          (s'\<lparr>st_durable := AList.update path (file_content (st_files s') path) (st_durable s')\<rparr>, IoOk ()))"

section \<open>The volume\<close>

definition DEFAULT_CHUNK_KB :: nat where "DEFAULT_CHUNK_KB = 1024"
definition ALLOWED_CHUNK_KB :: "nat list" where "ALLOWED_CHUNK_KB = [256, 512, 1024, 2048, 4096]"
definition FD_CACHE_CAP :: nat where "FD_CACHE_CAP = 4096"
definition FLUSH_THREADS :: nat where "FLUSH_THREADS = 8"

record volume_meta =
  vm_version :: nat
  vm_size_bytes :: nat
  vm_chunk_size :: nat

record fd_cache =
  fc_map :: "(nat, string \<times> nat) amap"
  fc_order :: "(nat \<times> nat) list"
  fc_next_gen :: nat
  fc_cap :: nat

record volume =
  vo_dir :: string
  vo_meta :: volume_meta
  vo_fds :: fd_cache
  vo_dirty :: "nat list" \<comment> \<open>the \<open>HashSet\<close>, in its iteration order\<close>

definition fd_cache_new :: "nat \<Rightarrow> fd_cache" where
  "fd_cache_new cap = \<lparr>fc_map = [], fc_order = [], fc_next_gen = 0, fc_cap = cap\<rparr>"

definition is_power_of_two :: "nat \<Rightarrow> bool" where
  "is_power_of_two n \<longleftrightarrow> n \<in> set (map (\<lambda>k. 2 ^ k) [0..<64])"

text \<open>\<open>Volume::open\<close> and \<open>Volume::create\<close>; \<open>serde_json\<close> is a parameter.\<close>

definition volume_open ::
  "(bytes \<Rightarrow> string + volume_meta) \<Rightarrow> string \<Rightarrow> store \<Rightarrow> store \<times> volume result" where
  "volume_open from_json dir s =
     (case next_fault s of
        (Some (e, _), s') \<Rightarrow> (s', Inl (Storage (''read '' @ dir @ '': '' @ io_text e)))
      | (None, s') \<Rightarrow>
          (case map_of (st_files s') (path_join dir ''meta.json'') of
             None \<Rightarrow> (s', Inl (Storage (''read '' @ dir @ '': '' @ ''No such file or directory (os error 2)'')))
           | Some txt \<Rightarrow>
               (case from_json txt of
                  Inl e \<Rightarrow> (s', Inl (Json e))
                | Inr meta \<Rightarrow>
                    if vm_version meta \<noteq> 1
                    then (s', Inl (Storage (''unsupported volume format version '' @ dec (vm_version meta))))
                    else (s', Inr \<lparr>vo_dir = dir, vo_meta = meta, vo_fds = fd_cache_new FD_CACHE_CAP,
                                   vo_dirty = []\<rparr>))))"

definition volume_create ::
  "(bytes \<Rightarrow> string + volume_meta) \<Rightarrow> (volume_meta \<Rightarrow> string + bytes) \<Rightarrow> string \<Rightarrow> nat \<Rightarrow> nat \<Rightarrow> store \<Rightarrow>
   store \<times> volume result" where
  "volume_create from_json to_json dir size_bytes chunk_size s =
     (if \<not> is_power_of_two chunk_size \<or> chunk_size < 4096
      then (s, Inl (Storage (''chunk size '' @ dec chunk_size @ '' must be a power of two >= 4096'')))
      else if size_bytes = 0 \<or> size_bytes mod 512 \<noteq> 0
      then (s, Inl (Storage (''volume size '' @ dec size_bytes @ '' must be a positive multiple of 512'')))
      else case make_dirs s of
        (s1, IoErr e) \<Rightarrow> (s1, Inl (Io (io_text e)))
      | (s1, Panicked m) \<Rightarrow> (s1, Inl (Io m))
      | (s1, IoOk _) \<Rightarrow>
          let meta = \<lparr>vm_version = 1, vm_size_bytes = size_bytes, vm_chunk_size = chunk_size\<rparr>
          in case to_json meta of
               Inl e \<Rightarrow> (s1, Inl (Json e))
             | Inr txt \<Rightarrow>
                 (case next_fault s1 of
                    (Some (e, n), s2) \<Rightarrow>
                      (s2\<lparr>st_files := AList.update (path_join dir ''meta.json'') (take n txt) (st_files s2)\<rparr>,
                       Inl (Io (io_text e)))
                  | (None, s2) \<Rightarrow>
                      volume_open from_json dir
                        (s2\<lparr>st_files := AList.update (path_join dir ''meta.json'') txt (st_files s2)\<rparr>)))"

definition chunk_path :: "string \<Rightarrow> nat \<Rightarrow> string" where
  "chunk_path dir idx =
     path_join (path_join (path_join (path_join dir ''chunks'')
       (hex02_lower ((idx div 256) mod 256))) (hex02_lower (idx mod 256))) (dec idx)"

text \<open>The eviction loop of \<open>chunk_fd\<close>; \<open>pops\<close> is what is left of its bound \<open>2 * cap\<close>.\<close>

fun evict :: "nat \<Rightarrow> nat list \<Rightarrow> fd_cache \<Rightarrow> fd_cache" where
  "evict 0 dirty c = c"
| "evict (Suc pops) dirty c =
     (if length (fc_map c) \<le> fc_cap c then c
      else case fc_order c of
        [] \<Rightarrow> c
      | (victim, vgen) # order \<Rightarrow>
          (let c' = c\<lparr>fc_order := order\<rparr> in
           case map_of (fc_map c) victim of
             None \<Rightarrow> evict pops dirty c'
           | Some (_, cur_gen) \<Rightarrow>
               if cur_gen \<noteq> vgen then evict pops dirty c'
               else if victim \<in> set dirty
                 then evict pops dirty (c'\<lparr>fc_order := order @ [(victim, vgen)]\<rparr>)
               else evict pops dirty (c'\<lparr>fc_map := AList.delete victim (fc_map c')\<rparr>)))"

text \<open>A handle put into the cache under a new generation.\<close>

definition cache_put :: "nat \<Rightarrow> string \<Rightarrow> fd_cache \<Rightarrow> fd_cache" where
  "cache_put idx path c =
     (let g = fc_next_gen c + 1
      in c\<lparr>fc_next_gen := g, fc_map := AList.update idx (path, g) (fc_map c),
           fc_order := fc_order c @ [(idx, g)]\<rparr>)"

definition chunk_fd :: "volume \<Rightarrow> nat \<Rightarrow> bool \<Rightarrow> store \<Rightarrow> volume \<times> store \<times> string option io" where
  "chunk_fd v idx create s =
     (case map_of (fc_map (vo_fds v)) idx of
        Some (file, _) \<Rightarrow> (v\<lparr>vo_fds := cache_put idx file (vo_fds v)\<rparr>, s, IoOk (Some file))
      | None \<Rightarrow>
          let path = chunk_path (vo_dir v) idx;
              (s', r) = (if create then io_bind (make_dirs s) (\<lambda>s _. open_file True path s)
                         else open_file False path s)
          in case r of
               IoErr (NotFound e) \<Rightarrow> (v, s', if create then IoErr (NotFound e) else IoOk None)
             | IoErr e \<Rightarrow> (v, s', IoErr e)
             | Panicked m \<Rightarrow> (v, s', Panicked m)
             | IoOk file \<Rightarrow>
                 let c = cache_put idx file (vo_fds v);
                     c' = evict (2 * fc_cap c) (vo_dirty v) c;
                     v' = v\<lparr>vo_fds := c'\<rparr>
                 in case map_of (fc_map c') idx of
                      Some (f, _) \<Rightarrow> (v', s', IoOk (Some f))
                    | None \<Rightarrow> (v', s', Panicked ''just inserted''))"

section \<open>Reading and writing\<close>

lemma io_progress:
  "0 < chunk \<Longrightarrow> \<not> len \<le> pos \<Longrightarrow> len - (pos + min (chunk - a mod chunk) (len - pos)) < len - (pos :: nat)"
  using mod_less_divisor[of chunk a] by linarith

text \<open>The loop of \<open>do_io\<close> from \<open>pos\<close> on; \<open>buf\<close> is the whole buffer, \<open>meta\<close> the volume's.\<close>

function io_loop ::
  "bool \<Rightarrow> volume_meta \<Rightarrow> nat \<Rightarrow> nat \<Rightarrow> nat \<Rightarrow> volume \<Rightarrow> store \<Rightarrow> bytes \<Rightarrow> volume \<times> store \<times> bytes io" where
  "io_loop write meta off len pos v s buf =
     (if vm_chunk_size meta = 0 then (v, s, Panicked ''attempt to divide by zero'')
      else if len \<le> pos then (v, s, IoOk buf)
      else
        let abs = (off + pos) mod 2 ^ 64;
            idx = abs div vm_chunk_size meta;
            in_off = abs mod vm_chunk_size meta;
            n = min (vm_chunk_size meta - in_off) (len - pos);
            part = take n (drop pos buf)
        in case chunk_fd v idx write s of
             (v1, s1, IoErr e) \<Rightarrow> (v1, s1, IoErr e)
           | (v1, s1, Panicked m) \<Rightarrow> (v1, s1, Panicked m)
           | (v1, s1, IoOk None) \<Rightarrow> io_loop write meta off len (pos + n) v1 s1 buf
           | (v1, s1, IoOk (Some file)) \<Rightarrow>
               if write then
                 (case write_all_at file part in_off s1 of
                    (s2, IoErr e) \<Rightarrow> (v1, s2, IoErr e)
                  | (s2, Panicked m) \<Rightarrow> (v1, s2, Panicked m)
                  | (s2, IoOk _) \<Rightarrow>
                      io_loop write meta off len (pos + n) (v1\<lparr>vo_dirty := List.insert idx (vo_dirty v1)\<rparr>) s2 buf)
               else
                 (case read_at file part in_off s1 of
                    (s2, IoErr e) \<Rightarrow> (v1, s2, IoErr e)
                  | (s2, Panicked m) \<Rightarrow> (v1, s2, Panicked m)
                  | (s2, IoOk got) \<Rightarrow>
                      io_loop write meta off len (pos + n) v1 s2 (take pos buf @ got @ drop (pos + n) buf)))"
  by pat_completeness auto

termination
  by (relation "measure (\<lambda>(_, _, _, len, pos, _). len - pos)") (auto simp: Let_def intro!: io_progress)

declare io_loop.simps [simp del]

text \<open>\<open>buf.fill(0)\<close> before a read; the sum \<open>off + len\<close> wraps.\<close>

definition do_io :: "bool \<Rightarrow> nat \<Rightarrow> bytes \<Rightarrow> volume \<Rightarrow> store \<Rightarrow> volume \<times> store \<times> (bytes \<times> nat) io" where
  "do_io write off buf v s =
     (let len = length buf in
      if off mod 512 \<noteq> 0 \<or> len mod 512 \<noteq> 0 \<or> vm_size_bytes (vo_meta v) < (off + len) mod 2 ^ 64
      then (v, s, IoErr (InvalidInput ''unaligned or out of range''))
      else
        let buf0 = (if write then buf else replicate len 0)
        in case io_loop write (vo_meta v) off len 0 v s buf0 of
             (v', s', IoOk buf') \<Rightarrow> (v', s', IoOk (buf', len))
           | (v', s', IoErr e) \<Rightarrow> (v', s', IoErr e)
           | (v', s', Panicked m) \<Rightarrow> (v', s', Panicked m))"

section \<open>Flush\<close>

fun flush_group :: "nat list \<Rightarrow> volume \<Rightarrow> store \<Rightarrow> volume \<times> store \<times> unit io" where
  "flush_group [] v s = (v, s, IoOk ())"
| "flush_group (idx # g) v s =
     (case chunk_fd v idx False s of
        (v1, s1, IoErr e) \<Rightarrow> (v1, s1, IoErr e)
      | (v1, s1, Panicked m) \<Rightarrow> (v1, s1, Panicked m)
      | (v1, s1, IoOk None) \<Rightarrow> (v1, s1, IoErr (NotFound (''dirty chunk '' @ dec idx @ '' has no file'')))
      | (v1, s1, IoOk (Some file)) \<Rightarrow>
          (case sync_data file s1 of
             (s2, IoErr e) \<Rightarrow> (v1, s2, IoErr e)
           | (s2, Panicked m) \<Rightarrow> (v1, s2, Panicked m)
           | (s2, IoOk _) \<Rightarrow> flush_group g (v1\<lparr>vo_dirty := remove1 idx (vo_dirty v1)\<rparr>) s2))"

text \<open>Element \<open>i\<close> of the dirty list goes to group \<open>i mod n\<close>.\<close>

definition deal :: "nat \<Rightarrow> 'a list \<Rightarrow> 'a list list" where
  "deal n xs = map (\<lambda>k. map snd (filter (\<lambda>(i, _). i mod n = k) (enumerate 0 xs))) [0..<n]"

text \<open>The groups are flushed by parallel threads and all of them are joined; here one after the
  other.  The result is the first error, in the order of the groups; a panic in a thread panics.\<close>

fun flush_groups :: "nat list list \<Rightarrow> volume \<Rightarrow> store \<Rightarrow> volume \<times> store \<times> unit io list" where
  "flush_groups [] v s = (v, s, [])"
| "flush_groups (g # gs) v s =
     (let (v1, s1, r) = flush_group g v s; (v2, s2, rs) = flush_groups gs v1 s1 in (v2, s2, r # rs))"

fun first_error :: "unit io list \<Rightarrow> unit io" where
  "first_error [] = IoOk ()"
| "first_error (IoOk _ # rs) = first_error rs"
| "first_error (IoErr e # rs) = (case first_error rs of Panicked m \<Rightarrow> Panicked m | _ \<Rightarrow> IoErr e)"
| "first_error (Panicked m # rs) = Panicked m"

definition flush :: "volume \<Rightarrow> store \<Rightarrow> volume \<times> store \<times> unit io" where
  "flush v s =
     (let dirty = vo_dirty v in
      if dirty = [] then (v, s, IoOk ())
      else let (v', s', rs) = flush_groups (deal (min FLUSH_THREADS (length dirty)) dirty) v s
           in (v', s', first_error rs))"

section \<open>The cache\<close>

definition cache_ok :: "fd_cache \<Rightarrow> bool" where
  "cache_ok c \<longleftrightarrow> distinct (map fst (fc_map c)) \<and>
     (\<forall>k f g. map_of (fc_map c) k = Some (f, g) \<longrightarrow> (k, g) \<in> set (fc_order c)) \<and>
     (\<forall>x \<in> set (fc_order c). snd x \<le> fc_next_gen c)"

text \<open>One round of the loop: a stale entry is dropped, a dirty one rotated, a clean one closed.\<close>

lemma evict_step:
  assumes ok: "cache_ok c" and full: "\<not> length (fc_map c) \<le> fc_cap c"
    and o: "fc_order c = (victim, vgen) # order"
  obtains (stale) c' where "\<forall>f. map_of (fc_map c) victim \<noteq> Some (f, vgen)"
      "c' = c\<lparr>fc_order := order\<rparr>" "evict (Suc pops) dirty c = evict pops dirty c'" "cache_ok c'"
  | (rotate) f c' where "map_of (fc_map c) victim = Some (f, vgen)" "victim \<in> set dirty" "c' = c\<lparr>fc_order := order @ [(victim, vgen)]\<rparr>"
      "evict (Suc pops) dirty c = evict pops dirty c'" "cache_ok c'"
  | (close) f c' where "map_of (fc_map c) victim = Some (f, vgen)" "victim \<notin> set dirty" "c' = c\<lparr>fc_order := order, fc_map := AList.delete victim (fc_map c)\<rparr>"
      "evict (Suc pops) dirty c = evict pops dirty c'" "cache_ok c'"
      "\<And>k. map_of (fc_map c') k = (if k = victim then None else map_of (fc_map c) k)"
proof (cases "\<exists>f. map_of (fc_map c) victim = Some (f, vgen)")
  case no: False
  show ?thesis
  proof (rule stale)
    show "evict (Suc pops) dirty c = evict pops dirty (c\<lparr>fc_order := order\<rparr>)"
      using full o no by (cases "map_of (fc_map c) victim") (auto simp: Let_def)
    show "cache_ok (c\<lparr>fc_order := order\<rparr>)" using ok o no by (auto simp: cache_ok_def) blast
  qed (use no in auto)
next
  case True
  then obtain f where f: "map_of (fc_map c) victim = Some (f, vgen)" by blast
  show ?thesis
  proof (cases "victim \<in> set dirty")
    case dirty: True
    show ?thesis
    proof (rule rotate[OF f dirty refl])
      show "evict (Suc pops) dirty c = evict pops dirty (c\<lparr>fc_order := order @ [(victim, vgen)]\<rparr>)"
        using full o f dirty by simp
      show "cache_ok (c\<lparr>fc_order := order @ [(victim, vgen)]\<rparr>)" using ok o by (auto simp: cache_ok_def)
    qed
  next
    case clean: False
    let ?r = "c\<lparr>fc_order := order, fc_map := AList.delete victim (fc_map c)\<rparr>"
    have keys: "distinct (map fst (fc_map c))" using ok by (simp add: cache_ok_def)
    have get: "map_of (fc_map ?r) k = (if k = victim then None else map_of (fc_map c) k)" for k
      by (simp add: map_simps)
    have "cache_ok ?r"
      unfolding cache_ok_def
    proof (intro conjI allI impI)
      show "distinct (map fst (fc_map ?r))" using keys by (simp add: distinct_delete)
      fix k f g assume "map_of (fc_map ?r) k = Some (f, g)"
      then have "k \<noteq> victim" "map_of (fc_map c) k = Some (f, g)"
        by (auto simp: map_simps split: if_splits)
      with ok o show "(k, g) \<in> set (fc_order ?r)" by (fastforce simp: cache_ok_def)
    qed (use ok o in \<open>auto simp: cache_ok_def\<close>)
    moreover have "evict (Suc pops) dirty c = evict pops dirty ?r" using full o f clean by simp
    ultimately show ?thesis using close[OF f clean refl] get by blast
  qed
qed

text \<open>What eviction keeps: the live entries in the queue, every dirty handle, and nothing new.\<close>

lemma evict_props:
  assumes "cache_ok c"
  shows "cache_ok (evict pops dirty c) \<and> map_of (fc_map (evict pops dirty c)) \<subseteq>\<^sub>m map_of (fc_map c) \<and>
    (\<forall>k \<in> set dirty. map_of (fc_map (evict pops dirty c)) k = map_of (fc_map c) k) \<and>
    fc_cap (evict pops dirty c) = fc_cap c \<and> fc_next_gen (evict pops dirty c) = fc_next_gen c"
  using assms
proof (induction pops arbitrary: c)
  case (Suc pops)
  show ?case
  proof (cases "length (fc_map c) \<le> fc_cap c \<or> fc_order c = []")
    case True
    with Suc.prems show ?thesis by (auto split: list.split)
  next
    case False
    then obtain victim vgen order where o: "fc_order c = (victim, vgen) # order"
      by (cases "fc_order c") auto
    have full: "\<not> length (fc_map c) \<le> fc_cap c" using False by simp
    show ?thesis
      using Suc.prems full o
    proof (cases rule: evict_step[where pops = pops and dirty = dirty])
      case (stale c')
      with Suc.IH[of c'] show ?thesis by simp
    next
      case (rotate f c')
      with Suc.IH[of c'] show ?thesis by simp
    next
      case (close f c')
      have "map_of (fc_map c') \<subseteq>\<^sub>m map_of (fc_map c)" by (simp add: map_le_def close(6) dom_def)
      with Suc.IH[OF close(5)] have "map_of (fc_map (evict pops dirty c')) \<subseteq>\<^sub>m map_of (fc_map c)"
        by (blast intro: map_le_trans)
      moreover have "\<forall>k \<in> set dirty. map_of (fc_map c') k = map_of (fc_map c) k"
        using close(2,6) by metis
      moreover have "fc_cap c' = fc_cap c" "fc_next_gen c' = fc_next_gen c" by (simp_all add: close(3))
      ultimately show ?thesis using Suc.IH[OF close(5)] unfolding close(4) by metis
    qed
  qed
qed simp

text \<open>The handle just put at the end of the queue survives eviction when the dirty chunks leave room.\<close>

lemma evict_keeps:
  assumes "cache_ok c" "map_of (fc_map c) idx = Some (f, g)"
    and "fc_order c = xs @ (idx, g) # ys" "(idx, g) \<notin> set xs"
    and "\<forall>k f' g'. map_of (fc_map c) k = Some (f', g') \<longrightarrow> k \<noteq> idx \<longrightarrow> k \<in> set dirty \<or> (k, g') \<in> set xs"
    and "card (set dirty) < fc_cap c"
  shows "map_of (fc_map (evict pops dirty c)) idx = Some (f, g)"
  using assms
proof (induction pops arbitrary: c xs ys)
  case (Suc pops)
  have keys: "distinct (map fst (fc_map c))" using Suc.prems(1) by (simp add: cache_ok_def)
  show ?case
  proof (cases "length (fc_map c) \<le> fc_cap c")
    case True
    with Suc.prems show ?thesis by simp
  next
    case full: False
    show ?thesis
    proof (cases xs)
      case Nil
      have "set (map fst (fc_map c)) \<subseteq> insert idx (set dirty)"
      proof
        fix k assume "k \<in> set (map fst (fc_map c))"
        then obtain x where "map_of (fc_map c) k = Some x" by (metis amap_none option.exhaust)
        with Suc.prems(5) Nil show "k \<in> insert idx (set dirty)" by (cases x) auto
      qed
      then have "card (set (map fst (fc_map c))) \<le> card (insert idx (set dirty))"
        by (intro card_mono) auto
      moreover have "card (insert idx (set dirty)) \<le> Suc (card (set dirty))"
        by (simp add: card_insert_if)
      ultimately have "length (fc_map c) \<le> Suc (card (set dirty))"
        using distinct_card[OF keys] by simp
      with full Suc.prems(6) show ?thesis by simp
    next
      case (Cons x order)
      obtain victim vgen where x: "x = (victim, vgen)" by (cases x)
      have o: "fc_order c = (victim, vgen) # (order @ (idx, g) # ys)" using Suc.prems(3) Cons x by simp
      have ne: "(victim, vgen) \<noteq> (idx, g)" "(idx, g) \<notin> set order" using Suc.prems(4) Cons x by auto
      show ?thesis
        using Suc.prems(1) full o
      proof (cases rule: evict_step[where pops = pops and dirty = dirty])
        case (stale c')
        have "map_of (fc_map c') idx = Some (f, g)" "fc_order c' = order @ (idx, g) # ys"
          "card (set dirty) < fc_cap c'" using stale Suc.prems by simp_all
        moreover have "\<forall>k f' g'. map_of (fc_map c') k = Some (f', g') \<longrightarrow> k \<noteq> idx \<longrightarrow>
            k \<in> set dirty \<or> (k, g') \<in> set order"
          using Suc.prems(5) Cons x stale by fastforce
        ultimately show ?thesis using Suc.IH[OF stale(4)] ne(2) stale(3) by metis
      next
        case (rotate h c')
        have "map_of (fc_map c') idx = Some (f, g)" "fc_order c' = order @ (idx, g) # (ys @ [(victim, vgen)])"
          "card (set dirty) < fc_cap c'" using rotate Suc.prems by simp_all
        moreover have "\<forall>k f' g'. map_of (fc_map c') k = Some (f', g') \<longrightarrow> k \<noteq> idx \<longrightarrow>
            k \<in> set dirty \<or> (k, g') \<in> set order"
          using Suc.prems(5) Cons x rotate by fastforce
        ultimately show ?thesis using Suc.IH[OF rotate(5)] ne(2) rotate(4) by metis
      next
        case (close h c')
        have "victim \<noteq> idx" using ne(1) close(1) Suc.prems(2) by auto
        then have "map_of (fc_map c') idx = Some (f, g)" "fc_order c' = order @ (idx, g) # ys"
          "card (set dirty) < fc_cap c'" using close(6)[of idx] close(3) Suc.prems by simp_all
        moreover have "\<forall>k f' g'. map_of (fc_map c') k = Some (f', g') \<longrightarrow> k \<noteq> idx \<longrightarrow>
            k \<in> set dirty \<or> (k, g') \<in> set order"
        proof (intro allI impI)
          fix k f' g' assume "map_of (fc_map c') k = Some (f', g')" "k \<noteq> idx"
          then have "k \<noteq> victim" "map_of (fc_map c) k = Some (f', g')"
            by (auto simp: close(6) split: if_splits)
          with Suc.prems(5) Cons x \<open>k \<noteq> idx\<close> show "k \<in> set dirty \<or> (k, g') \<in> set order" by fastforce
        qed
        ultimately show ?thesis using Suc.IH[OF close(5)] ne(2) close(4) by metis
      qed
    qed
  qed
qed simp

section \<open>The disk the chunks amount to\<close>

definition byte_at :: "bytes \<Rightarrow> nat \<Rightarrow> u8" where
  "byte_at c i = (if i < length c then c ! i else 0)"

text \<open>The byte of the volume at absolute offset \<open>i\<close>, in the files or in their durable copies.\<close>

definition disk :: "string \<Rightarrow> nat \<Rightarrow> (string, bytes) amap \<Rightarrow> nat \<Rightarrow> u8" where
  "disk dir chunk files i = byte_at (file_content files (chunk_path dir (i div chunk))) (i mod chunk)"

abbreviation vol_disk :: "volume \<Rightarrow> store \<Rightarrow> nat \<Rightarrow> u8" where
  "vol_disk v s \<equiv> disk (vo_dir v) (vm_chunk_size (vo_meta v)) (st_files s)"

abbreviation durable_disk :: "volume \<Rightarrow> store \<Rightarrow> nat \<Rightarrow> u8" where
  "durable_disk v s \<equiv> disk (vo_dir v) (vm_chunk_size (vo_meta v)) (st_durable s)"

lemma splice_byte:
  "byte_at (splice c off d) i = (if off \<le> i \<and> i < off + length d then d ! (i - off) else byte_at c i)"
proof -
  have "length (take off (c @ replicate (off - length c) 0)) = off" by simp
  then show ?thesis
    by (auto simp: byte_at_def splice_def nth_append)
qed

text \<open>Chunks live in different files.\<close>

lemma path_join_plain:
  "p \<noteq> [] \<Longrightarrow> last p \<noteq> CHR ''/'' \<Longrightarrow> q \<noteq> [] \<Longrightarrow> hd q \<noteq> CHR ''/'' \<Longrightarrow> path_join p q = p @ ''/'' @ q"
  by (cases q) (simp_all add: path_join_def starts_with_def)

lemma hex_lower_plain: "d < 16 \<Longrightarrow> hex_lower d \<noteq> CHR ''/''"
proof
  assume d: "d < 16" and eq: "hex_lower d = CHR ''/''"
  from eq have "of_char (hex_lower d) = (of_char (CHR ''/'') :: nat)" by simp
  with of_hex_lower[OF d] show False by (simp split: if_splits)
qed

lemma path_join_nonempty: "q \<noteq> [] \<Longrightarrow> path_join p q \<noteq> [] \<and> last (path_join p q) = last q"
  by (simp add: path_join_def)

lemma chunk_path_alt:
  "chunk_path dir idx =
     path_join (path_join (path_join dir ''chunks'') (hex02_lower ((idx div 256) mod 256))) (hex02_lower (idx mod 256))
     @ ''/'' @ dec idx"
proof -
  have "hd (dec idx) \<noteq> CHR ''/''"
    using dec_not_in[of "CHR ''/''" idx] by (metis hd_in_set dec_not_Nil slash_not_digit)
  moreover have "last (hex02_lower n) \<noteq> CHR ''/''" for n
    by (simp add: hex02_lower_def hex_lower_plain)
  ultimately show ?thesis
    unfolding chunk_path_def by (intro path_join_plain) (simp_all add: path_join_nonempty hex02_lower_def)
qed

lemma chunk_path_inj: "chunk_path dir i = chunk_path dir j \<longleftrightarrow> i = j"
proof
  have last_part: "takeWhile (\<lambda>c. c \<noteq> CHR ''/'') (rev (chunk_path dir k)) = rev (dec k)" for k
  proof -
    have "\<forall>c \<in> set (rev (dec k)). c \<noteq> CHR ''/''" using dec_not_in[of "CHR ''/''" k] slash_not_digit by auto
    then show ?thesis unfolding chunk_path_alt rev_append append_assoc by (subst takeWhile_append2) auto
  qed
  assume "chunk_path dir i = chunk_path dir j"
  then have "rev (dec i) = rev (dec j)" using last_part by metis
  then show "i = j" by (simp add: dec_inj)
qed simp

section \<open>What the operations keep\<close>

definition volume_ok :: "volume \<Rightarrow> store \<Rightarrow> bool" where
  "volume_ok v s \<longleftrightarrow> 0 < vm_chunk_size (vo_meta v) \<and> cache_ok (vo_fds v) \<and> distinct (vo_dirty v) \<and>
     (\<forall>k f g. map_of (fc_map (vo_fds v)) k = Some (f, g) \<longrightarrow> f = chunk_path (vo_dir v) k \<and> g \<le> fc_next_gen (vo_fds v)) \<and>
     (\<forall>k \<in> set (vo_dirty v). map_of (fc_map (vo_fds v)) k \<noteq> None) \<and>
     (\<forall>k. k \<notin> set (vo_dirty v) \<longrightarrow>
        file_content (st_durable s) (chunk_path (vo_dir v) k) = file_content (st_files s) (chunk_path (vo_dir v) k))"

text \<open>Two stores that hold the same bytes (a file created empty makes no difference).\<close>

definition same_bytes :: "store \<Rightarrow> store \<Rightarrow> bool" where
  "same_bytes s t \<longleftrightarrow> file_content (st_files s) = file_content (st_files t) \<and> st_durable s = st_durable t"

lemma same_bytes_refl [simp]: "same_bytes s s"
  by (simp add: same_bytes_def)

lemma same_bytes_trans: "same_bytes s t \<Longrightarrow> same_bytes t u \<Longrightarrow> same_bytes s u"
  by (simp add: same_bytes_def)

lemma next_fault_store: "st_files (snd (next_fault s)) = st_files s" "st_durable (snd (next_fault s)) = st_durable s"
  by (simp_all add: next_fault_def split: list.split)

lemma next_fault_kind: "fst (next_fault s) = Some (e, n) \<Longrightarrow> \<exists>m. e = OtherIo m"
  by (auto simp: next_fault_def split: list.splits)

lemma file_content_update: "file_content (AList.update p c fs) q = (if q = p then c else file_content fs q)"
  by (simp add: file_content_def map_simps)

lemma file_content_create:
  "map_of fs p = None \<Longrightarrow> file_content (AList.update p [] fs) = file_content fs"
  by (auto simp: file_content_def map_simps fun_eq_iff)

lemma open_file_bytes: "open_file create path s = (s', r) \<Longrightarrow>
    same_bytes s s' \<and> (\<forall>f. r = IoOk f \<longrightarrow> f = path) \<and> (\<forall>m. r \<noteq> Panicked m) \<and>
    (\<forall>e. r = IoErr (NotFound e) \<longrightarrow> \<not> create \<and> map_of (st_files s) path = None)"
  using next_fault_store[of s] next_fault_kind[of s]
  by (auto simp: open_file_def same_bytes_def file_content_create
      split: prod.splits option.splits if_splits)

lemma make_dirs_bytes: "make_dirs s = (s', r) \<Longrightarrow>
    same_bytes s s' \<and> (\<forall>m. r \<noteq> Panicked m) \<and> (\<forall>e. r \<noteq> IoErr (NotFound e))"
  using next_fault_store[of s] next_fault_kind[of s]
  by (auto simp: make_dirs_def same_bytes_def split: prod.splits option.splits)

lemma volume_ok_same_bytes: "same_bytes s s' \<Longrightarrow> volume_ok v s \<Longrightarrow> volume_ok v s'"
  by (simp add: volume_ok_def same_bytes_def)

section \<open>Opening a chunk\<close>

lemma cache_put_get [simp]:
  "map_of (fc_map (cache_put idx f c)) k = (if k = idx then Some (f, fc_next_gen c + 1) else map_of (fc_map c) k)"
  by (simp add: cache_put_def Let_def map_simps)

lemma cache_put_fields [simp]:
  "fc_cap (cache_put idx f c) = fc_cap c" "fc_next_gen (cache_put idx f c) = fc_next_gen c + 1"
  "fc_order (cache_put idx f c) = fc_order c @ [(idx, fc_next_gen c + 1)]"
  by (simp_all add: cache_put_def Let_def)

lemma cache_put_ok: "cache_ok c \<Longrightarrow> cache_ok (cache_put idx f c)"
  by (auto simp: cache_ok_def cache_put_def Let_def map_simps distinct_update split: if_splits)

lemma chunk_open_bytes:
  assumes "(if create then io_bind (make_dirs s) (\<lambda>s _. open_file True path s) else open_file False path s) = (s', r)"
  shows "same_bytes s s' \<and> (\<forall>f. r = IoOk f \<longrightarrow> f = path) \<and> (\<forall>m. r \<noteq> Panicked m) \<and>
    (\<forall>e. r = IoErr (NotFound e) \<longrightarrow> \<not> create \<and> file_content (st_files s) path = [])"
proof (cases create)
  case True
  obtain s1 r1 where md: "make_dirs s = (s1, r1)" by fastforce
  show ?thesis
  proof (cases r1)
    case (IoOk u)
    with assms True md have "open_file True path s1 = (s', r)" by (simp add: io_bind_def)
    from open_file_bytes[OF this] make_dirs_bytes[OF md] show ?thesis
      using True by (auto intro: same_bytes_trans)
  qed (use assms True md make_dirs_bytes[OF md] in \<open>auto simp: io_bind_def\<close>)
next
  case False
  with assms open_file_bytes[of False path s s' r] show ?thesis
    by (auto simp: file_content_def)
qed

text \<open>\<open>chunk_fd\<close> changes no byte, keeps the invariant, and hands out the chunk's own file.\<close>

lemma chunk_fd_props:
  assumes ok: "volume_ok v s" and fd: "chunk_fd v idx create s = (v', s', r)"
  shows "volume_ok v' s' \<and> same_bytes s s' \<and> vo_dir v' = vo_dir v \<and> vo_meta v' = vo_meta v \<and>
    vo_dirty v' = vo_dirty v \<and> fc_cap (vo_fds v') = fc_cap (vo_fds v) \<and>
    (\<forall>f. r = IoOk (Some f) \<longrightarrow> f = chunk_path (vo_dir v) idx \<and> map_of (fc_map (vo_fds v')) idx \<noteq> None) \<and>
    (r = IoOk None \<longrightarrow> \<not> create \<and> idx \<notin> set (vo_dirty v) \<and> file_content (st_files s) (chunk_path (vo_dir v) idx) = [])"
proof (cases "map_of (fc_map (vo_fds v)) idx")
  case (Some x)
  obtain f g where x: "x = (f, g)" by (cases x)
  with Some ok have f: "f = chunk_path (vo_dir v) idx" by (simp add: volume_ok_def)
  have r: "v' = v\<lparr>vo_fds := cache_put idx f (vo_fds v)\<rparr>" "s' = s" "r = IoOk (Some f)"
    using fd Some x by (simp_all add: chunk_fd_def)
  have "volume_ok v' s'" using ok cache_put_ok[of "vo_fds v" idx f]
    by (auto simp: volume_ok_def r f le_SucI split: if_splits)
  then show ?thesis using f by (simp add: r)
next
  case None
  let ?path = "chunk_path (vo_dir v) idx"
  obtain s1 r1 where o: "(if create then io_bind (make_dirs s) (\<lambda>s _. open_file True ?path s)
      else open_file False ?path s) = (s1, r1)" by fastforce
  note bytes = chunk_open_bytes[OF o]
  have notdirty: "idx \<notin> set (vo_dirty v)" using ok None by (auto simp: volume_ok_def)
  show ?thesis
  proof (cases r1)
    case (IoOk f)
    let ?c = "cache_put idx f (vo_fds v)"
    let ?e = "evict (2 * fc_cap ?c) (vo_dirty v) ?c"
    have f: "f = ?path" using bytes IoOk by simp
    have v': "v' = v\<lparr>vo_fds := ?e\<rparr>" "s' = s1"
      and r: "r = (case map_of (fc_map ?e) idx of Some (f, _) \<Rightarrow> IoOk (Some f) | None \<Rightarrow> Panicked ''just inserted'')"
      using fd None o IoOk by (auto simp: chunk_fd_def Let_def split: option.splits prod.splits)
    have "cache_ok ?c" using ok cache_put_ok by (simp add: volume_ok_def)
    note ev = evict_props[OF this, of "2 * fc_cap ?c" "vo_dirty v"]
    have sub: "map_of (fc_map ?c) k = Some y" if "map_of (fc_map ?e) k = Some y" for k y
      using ev that by (metis (no_types, lifting) domI map_le_def)
    have cells: "h = chunk_path (vo_dir v) k \<and> g \<le> fc_next_gen ?e" if "map_of (fc_map ?e) k = Some (h, g)" for k h g
    proof -
      have "fc_next_gen ?e = fc_next_gen (vo_fds v) + 1" using ev by simp
      with sub[OF that] ok f show ?thesis
        by (auto simp: volume_ok_def le_SucI split: if_splits)
    qed
    have dirty: "map_of (fc_map ?e) k \<noteq> None" if "k \<in> set (vo_dirty v)" for k
      using ev that ok notdirty by (auto simp: volume_ok_def)
    have "volume_ok v' s'"
      using ok ev cells dirty volume_ok_same_bytes[of s s1 v] bytes
      by (auto simp: volume_ok_def v' same_bytes_def)
    moreover have "fc_cap ?e = fc_cap (vo_fds v)" using ev by simp
    moreover have "r = IoOk (Some h) \<longrightarrow> h = chunk_path (vo_dir v) idx \<and> map_of (fc_map ?e) idx \<noteq> None" for h
      using cells[of idx] by (auto simp: r split: option.splits)
    moreover have "r \<noteq> IoOk None" by (simp add: r split: option.split)
    ultimately show ?thesis using bytes by (simp add: v')
  next
    case (IoErr e)
    have v': "v' = v" "s' = s1" using fd None o IoErr
      by (auto simp: chunk_fd_def Let_def split: io_error.splits)
    have "r = IoOk None \<longrightarrow> \<not> create \<and> (\<exists>m. e = NotFound m)" "\<forall>f. r \<noteq> IoOk (Some f)"
      using fd None o IoErr by (auto simp: chunk_fd_def Let_def split: io_error.splits if_splits)
    moreover have "volume_ok v s1" using bytes ok by (blast intro: volume_ok_same_bytes)
    ultimately show ?thesis using bytes IoErr notdirty by (simp add: v')
  next
    case (Panicked m)
    with bytes show ?thesis by simp
  qed
qed

text \<open>With no failing call and room beside the dirty chunks, \<open>chunk_fd\<close> returns.\<close>

lemma faultless: "st_faults s = [] \<Longrightarrow> next_fault s = (None, s)"
  by (simp add: next_fault_def)

lemma chunk_fd_returns:
  assumes ok: "volume_ok v s" and faults: "st_faults s = []"
    and room: "card (set (vo_dirty v)) < fc_cap (vo_fds v)"
  obtains v' s' r where "chunk_fd v idx create s = (v', s', IoOk r)" "st_faults s' = []" "create \<longrightarrow> r \<noteq> None"
proof (cases "map_of (fc_map (vo_fds v)) idx")
  case (Some x)
  with that faults show ?thesis by (cases x) (simp add: chunk_fd_def)
next
  case None
  let ?path = "chunk_path (vo_dir v) idx"
  let ?open = "if create then io_bind (make_dirs s) (\<lambda>s _. open_file True ?path s) else open_file False ?path s"
  have "(\<exists>s1. ?open = (s1, IoOk ?path) \<and> st_faults s1 = []) \<or> (\<not> create \<and> (\<exists>e. ?open = (s, IoErr (NotFound e))))"
    by (cases "map_of (st_files s) ?path") (simp_all add: io_bind_def make_dirs_def open_file_def faultless faults)
  then show ?thesis
  proof (elim disjE exE conjE)
    fix s1 assume o: "?open = (s1, IoOk ?path)" and s1: "st_faults s1 = []"
    let ?c = "cache_put idx ?path (vo_fds v)"
    let ?g = "fc_next_gen (vo_fds v) + 1"
    have "map_of (fc_map (evict (2 * fc_cap ?c) (vo_dirty v) ?c)) idx = Some (?path, ?g)"
    proof (rule evict_keeps[where xs = "fc_order (vo_fds v)" and ys = "[]"])
      show "cache_ok ?c" using ok by (simp add: volume_ok_def cache_put_ok)
      show "(idx, ?g) \<notin> set (fc_order (vo_fds v))" using ok by (auto simp: volume_ok_def cache_ok_def)
      show "\<forall>k f' g'. map_of (fc_map ?c) k = Some (f', g') \<longrightarrow> k \<noteq> idx \<longrightarrow>
          k \<in> set (vo_dirty v) \<or> (k, g') \<in> set (fc_order (vo_fds v))"
        using ok by (auto simp: volume_ok_def cache_ok_def)
    qed (use room in simp_all)
    with None o s1 that show ?thesis by (simp add: chunk_fd_def Let_def)
  next
    fix e assume "\<not> create" "?open = (s, IoErr (NotFound e))"
    with None faults that show ?thesis by (simp add: chunk_fd_def)
  qed
qed

section \<open>One request\<close>

text \<open>The part of a request that falls into one chunk.\<close>

lemma piece_bounds:
  fixes chunk pos len off ab n i :: nat
  assumes "0 < chunk" "pos < len" "ab = off + pos"
    and n: "n = min (chunk - ab mod chunk) (len - pos)"
  shows "0 < n" "pos + n \<le> len"
    "ab \<le> i \<and> i < ab + n \<longleftrightarrow> i div chunk = ab div chunk \<and> ab mod chunk \<le> i mod chunk \<and> i mod chunk < ab mod chunk + n"
    "ab \<le> i \<and> i < ab + n \<Longrightarrow> i mod chunk - ab mod chunk = i - ab"
proof -
  have m: "ab mod chunk < chunk" using assms(1) by simp
  then show "0 < n" "pos + n \<le> len" using assms(2) n by auto
  have fit: "ab mod chunk + n \<le> chunk" using m n by simp
  have a: "ab = ab div chunk * chunk + ab mod chunk" by simp
  show both: "ab \<le> i \<and> i < ab + n \<longleftrightarrow> i div chunk = ab div chunk \<and> ab mod chunk \<le> i mod chunk \<and> i mod chunk < ab mod chunk + n"
  proof
    assume i: "ab \<le> i \<and> i < ab + n"
    then have "i = ab div chunk * chunk + (ab mod chunk + (i - ab))" using a by linarith
    moreover have "ab mod chunk + (i - ab) < chunk" using i fit by linarith
    ultimately have "i div chunk = ab div chunk" "i mod chunk = ab mod chunk + (i - ab)"
      by (metis div_mult_self3 div_less add.right_neutral assms(1) less_not_refl2, metis mod_mult_self3 mod_less)
    with i show "i div chunk = ab div chunk \<and> ab mod chunk \<le> i mod chunk \<and> i mod chunk < ab mod chunk + n"
      by linarith
  next
    assume i: "i div chunk = ab div chunk \<and> ab mod chunk \<le> i mod chunk \<and> i mod chunk < ab mod chunk + n"
    have "i = i div chunk * chunk + i mod chunk" by simp
    with i a show "ab \<le> i \<and> i < ab + n" by (metis add.assoc add_le_cancel_left add_less_cancel_left)
  qed
  assume i: "ab \<le> i \<and> i < ab + n"
  then have "i div chunk = ab div chunk" "ab mod chunk \<le> i mod chunk" using both by blast+
  moreover have "i = i div chunk * chunk + i mod chunk" by simp
  ultimately show "i mod chunk - ab mod chunk = i - ab" using a by (metis add_diff_cancel_left)
qed

lemma disk_same_bytes: "same_bytes s s' \<Longrightarrow> disk dir chunk (st_files s') = disk dir chunk (st_files s)"
  by (simp add: disk_def same_bytes_def fun_eq_iff)

lemma disk_write:
  assumes "0 < chunk" "pos < length buf" "ab = off + pos"
    and "n = min (chunk - ab mod chunk) (length buf - pos)"
    and "files' = AList.update (chunk_path dir (ab div chunk))
      (splice (file_content files (chunk_path dir (ab div chunk))) (ab mod chunk) (take n (drop pos buf))) files"
  shows "disk dir chunk files' i = (if ab \<le> i \<and> i < ab + n then buf ! (i - off) else disk dir chunk files i)"
proof -
  note b = piece_bounds[OF assms(1-4)]
  have len: "min (length buf - pos) n = n" using b(2) by simp
  show ?thesis
  proof (cases "ab \<le> i \<and> i < ab + n")
    case True
    with b(3)[of i] b(4)[of i] b(2) have "take n (drop pos buf) ! (i mod chunk - ab mod chunk) = buf ! (i - off)"
      using assms(3) by (simp add: less_diff_conv2)
    moreover have "i div chunk = ab div chunk" using True b(3) by blast
    ultimately show ?thesis using True b(3)[of i]
      by (simp add: disk_def assms(5) file_content_update splice_byte len)
  next
    case False
    with b(3)[of i] show ?thesis
      by (auto simp: disk_def assms(5) file_content_update splice_byte len chunk_path_inj)
  qed
qed

text \<open>One round of the loop, inside the word.\<close>

lemma io_loop_step:
  assumes "0 < vm_chunk_size meta" "pos < len" "off + len < 2 ^ 64" "ab = off + pos"
    and "n = min (vm_chunk_size meta - ab mod vm_chunk_size meta) (len - pos)"
  shows "io_loop wr meta off len pos v s buf =
      (case chunk_fd v (ab div vm_chunk_size meta) wr s of
             (v1, s1, IoErr e) \<Rightarrow> (v1, s1, IoErr e)
           | (v1, s1, Panicked m) \<Rightarrow> (v1, s1, Panicked m)
           | (v1, s1, IoOk None) \<Rightarrow> io_loop wr meta off len (pos + n) v1 s1 buf
           | (v1, s1, IoOk (Some file)) \<Rightarrow>
               if wr then
                 (case write_all_at file (take n (drop pos buf)) (ab mod vm_chunk_size meta) s1 of
                    (s2, IoErr e) \<Rightarrow> (v1, s2, IoErr e)
                  | (s2, Panicked m) \<Rightarrow> (v1, s2, Panicked m)
                  | (s2, IoOk _) \<Rightarrow>
                      io_loop wr meta off len (pos + n)
                        (v1\<lparr>vo_dirty := List.insert (ab div vm_chunk_size meta) (vo_dirty v1)\<rparr>) s2 buf)
               else
                 (case read_at file (take n (drop pos buf)) (ab mod vm_chunk_size meta) s1 of
                    (s2, IoErr e) \<Rightarrow> (v1, s2, IoErr e)
                  | (s2, Panicked m) \<Rightarrow> (v1, s2, Panicked m)
                  | (s2, IoOk got) \<Rightarrow>
                      io_loop wr meta off len (pos + n) v1 s2 (take pos buf @ got @ drop (pos + n) buf)))"
proof -
  have "(vm_chunk_size meta = 0) = False" "(len \<le> pos) = False" using assms(1,2) by simp_all
  moreover have "(off + pos) mod 2 ^ 64 = ab" using assms(2-4) by simp
  ultimately show ?thesis
    unfolding io_loop.simps[of wr meta off len pos v s buf] assms(5) by (simp only: if_False Let_def)
qed

lemma io_loop_write:
  assumes "io_loop True meta off len pos v s buf = (v', s', r)"
    and "volume_ok v s" "meta = vo_meta v" "off + len < 2 ^ 64" "len = length buf" "pos \<le> len"
  shows "vo_meta v' = vo_meta v \<and> vo_dir v' = vo_dir v \<and>
    (\<forall>b. r = IoOk b \<longrightarrow> b = buf \<and> volume_ok v' s' \<and>
      vol_disk v' s' = (\<lambda>i. if off + pos \<le> i \<and> i < off + len then buf ! (i - off) else vol_disk v s i))"
  using assms
proof (induction "len - pos" arbitrary: pos v s rule: less_induct)
  case less
  let ?chunk = "vm_chunk_size meta"
  have chunk: "0 < ?chunk" using less.prems(2,3) by (simp add: volume_ok_def)
  show ?case
  proof (cases "len \<le> pos")
    case True
    with less.prems chunk have "v' = v" "s' = s" "r = IoOk buf" "pos = len"
      by (simp_all add: io_loop.simps)
    with less.prems show ?thesis by (auto simp: fun_eq_iff)
  next
    case False
    define ab where "ab = off + pos"
    define n where "n = min (?chunk - ab mod ?chunk) (len - pos)"
    let ?idx = "ab div ?chunk"
    have pos: "pos < len" using False by simp
    note b = piece_bounds[OF chunk pos ab_def n_def]
    obtain v1 s1 q where fd: "chunk_fd v ?idx True s = (v1, s1, q)" by (cases "chunk_fd v ?idx True s")
    note props = chunk_fd_props[OF less.prems(2) fd]
    note unfold = io_loop_step[OF chunk pos less.prems(4) ab_def n_def, of True v s buf]
    show ?thesis
    proof (cases "\<exists>f. q = IoOk (Some f)")
      case stop: False
      have "q \<noteq> IoOk None" using props by simp
      with stop have "(\<exists>e. q = IoErr e) \<or> (\<exists>m. q = Panicked m)" by (cases q) (metis option.exhaust, auto)
      with less.prems(1) fd unfold have "(\<forall>b. r \<noteq> IoOk b) \<and> v' = v1" by auto
      with props show ?thesis by simp
    next
      case True
      then have q: "q = IoOk (Some (chunk_path (vo_dir v) ?idx))" using props by auto
      obtain s2 w where wr: "write_all_at (chunk_path (vo_dir v) ?idx) (take n (drop pos buf)) (ab mod ?chunk) s1 = (s2, w)"
        by fastforce
      show ?thesis
      proof (cases "w = IoOk ()")
        case fail: False
        then have "\<not> (\<exists>b. r = IoOk b) \<and> v' = v1" using less.prems(1) fd q wr unfold
          by (auto split: io.splits)
        with props show ?thesis by auto
      next
        case written: True
        let ?v2 = "v1\<lparr>vo_dirty := List.insert ?idx (vo_dirty v1)\<rparr>"
        have rest: "io_loop True meta off len (pos + n) ?v2 s2 buf = (v', s', r)"
          using less.prems(1) fd q wr written unfold by simp
        have files: "st_files s2 = AList.update (chunk_path (vo_dir v) ?idx)
            (splice (file_content (st_files s1) (chunk_path (vo_dir v) ?idx)) (ab mod ?chunk) (take n (drop pos buf))) (st_files s1)"
          and dur: "st_durable s2 = st_durable s1"
          using wr written next_fault_store[of s1] by (auto simp: write_all_at_def split: prod.splits option.splits)
        have ok2: "volume_ok ?v2 s2"
          using props q by (auto simp: volume_ok_def files dur file_content_update chunk_path_inj)
        have IH: "vo_meta v' = vo_meta ?v2 \<and> vo_dir v' = vo_dir ?v2 \<and>
          (\<forall>b. r = IoOk b \<longrightarrow> b = buf \<and> volume_ok v' s' \<and>
           vol_disk v' s' = (\<lambda>i. if off + (pos + n) \<le> i \<and> i < off + len then buf ! (i - off) else vol_disk ?v2 s2 i))"
          using b(1,2) pos less.prems(3-5) props by (intro less.hyps[OF _ rest ok2]) auto
        have "disk (vo_dir v) ?chunk (st_files s2) i =
            (if ab \<le> i \<and> i < ab + n then buf ! (i - off) else disk (vo_dir v) ?chunk (st_files s1) i)" for i
          using pos less.prems(5) by (intro disk_write[OF chunk _ ab_def _ files]) (simp_all add: n_def)
        then have "vol_disk ?v2 s2 i = (if ab \<le> i \<and> i < ab + n then buf ! (i - off) else vol_disk v s i)" for i
          using props less.prems(3) disk_same_bytes[of s s1 "vo_dir v" ?chunk] by simp
        with IH props b(2) show ?thesis by (auto simp: fun_eq_iff ab_def)
      qed
    qed
  qed
qed

text \<open>What a read leaves in the buffer: the file's bytes over zeros.\<close>

lemma read_at_bytes:
  assumes "read_at path part off s = (s', r)" "part = replicate (length part) 0"
  shows "same_bytes s s' \<and> (\<forall>got. r = IoOk got \<longrightarrow>
    length got = length part \<and> (\<forall>j < length part. got ! j = byte_at (file_content (st_files s) path) (off + j))) \<and>
    (\<forall>m. r \<noteq> Panicked m)"
proof -
  have zero: "part ! j = 0" if "j < length part" for j
    using that by (subst assms(2)) simp
  show ?thesis
    using assms(1) next_fault_store[of s] zero
    by (auto simp: read_at_def Let_def same_bytes_def byte_at_def nth_append
        split: prod.splits option.splits)
qed

lemma disk_piece:
  assumes "0 < chunk" "pos < len" "ab = off + pos" "n = min (chunk - ab mod chunk) (len - pos)" "j < n"
  shows "byte_at (file_content files (chunk_path dir (ab div chunk))) (ab mod chunk + j) = disk dir chunk files (ab + j)"
proof -
  have "ab \<le> ab + j \<and> ab + j < ab + n" using assms(5) by simp
  with piece_bounds(3,4)[OF assms(1-4), of "ab + j"]
  have "(ab + j) div chunk = ab div chunk" "(ab + j) mod chunk = ab mod chunk + j" by auto
  then show ?thesis by (simp add: disk_def)
qed

lemma io_loop_read:
  assumes "io_loop False meta off len pos v s buf = (v', s', r)"
    and "volume_ok v s" "meta = vo_meta v" "off + len < 2 ^ 64" "len = length buf" "pos \<le> len"
    and "\<forall>j < len. buf ! j = (if j < pos then vol_disk v s (off + j) else 0)"
  shows "volume_ok v' s' \<and> vo_meta v' = vo_meta v \<and> vo_dir v' = vo_dir v \<and> vo_dirty v' = vo_dirty v \<and>
    same_bytes s s' \<and> (\<forall>b. r = IoOk b \<longrightarrow> b = map (\<lambda>j. vol_disk v s (off + j)) [0..<len])"
  using assms
proof (induction "len - pos" arbitrary: pos v s buf rule: less_induct)
  case less
  let ?chunk = "vm_chunk_size meta"
  have chunk: "0 < ?chunk" using less.prems(2,3) by (simp add: volume_ok_def)
  show ?case
  proof (cases "len \<le> pos")
    case True
    then have r: "v' = v" "s' = s" "r = IoOk buf" "pos = len"
      using less.prems(1,6) chunk by (simp_all add: io_loop.simps)
    have "buf = map (\<lambda>j. vol_disk v s (off + j)) [0..<len]"
      using less.prems(5,7) r(4) by (intro nth_equalityI) simp_all
    with less.prems(2) r show ?thesis by simp
  next
    case False
    define ab where "ab = off + pos"
    define n where "n = min (?chunk - ab mod ?chunk) (len - pos)"
    let ?idx = "ab div ?chunk" and ?part = "take n (drop pos buf)"
    have pos: "pos < len" using False by simp
    note b = piece_bounds[OF chunk pos ab_def n_def]
    have part: "length ?part = n" "?part = replicate (length ?part) 0"
      using b(2) less.prems(5,7) by (auto intro!: nth_equalityI)
    obtain v1 s1 q where fd: "chunk_fd v ?idx False s = (v1, s1, q)" by (cases "chunk_fd v ?idx False s")
    note props = chunk_fd_props[OF less.prems(2) fd]
    have same: "vol_disk v1 s1 = vol_disk v s"
      using props disk_same_bytes[of s s1 "vo_dir v" "vm_chunk_size (vo_meta v)"] by simp
    note unfold = io_loop_step[OF chunk pos less.prems(4) ab_def n_def, of False v s buf]
    have "(\<exists>e. q = IoErr e \<or> (\<exists>m. q = Panicked m)) \<or> q = IoOk None \<or> q = IoOk (Some (chunk_path (vo_dir v) ?idx))"
      using props by (cases q) (metis option.exhaust, auto)
    then show ?thesis
    proof (elim disjE exE)
      fix e assume "q = IoErr e"
      with less.prems(1) fd unfold have "v' = v1" "s' = s1" "\<forall>b. r \<noteq> IoOk b" by auto
      with props show ?thesis by simp
    next
      fix m assume "q = Panicked m"
      with less.prems(1) fd unfold have "v' = v1" "s' = s1" "\<forall>b. r \<noteq> IoOk b" by auto
      with props show ?thesis by simp
    next
      assume q: "q = IoOk None"
      then have rest: "io_loop False meta off len (pos + n) v1 s1 buf = (v', s', r)"
        using less.prems(1) fd unfold by simp
      have zero: "vol_disk v s (ab + j) = 0" if "j < n" for j
        using disk_piece[OF chunk pos ab_def n_def that, of "st_files s" "vo_dir v"] props q less.prems(3)
        by (simp add: byte_at_def)
      have "\<forall>j < len. buf ! j = (if j < pos + n then vol_disk v1 s1 (off + j) else 0)"
      proof (intro allI impI)
        fix j assume j: "j < len"
        show "buf ! j = (if j < pos + n then vol_disk v1 s1 (off + j) else 0)"
        proof (cases "j < pos \<or> pos + n \<le> j")
          case True
          with j less.prems(7) same show ?thesis by auto
        next
          case False
          then have "j - pos < n" "ab + (j - pos) = off + j" by (auto simp: ab_def)
          with zero[of "j - pos"] False j less.prems(7) same show ?thesis by simp
        qed
      qed
      moreover have "len - (pos + n) < len - pos" using b(1) pos by simp
      ultimately have "volume_ok v' s' \<and> vo_meta v' = vo_meta v1 \<and> vo_dir v' = vo_dir v1 \<and> vo_dirty v' = vo_dirty v1 \<and>
          same_bytes s1 s' \<and> (\<forall>b. r = IoOk b \<longrightarrow> b = map (\<lambda>j. vol_disk v1 s1 (off + j)) [0..<len])"
        using rest props less.prems(3-5) b(2) by (intro less.hyps) simp_all
      with props same same_bytes_trans[of s s1 s'] show ?thesis by simp
    next
      assume q: "q = IoOk (Some (chunk_path (vo_dir v) ?idx))"
      obtain s2 w where rd: "read_at (chunk_path (vo_dir v) ?idx) ?part (ab mod ?chunk) s1 = (s2, w)" by fastforce
      note got = read_at_bytes[OF rd part(2)]
      have ok2: "volume_ok v1 s2" using props got by (blast intro: volume_ok_same_bytes)
      have same2: "same_bytes s s2" "vol_disk v1 s2 = vol_disk v s"
        using props got same disk_same_bytes[of s1 s2 "vo_dir v1" "vm_chunk_size (vo_meta v1)"]
        by (blast intro: same_bytes_trans, simp)
      show ?thesis
      proof (cases w)
        case (IoOk g)
        let ?buf = "take pos buf @ g @ drop (pos + n) buf"
        have rest: "io_loop False meta off len (pos + n) v1 s2 ?buf = (v', s', r)"
          using less.prems(1) fd q rd IoOk unfold by simp
        have g: "length g = n" "\<And>j. j < n \<Longrightarrow> g ! j = vol_disk v s (ab + j)"
          using got IoOk part(1) disk_piece[OF chunk pos ab_def n_def, of _ "st_files s1" "vo_dir v"] same props less.prems(3)
          by auto
        have "\<forall>j < len. ?buf ! j = (if j < pos + n then vol_disk v1 s2 (off + j) else 0)"
        proof (intro allI impI)
          fix j assume j: "j < len"
          consider "j < pos" | "pos \<le> j" "j < pos + n" | "pos + n \<le> j" by linarith
          then show "?buf ! j = (if j < pos + n then vol_disk v1 s2 (off + j) else 0)"
          proof cases
            case 1
            with j less.prems(5,7) same2 show ?thesis by (simp add: nth_append)
          next
            case 2
            then have "ab + (j - pos) = off + j" "j - pos < n" by (auto simp: ab_def)
            with 2 j less.prems(5) g same2 pos show ?thesis by (simp add: nth_append)
          next
            case 3
            then have "\<not> j - pos < n" by linarith
            with 3 j less.prems(5,7) g(1) pos show ?thesis by (simp add: nth_append)
          qed
        qed
        moreover have "len = length ?buf" using g(1) b(2) less.prems(5) by simp
        moreover have "len - (pos + n) < len - pos" using b(1) pos by simp
        ultimately have "volume_ok v' s' \<and> vo_meta v' = vo_meta v1 \<and> vo_dir v' = vo_dir v1 \<and> vo_dirty v' = vo_dirty v1 \<and>
            same_bytes s2 s' \<and> (\<forall>b. r = IoOk b \<longrightarrow> b = map (\<lambda>j. vol_disk v1 s2 (off + j)) [0..<len])"
          using rest ok2 props less.prems(3,4) b(2) by (intro less.hyps) simp_all
        with props same2 same_bytes_trans[of s s2 s'] show ?thesis by simp
      next
        case (IoErr e)
        with less.prems(1) fd q rd unfold have "v' = v1" "s' = s2" "\<forall>b. r \<noteq> IoOk b" by auto
        with props ok2 same2 show ?thesis by simp
      next
        case (Panicked m)
        with got show ?thesis by simp
      qed
    qed
  qed
qed

section \<open>Flushing\<close>

lemma file_bytes_fun: "same_bytes s s' \<Longrightarrow> file_content (st_files s') = file_content (st_files s)"
  by (simp add: same_bytes_def)

lemma flush_group_props:
  assumes "flush_group g v s = (v', s', r)" "volume_ok v s" "set g \<subseteq> set (vo_dirty v)" "distinct g"
  shows "volume_ok v' s' \<and> vo_dir v' = vo_dir v \<and> vo_meta v' = vo_meta v \<and>
    file_content (st_files s') = file_content (st_files s) \<and>
    set (vo_dirty v) - set g \<subseteq> set (vo_dirty v') \<and> set (vo_dirty v') \<subseteq> set (vo_dirty v) \<and>
    (r = IoOk () \<longrightarrow> set (vo_dirty v') = set (vo_dirty v) - set g)"
  using assms
proof (induction g arbitrary: v s)
  case (Cons idx g)
  obtain v1 s1 q where fd: "chunk_fd v idx False s = (v1, s1, q)" by (cases "chunk_fd v idx False s")
  note props = chunk_fd_props[OF Cons.prems(2) fd]
  note same = file_bytes_fun[of s s1]
  have q: "q \<noteq> IoOk None" using props Cons.prems(3) by auto
  show ?case
  proof (cases "\<exists>f. q = IoOk (Some f)")
    case False
    with q have "(\<exists>e. q = IoErr e) \<or> (\<exists>m. q = Panicked m)" by (cases q) (metis option.exhaust, auto)
    with Cons.prems(1) fd have "v' = v1 \<and> s' = s1 \<and> r \<noteq> IoOk ()" by auto
    with props same Cons.prems(3) show ?thesis by auto
  next
    case True
    then have f: "q = IoOk (Some (chunk_path (vo_dir v) idx))" using props by auto
    obtain s2 w where sy: "sync_data (chunk_path (vo_dir v) idx) s1 = (s2, w)" by fastforce
    have files: "st_files s2 = st_files s1"
      using sy next_fault_store[of s1] by (auto simp: sync_data_def split: prod.splits option.splits)
    show ?thesis
    proof (cases "w = IoOk ()")
      case False
      with sy have w: "\<exists>e. w = IoErr e" and dur: "st_durable s2 = st_durable s1"
        using next_fault_store[of s1] by (auto simp: sync_data_def split: prod.splits option.splits)
      with Cons.prems(1) fd f sy have r: "v' = v1 \<and> s' = s2 \<and> r \<noteq> IoOk ()" by auto
      have "volume_ok v1 s2" using props volume_ok_same_bytes[of s1 s2 v1] files dur by (simp add: same_bytes_def)
      with r props same files Cons.prems(3) show ?thesis by auto
    next
      case True
      let ?v2 = "v1\<lparr>vo_dirty := remove1 idx (vo_dirty v1)\<rparr>"
      have dur: "st_durable s2 = AList.update (chunk_path (vo_dir v) idx)
          (file_content (st_files s1) (chunk_path (vo_dir v) idx)) (st_durable s1)"
        using sy True next_fault_store[of s1] by (auto simp: sync_data_def split: prod.splits option.splits)
      have rest: "flush_group g ?v2 s2 = (v', s', r)" using Cons.prems(1) fd f sy True by simp
      have d: "distinct (vo_dirty v)" using Cons.prems(2) by (simp add: volume_ok_def)
      have "volume_ok ?v2 s2"
        using props d by (auto simp: volume_ok_def files dur file_content_update chunk_path_inj set_remove1_eq)
      moreover have "set g \<subseteq> set (vo_dirty ?v2)" "distinct g"
        using Cons.prems(3,4) props d by (auto simp: set_remove1_eq)
      ultimately have "volume_ok v' s' \<and> vo_dir v' = vo_dir ?v2 \<and> vo_meta v' = vo_meta ?v2 \<and>
          file_content (st_files s') = file_content (st_files s2) \<and>
          set (vo_dirty ?v2) - set g \<subseteq> set (vo_dirty v') \<and> set (vo_dirty v') \<subseteq> set (vo_dirty ?v2) \<and>
          (r = IoOk () \<longrightarrow> set (vo_dirty v') = set (vo_dirty ?v2) - set g)"
        by (intro Cons.IH[OF rest])
      with props same files d show ?thesis by (auto simp: set_remove1_eq)
    qed
  qed
qed auto

lemma first_error_ok: "first_error rs = IoOk () \<longleftrightarrow> (\<forall>r \<in> set rs. r = IoOk ())"
  by (induction rs rule: first_error.induct) (auto split: io.splits)

lemma flush_groups_props:
  assumes "flush_groups gs v s = (v', s', rs)" "volume_ok v s" "set (concat gs) \<subseteq> set (vo_dirty v)"
    "distinct (concat gs)"
  shows "volume_ok v' s' \<and> vo_dir v' = vo_dir v \<and> vo_meta v' = vo_meta v \<and>
    file_content (st_files s') = file_content (st_files s) \<and>
    set (vo_dirty v') \<subseteq> set (vo_dirty v) \<and>
    ((\<forall>r \<in> set rs. r = IoOk ()) \<longrightarrow> set (vo_dirty v') = set (vo_dirty v) - set (concat gs))"
  using assms
proof (induction gs arbitrary: v s rs)
  case (Cons g gs)
  obtain v1 s1 r where g: "flush_group g v s = (v1, s1, r)" by (cases "flush_group g v s")
  obtain rs' where rest: "flush_groups gs v1 s1 = (v', s', rs')" and rs: "rs = r # rs'"
    using Cons.prems(1) g by (auto simp: Let_def split: prod.splits)
  note one = flush_group_props[OF g Cons.prems(2)]
  have sub: "set g \<subseteq> set (vo_dirty v)" "distinct g" using Cons.prems(3,4) by auto
  have "set (concat gs) \<subseteq> set (vo_dirty v1)" using one[OF sub] Cons.prems(3,4) by auto
  with Cons.IH[OF rest] one[OF sub] Cons.prems(4) rs show ?case by (auto simp: Diff_eq)
qed simp

lemma deal_set: "0 < n \<Longrightarrow> set (concat (deal n xs)) = set xs"
proof -
  assume n: "0 < n"
  have "set (concat (deal n xs)) = snd ` {p \<in> set (enumerate 0 xs). fst p mod n < n}"
    by (force simp: deal_def)
  also have "{p \<in> set (enumerate 0 xs). fst p mod n < n} = set (enumerate 0 xs)" using n by simp
  also have "snd ` set (enumerate 0 xs) = set (map snd (enumerate 0 xs))" by (simp only: set_map)
  also have "map snd (enumerate 0 xs) = xs" by simp
  finally show "set (concat (deal n xs)) = set xs" .
qed

lemma deal_distinct: "distinct xs \<Longrightarrow> distinct (concat (deal n xs))"
proof -
  assume d: "distinct xs"
  let ?part = "\<lambda>k. map snd (filter (\<lambda>(i, _). i mod n = k) (enumerate 0 xs))"
  have snd_inj: "i = j" if "(i, x) \<in> set (enumerate 0 xs)" "(j, x) \<in> set (enumerate 0 xs)" for i j x
    using that d by (auto simp: in_set_enumerate_eq nth_eq_iff_index_eq)
  have each: "distinct (?part k)" for k
  proof -
    have "distinct (map snd (enumerate 0 xs))" using d by simp
    then show ?thesis by (rule distinct_map_filter)
  qed
  have apart: "k = l" if "x \<in> set (?part k)" "x \<in> set (?part l)" for k l x
    using that by clarsimp (metis snd_inj)
  have "distinct (concat (map ?part [0..<n]))"
  proof (rule distinct_concat_map)
    show "distinct (map (\<lambda>k. k) [0..<n])" by simp
    show "distinct (?part k)" for k by (rule each)
    show "k = l" if "x \<in> set (?part k)" "x \<in> set (?part l)" for k l x using that by (rule apart)
  qed
  then show ?thesis by (simp add: deal_def)
qed

lemma flush_props:
  assumes "flush v s = (v', s', r)" "volume_ok v s"
  shows "volume_ok v' s' \<and> vo_dir v' = vo_dir v \<and> vo_meta v' = vo_meta v \<and>
    file_content (st_files s') = file_content (st_files s) \<and> set (vo_dirty v') \<subseteq> set (vo_dirty v) \<and>
    (r = IoOk () \<longrightarrow> vo_dirty v' = [])"
proof (cases "vo_dirty v = []")
  case True
  with assms show ?thesis by (simp add: flush_def)
next
  case False
  let ?gs = "deal (min FLUSH_THREADS (length (vo_dirty v))) (vo_dirty v)"
  obtain rs where g: "flush_groups ?gs v s = (v', s', rs)" and r: "r = first_error rs"
    using assms(1) False by (auto simp: flush_def Let_def split: prod.splits)
  have n: "0 < min FLUSH_THREADS (length (vo_dirty v))" using False by (simp add: FLUSH_THREADS_def)
  have "distinct (vo_dirty v)" using assms(2) by (simp add: volume_ok_def)
  with flush_groups_props[OF g assms(2)] deal_set[OF n, of "vo_dirty v"] deal_distinct
  show ?thesis by (auto simp: r first_error_ok)
qed

end
