(* ===== verification/VolumeSpec.thy ===== *)
theory VolumeSpec
  imports Volume
begin

text \<open>
  What a volume promises (\<open>hostd/src/storage/volume.rs\<close>): it is a flat array of bytes, a completed
  flush makes every byte durable, and its calls return.  The last part shows the two cases in which
  the code breaks the promise: a cache full of dirty handles, and a write that slips between the
  two halves of a flush on another queue.
\<close>

section \<open>A volume is a flat array\<close>

definition request_ok :: "volume \<Rightarrow> nat \<Rightarrow> bytes \<Rightarrow> bool" where
  "request_ok v off buf \<longleftrightarrow>
     off mod 512 = 0 \<and> length buf mod 512 = 0 \<and> off + length buf \<le> vm_size_bytes (vo_meta v)"

text \<open>The specification: what a request does to the array, and what it returns.\<close>

definition array_request :: "bool \<Rightarrow> nat \<Rightarrow> bytes \<Rightarrow> (nat \<Rightarrow> u8) \<Rightarrow> (nat \<Rightarrow> u8) \<times> bytes" where
  "array_request write off buf a =
     (if write then (\<lambda>i. if off \<le> i \<and> i < off + length buf then buf ! (i - off) else a i, buf)
      else (a, map (\<lambda>j. a (off + j)) [0..<length buf]))"

lemma do_io_cases:
  assumes "off + length buf < 2 ^ 64"
  shows "do_io write off buf v s =
    (if \<not> request_ok v off buf then (v, s, IoErr (InvalidInput ''unaligned or out of range''))
     else case io_loop write (vo_meta v) off (length buf) 0 v s (if write then buf else replicate (length buf) 0) of
             (v', s', IoOk buf') \<Rightarrow> (v', s', IoOk (buf', length buf))
           | (v', s', IoErr e) \<Rightarrow> (v', s', IoErr e)
           | (v', s', Panicked m) \<Rightarrow> (v', s', Panicked m))"
proof -
  have "(off + length buf) mod 2 ^ 64 = off + length buf" using assms by simp
  then show ?thesis
    unfolding do_io_def Let_def request_ok_def by (simp only: not_less[symmetric] de_Morgan_conj simp_thms)
qed

lemma io_loop_array:
  assumes "volume_ok v s" "off + length buf < 2 ^ 64"
    and "io_loop write (vo_meta v) off (length buf) 0 v s (if write then buf else replicate (length buf) 0) = (v', s', IoOk b)"
  shows "volume_ok v' s' \<and> (vol_disk v' s', b) = array_request write off buf (vol_disk v s)"
proof (cases "write")
  case True
  with assms(3) have "io_loop True (vo_meta v) off (length buf) 0 v s buf = (v', s', IoOk b)" by simp
  note wrote = io_loop_write[OF this assms(1) refl assms(2) refl, unfolded add_0_right]
  then have "b = buf" "volume_ok v' s'"
    "vol_disk v' s' = (\<lambda>i. if off \<le> i \<and> i < off + length buf then buf ! (i - off) else vol_disk v s i)"
    by blast+
  then show ?thesis by (simp only: array_request_def True if_True simp_thms)
next
  case False
  with assms(3) have "io_loop False (vo_meta v) off (length buf) 0 v s (replicate (length buf) 0) = (v', s', IoOk b)"
    by simp
  from io_loop_read[OF this assms(1) refl] assms(2)
  have "volume_ok v' s' \<and> vo_meta v' = vo_meta v \<and> vo_dir v' = vo_dir v \<and> same_bytes s s' \<and>
      b = map (\<lambda>j. vol_disk v s (off + j)) [0..<length buf]"
    by simp
  then show ?thesis by (simp add: array_request_def False disk_same_bytes[of s s'])
qed


section \<open>Requests return\<close>

text \<open>The chunks a request touches.\<close>

definition touched :: "volume \<Rightarrow> nat \<Rightarrow> nat \<Rightarrow> nat set" where
  "touched v off len = {off div vm_chunk_size (vo_meta v)..(off + len - 1) div vm_chunk_size (vo_meta v)}"

lemma chunk_fd_returns_cached:
  assumes "volume_ok v s" "st_faults s = []" "card (insert idx (set (vo_dirty v))) \<le> fc_cap (vo_fds v)"
  obtains v' s' r where "chunk_fd v idx create s = (v', s', IoOk r)" "st_faults s' = []" "create \<longrightarrow> r \<noteq> None"
proof (cases "map_of (fc_map (vo_fds v)) idx")
  case (Some x)
  with that assms(2) show ?thesis by (cases x) (simp add: chunk_fd_def)
next
  case None
  then have "idx \<notin> set (vo_dirty v)" using assms(1) by (auto simp: volume_ok_def)
  then have "card (set (vo_dirty v)) < fc_cap (vo_fds v)" using assms(3) by simp
  from chunk_fd_returns[OF assms(1,2) this] that show ?thesis by metis
qed

text \<open>What a request on a disk whose calls work leaves as it was.\<close>

definition io_kept :: "volume \<Rightarrow> store \<Rightarrow> nat set \<Rightarrow> volume \<Rightarrow> store \<Rightarrow> bool" where
  "io_kept v s T v' s' \<longleftrightarrow> st_faults s' = [] \<and> st_durable s' = st_durable s \<and> vo_dir v' = vo_dir v \<and>
     vo_meta v' = vo_meta v \<and> fc_cap (vo_fds v') = fc_cap (vo_fds v) \<and> set (vo_dirty v') \<subseteq> set (vo_dirty v) \<union> T"

lemma io_kept_trans: "io_kept v s T v1 s1 \<Longrightarrow> io_kept v1 s1 T v2 s2 \<Longrightarrow> io_kept v s T v2 s2"
  by (auto simp: io_kept_def)

text \<open>It also leaves the cache's size and the durable bytes alone, and makes dirty only chunks it touches.\<close>

lemma io_loop_completes:
  assumes "volume_ok v s" "meta = vo_meta v" "st_faults s = []" "off + len < 2 ^ 64" "pos \<le> len"
    and "card (set (vo_dirty v) \<union> touched v off len) \<le> fc_cap (vo_fds v)"
  shows "\<exists>v' s' b. io_loop wr meta off len pos v s buf = (v', s', IoOk b) \<and> io_kept v s (touched v off len) v' s'"
  using assms
proof (induction "len - pos" arbitrary: pos v s buf rule: less_induct)
  case less
  let ?chunk = "vm_chunk_size meta"
  have chunk: "0 < ?chunk" using less.prems(1,2) by (simp add: volume_ok_def)
  show ?case
  proof (cases "len \<le> pos")
    case True
    with chunk less.prems(3) show ?thesis by (simp add: io_loop.simps io_kept_def)
  next
    case False
    define ab where "ab = off + pos"
    define n where "n = min (?chunk - ab mod ?chunk) (len - pos)"
    have pos: "pos < len" using False by simp
    note unfold = io_loop_step[OF chunk pos less.prems(4) ab_def n_def, of wr v s buf]
    note b = piece_bounds[OF chunk pos ab_def n_def]
    let ?idx = "ab div ?chunk" and ?T = "touched v off len"
    have "off div ?chunk \<le> ?idx" "?idx \<le> (off + len - 1) div ?chunk"
      using pos by (auto simp: ab_def intro!: div_le_mono)
    then have idx: "?idx \<in> ?T" using less.prems(2) by (simp add: touched_def)
    have fin: "finite (set (vo_dirty v) \<union> ?T)" by (simp add: touched_def)
    have "card (insert ?idx (set (vo_dirty v))) \<le> card (set (vo_dirty v) \<union> ?T)"
      using idx by (intro card_mono[OF fin]) auto
    with less.prems(6) have "card (insert ?idx (set (vo_dirty v))) \<le> fc_cap (vo_fds v)" by simp
    then obtain v1 s1 q where fd: "chunk_fd v ?idx wr s = (v1, s1, IoOk q)" "st_faults s1 = []" "wr \<longrightarrow> q \<noteq> None"
      using chunk_fd_returns_cached[OF less.prems(1,3)] by metis
    note props = chunk_fd_props[OF less.prems(1) fd(1)]
    have small: "len - (pos + n) < len - pos" using b(1) pos by simp
    have T: "touched v1 off len = ?T" using props by (simp add: touched_def)
    have kept1: "io_kept v s ?T v1 s1" using props fd(2) by (auto simp: io_kept_def same_bytes_def)
    show ?thesis
    proof (cases q)
      case None
      have "\<exists>v' s' b. io_loop wr meta off len (pos + n) v1 s1 buf = (v', s', IoOk b) \<and>
          io_kept v1 s1 (touched v1 off len) v' s'"
        using props less.prems fd(2) b(2) T by (intro less.hyps[OF small]) simp_all
      with fd None kept1 T show ?thesis unfolding unfold by (auto intro: io_kept_trans)
    next
      case (Some f)
      then have f: "f = chunk_path (vo_dir v) ?idx" using props by simp
      show ?thesis
      proof (cases wr)
        case True
        let ?v2 = "v1\<lparr>vo_dirty := List.insert ?idx (vo_dirty v1)\<rparr>"
        define s2 where "s2 = s1\<lparr>st_files := AList.update f
            (splice (file_content (st_files s1) f) (ab mod ?chunk) (take n (drop pos buf))) (st_files s1)\<rparr>"
        have wr: "write_all_at f (take n (drop pos buf)) (ab mod ?chunk) s1 = (s2, IoOk ())"
          using fd(2) by (simp add: write_all_at_def faultless s2_def)
        have "volume_ok ?v2 s2"
          using props Some f by (auto simp: volume_ok_def s2_def file_content_update chunk_path_inj)
        moreover have T2: "touched ?v2 off len = ?T" using T by (simp add: touched_def)
        moreover have "set (vo_dirty ?v2) \<union> ?T = set (vo_dirty v) \<union> ?T" using idx props by auto
        ultimately have "\<exists>v' s' b. io_loop wr meta off len (pos + n) ?v2 s2 buf = (v', s', IoOk b) \<and>
            io_kept ?v2 s2 (touched ?v2 off len) v' s'"
          using props less.prems fd(2) b(2) by (intro less.hyps[OF small]) (simp_all add: s2_def)
        moreover have "io_kept v s ?T ?v2 s2"
          using kept1 idx by (auto simp: io_kept_def s2_def)
        ultimately show ?thesis using fd Some True wr T2 unfolding unfold by (auto intro: io_kept_trans)
      next
        case False
        obtain g where rd: "read_at f (take n (drop pos buf)) (ab mod ?chunk) s1 = (s1, IoOk g)"
          using fd(2) by (simp add: read_at_def faultless Let_def)
        have "\<exists>v' s' b. io_loop wr meta off len (pos + n) v1 s1 (take pos buf @ g @ drop (pos + n) buf) = (v', s', IoOk b) \<and>
            io_kept v1 s1 (touched v1 off len) v' s'"
          using props less.prems fd(2) b(2) T by (intro less.hyps[OF small]) simp_all
        with fd Some False rd kept1 T show ?thesis unfolding unfold by (auto intro: io_kept_trans)
      qed
    qed
  qed
qed

lemma io_loop_returns:
  assumes "volume_ok v s" "meta = vo_meta v" "st_faults s = []" "off + len < 2 ^ 64" "pos \<le> len"
    and "card (set (vo_dirty v) \<union> touched v off len) \<le> fc_cap (vo_fds v)"
  shows "\<exists>v' s' b. io_loop wr meta off len pos v s buf = (v', s', IoOk b)"
  using io_loop_completes[OF assms] by blast

text \<open>On a disk whose calls work, every request inside the volume returns and succeeds, as long as
  the chunks that are dirty and those the request touches fit the handle cache together.\<close>

theorem do_io_returns:
  assumes "volume_ok v s" "st_faults s = []" "off + length buf < 2 ^ 64" "request_ok v off buf"
    and "card (set (vo_dirty v) \<union> touched v off (length buf)) \<le> fc_cap (vo_fds v)"
  shows "\<exists>v' s' buf'. do_io write off buf v s = (v', s', IoOk (buf', length buf))"
proof -
  obtain v' s' b where "io_loop write (vo_meta v) off (length buf) 0 v s
      (if write then buf else replicate (length buf) 0) = (v', s', IoOk b)"
    using io_loop_returns[OF assms(1) refl assms(2,3) _ assms(5)] by blast
  with assms(4) show ?thesis by (simp add: do_io_cases[OF assms(3)])
qed

text \<open>So does a flush when the cache has room for the dirty chunks.\<close>

lemma flush_group_completes:
  assumes "volume_ok v s" "st_faults s = []" "set g \<subseteq> set (vo_dirty v)" "distinct g"
    "card (set (vo_dirty v)) \<le> fc_cap (vo_fds v)"
  shows "\<exists>v' s'. flush_group g v s = (v', s', IoOk ()) \<and> st_faults s' = [] \<and> fc_cap (vo_fds v') = fc_cap (vo_fds v)"
  using assms
proof (induction g arbitrary: v s)
  case (Cons idx g)
  have "card (insert idx (set (vo_dirty v))) \<le> fc_cap (vo_fds v)"
    using Cons.prems(3,5) by (simp add: insert_absorb)
  then obtain v1 s1 q where fd: "chunk_fd v idx False s = (v1, s1, IoOk q)" "st_faults s1 = []"
    using chunk_fd_returns_cached[OF Cons.prems(1,2)] by metis
  note props = chunk_fd_props[OF Cons.prems(1) fd(1)]
  then have q: "q = Some (chunk_path (vo_dir v) idx)" using Cons.prems(3) by (cases q) auto
  define s2 where "s2 = s1\<lparr>st_durable := AList.update (chunk_path (vo_dir v) idx)
      (file_content (st_files s1) (chunk_path (vo_dir v) idx)) (st_durable s1)\<rparr>"
  have sy: "sync_data (chunk_path (vo_dir v) idx) s1 = (s2, IoOk ())"
    using fd(2) by (simp add: sync_data_def faultless s2_def)
  let ?v2 = "v1\<lparr>vo_dirty := remove1 idx (vo_dirty v1)\<rparr>"
  have one: "flush_group [idx] v s = (?v2, s2, IoOk ())" using fd q sy by simp
  have sub: "set [idx] \<subseteq> set (vo_dirty v)" using Cons.prems(3) by simp
  have "distinct [idx]" by simp
  note props2 = flush_group_props[OF one Cons.prems(1) sub this]
  then have dirty: "set (vo_dirty ?v2) = set (vo_dirty v) - {idx}" by simp
  have "card (set (vo_dirty ?v2)) \<le> card (set (vo_dirty v))" unfolding dirty by (intro card_mono) auto
  with Cons.prems(5) props have room: "card (set (vo_dirty ?v2)) \<le> fc_cap (vo_fds ?v2)" by simp
  have inc: "set g \<subseteq> set (vo_dirty ?v2)" using Cons.prems(3,4) unfolding dirty by auto
  have dist: "distinct g" using Cons.prems(4) by simp
  have fine: "st_faults s2 = []" by (simp add: s2_def fd(2))
  have fine2: "volume_ok ?v2 s2" using props2 by blast
  obtain v' s' where "flush_group g ?v2 s2 = (v', s', IoOk ())" "st_faults s' = []"
      "fc_cap (vo_fds v') = fc_cap (vo_fds ?v2)"
    using Cons.IH[OF fine2 fine inc dist room] by blast
  with props show ?case by (simp add: fd(1) q sy)
qed simp

lemma flush_groups_completes:
  assumes "volume_ok v s" "st_faults s = []" "set (concat gs) \<subseteq> set (vo_dirty v)" "distinct (concat gs)"
    "card (set (vo_dirty v)) \<le> fc_cap (vo_fds v)"
  shows "\<exists>v' s' rs. flush_groups gs v s = (v', s', rs) \<and> (\<forall>r \<in> set rs. r = IoOk ()) \<and> st_faults s' = [] \<and>
    fc_cap (vo_fds v') = fc_cap (vo_fds v)"
  using assms
proof (induction gs arbitrary: v s)
  case (Cons g gs)
  obtain v1 s1 where g: "flush_group g v s = (v1, s1, IoOk ())" "st_faults s1 = []" "fc_cap (vo_fds v1) = fc_cap (vo_fds v)"
    using flush_group_completes[OF Cons.prems(1,2) _ _ Cons.prems(5), of g] Cons.prems(3,4) by auto
  have one: "volume_ok v1 s1" "set (vo_dirty v1) = set (vo_dirty v) - set g"
    using flush_group_props[OF g(1) Cons.prems(1)] Cons.prems(3,4) by auto
  have "card (set (vo_dirty v1)) \<le> card (set (vo_dirty v))" unfolding one(2) by (intro card_mono) auto
  with Cons.prems(5) g(3) have room: "card (set (vo_dirty v1)) \<le> fc_cap (vo_fds v1)" by simp
  have rest: "set (concat gs) \<subseteq> set (vo_dirty v1)" "distinct (concat gs)"
    using Cons.prems(3,4) one(2) by auto
  from Cons.IH[OF one(1) g(2) rest room] g show ?case by auto
qed simp

lemma flush_completes:
  assumes "volume_ok v s" "st_faults s = []" "card (set (vo_dirty v)) \<le> fc_cap (vo_fds v)"
  shows "\<exists>v' s'. flush v s = (v', s', IoOk ()) \<and> st_faults s' = [] \<and> fc_cap (vo_fds v') = fc_cap (vo_fds v)"
proof (cases "vo_dirty v = []")
  case False
  then have n: "0 < min FLUSH_THREADS (length (vo_dirty v))" by (simp add: FLUSH_THREADS_def)
  let ?gs = "deal (min FLUSH_THREADS (length (vo_dirty v))) (vo_dirty v)"
  have "distinct (vo_dirty v)" using assms(1) by (simp add: volume_ok_def)
  then obtain v' s' rs where "flush_groups ?gs v s = (v', s', rs)" "\<forall>r \<in> set rs. r = IoOk ()" "st_faults s' = []"
      "fc_cap (vo_fds v') = fc_cap (vo_fds v)"
    using flush_groups_completes[OF assms(1,2) _ _ assms(3), of ?gs] deal_set[OF n, of "vo_dirty v"]
      deal_distinct[of "vo_dirty v"]
    by auto
  with False show ?thesis by (simp add: flush_def Let_def first_error_ok)
qed (simp add: flush_def assms)

section \<open>Durability\<close>

lemma flushed_disk:
  assumes "volume_ok v s" "flush v s = (v', s', IoOk ())"
  shows "durable_disk v' s' = vol_disk v s" "vol_disk v' s' = vol_disk v s"
proof -
  note props = flush_props[OF assms(2,1)]
  then have clean: "volume_ok v' s'" "vo_dirty v' = []" "vo_dir v' = vo_dir v" "vo_meta v' = vo_meta v"
    and files: "file_content (st_files s') = file_content (st_files s)" by simp_all
  have "file_content (st_durable s') (chunk_path (vo_dir v) k) = file_content (st_files s) (chunk_path (vo_dir v) k)" for k
    using clean(1) unfolding volume_ok_def clean(2,3) files by simp
  then show "durable_disk v' s' = vol_disk v s" "vol_disk v' s' = vol_disk v s"
    by (auto simp: disk_def clean(3,4) files)
qed


section \<open>A cache full of dirty handles\<close>

lemma map_le_None: "m \<subseteq>\<^sub>m m' \<Longrightarrow> m' k = None \<Longrightarrow> m k = None"
  by (metis domIff map_le_def)

lemma evict_closes:
  assumes "cache_ok c" "length (fc_map c) = Suc (fc_cap c)" "map_of (fc_map c) idx = Some (f, g)"
    and "fc_order c = xs @ (idx, g) # ys" "(idx, g) \<notin> set xs" "length xs < pops"
    and "\<forall>k. map_of (fc_map c) k \<noteq> None \<longrightarrow> k \<noteq> idx \<longrightarrow> k \<in> set dirty" "idx \<notin> set dirty"
  shows "map_of (fc_map (evict pops dirty c)) idx = None"
  using assms
proof (induction pops arbitrary: c xs ys)
  case (Suc pops)
  have full: "\<not> length (fc_map c) \<le> fc_cap c" using Suc.prems(2) by simp
  show ?case
  proof (cases xs)
    case Nil
    then have o: "fc_order c = (idx, g) # ys" using Suc.prems(4) by simp
    have keys: "distinct (map fst (fc_map c))" using Suc.prems(1) by (simp add: cache_ok_def)
    let ?c = "c\<lparr>fc_order := ys, fc_map := AList.delete idx (fc_map c)\<rparr>"
    have "evict (Suc pops) dirty c = evict pops dirty ?c" using full o Suc.prems(3,8) by simp
    moreover have "cache_ok ?c"
      using Suc.prems(1) full o
    proof (cases rule: evict_step[where pops = pops and dirty = dirty])
      case (close h c')
      then show ?thesis by simp
    qed (use Suc.prems(3,8) in auto)
    moreover have "map_of (fc_map ?c) idx = None" by (simp add: map_simps)
    ultimately show ?thesis using evict_props[of ?c pops dirty] map_le_None by metis
  next
    case (Cons x order)
    obtain victim vgen where x: "x = (victim, vgen)" by (cases x)
    have o: "fc_order c = (victim, vgen) # (order @ (idx, g) # ys)" using Suc.prems(4) Cons x by simp
    have ne: "(victim, vgen) \<noteq> (idx, g)" "(idx, g) \<notin> set order" "length order < pops"
      using Suc.prems(5,6) Cons x by auto
    show ?thesis
      using Suc.prems(1) full o
    proof (cases rule: evict_step[where pops = pops and dirty = dirty])
      case (stale c')
      with Suc.prems ne(2,3) show ?thesis unfolding stale(3) by (intro Suc.IH[where xs = order and ys = ys]) simp_all
    next
      case (rotate h c')
      with Suc.prems ne(2,3) show ?thesis
        unfolding rotate(4) by (intro Suc.IH[where xs = order and ys = "ys @ [(victim, vgen)]"]) simp_all
    next
      case (close h c')
      have "victim = idx" using close(1,2) Suc.prems(7) by auto
      with close(1) Suc.prems(3) ne(1) show ?thesis by simp
    qed
  qed
qed simp

text \<open>The cache is documented to grow when every handle in it is dirty.  It does not: when the cache
  is full, all of it dirty and its queue no longer than twice its capacity, opening one more chunk
  evicts the handle just opened and the call panics.\<close>

theorem full_dirty_cache_panics:
  assumes "volume_ok v s" "st_faults s = []" "length (fc_map (vo_fds v)) = fc_cap (vo_fds v)"
    and "\<forall>k. map_of (fc_map (vo_fds v)) k \<noteq> None \<longrightarrow> k \<in> set (vo_dirty v)"
    and "length (fc_order (vo_fds v)) < 2 * fc_cap (vo_fds v)" "map_of (fc_map (vo_fds v)) idx = None"
  shows "\<exists>v' s'. chunk_fd v idx True s = (v', s', Panicked ''just inserted'')"
proof -
  let ?path = "chunk_path (vo_dir v) idx" and ?g = "fc_next_gen (vo_fds v) + 1"
  let ?c = "cache_put idx ?path (vo_fds v)"
  have "idx \<notin> set (vo_dirty v)" using assms(1,6) by (auto simp: volume_ok_def)
  moreover have "idx \<notin> set (map fst (fc_map (vo_fds v)))" using assms(6) by (simp only: amap_none) simp
  then have "length (fc_map ?c) = Suc (fc_cap ?c)"
    using assms(3) by (simp add: cache_put_def Let_def update_fresh)
  moreover have "(idx, ?g) \<notin> set (fc_order (vo_fds v))" using assms(1) by (auto simp: volume_ok_def cache_ok_def)
  moreover have "cache_ok ?c" using assms(1) by (simp add: volume_ok_def cache_put_ok)
  ultimately have "map_of (fc_map (evict (2 * fc_cap ?c) (vo_dirty v) ?c)) idx = None"
    using assms(4,5) by (intro evict_closes[where xs = "fc_order (vo_fds v)" and ys = "[]"]) auto
  moreover obtain s' where "io_bind (make_dirs s) (\<lambda>s _. open_file True ?path s) = (s', IoOk ?path)"
    using assms(2) by (cases "map_of (st_files s) ?path") (simp_all add: io_bind_def make_dirs_def open_file_def faultless)
  ultimately show ?thesis using assms(6) by (simp add: chunk_fd_def Let_def)
qed

section \<open>A write between the two halves of a flush\<close>


section \<open>The properties on a concrete volume\<close>

text \<open>Two chunks of 4 KiB, nothing written yet, a cache for \<open>cap\<close> handles.\<close>

abbreviation demo_volume :: "nat \<Rightarrow> volume" where
  "demo_volume cap \<equiv> \<lparr>vo_dir = ''vol'', vo_meta = \<lparr>vm_version = 1, vm_size_bytes = 8192, vm_chunk_size = 4096\<rparr>,
     vo_fds = fd_cache_new cap, vo_dirty = []\<rparr>"

abbreviation empty_store :: store where
  "empty_store \<equiv> \<lparr>st_files = [], st_durable = [], st_faults = []\<rparr>"

lemma demo_volume_ok: "volume_ok (demo_volume cap) empty_store"
  by (simp add: volume_ok_def cache_ok_def fd_cache_new_def)


lemma do_io_returns_witness:
  "\<exists>v' s' buf'. do_io True 512 (replicate 512 7) (demo_volume 4) empty_store = (v', s', IoOk (buf', 512))"
  using do_io_returns[OF demo_volume_ok, of 512 "replicate 512 7" 4 True]
  by (simp add: request_ok_def touched_def fd_cache_new_def)

text \<open>One chunk written and not yet synced.\<close>

abbreviation dirty_store :: store where
  "dirty_store \<equiv> \<lparr>st_files = [(chunk_path ''vol'' 0, [7])], st_durable = [], st_faults = []\<rparr>"

abbreviation dirty_volume :: "nat \<Rightarrow> volume" where
  "dirty_volume cap \<equiv> demo_volume cap\<lparr>vo_dirty := [0],
     vo_fds := \<lparr>fc_map = [(0, (chunk_path ''vol'' 0, 1))], fc_order = [(0, 1)], fc_next_gen = 1, fc_cap = cap\<rparr>\<rparr>"

lemma dirty_volume_ok: "volume_ok (dirty_volume cap) dirty_store"
  by (auto simp: volume_ok_def cache_ok_def file_content_def chunk_path_inj)


lemma full_dirty_cache_panics_witness:
  "\<exists>v' s'. chunk_fd (dirty_volume 1) 1 True dirty_store = (v', s', Panicked ''just inserted'')"
  using full_dirty_cache_panics[OF dirty_volume_ok, of 1 1] by simp


end
