(* ===== verification/Storage.thy ===== *)
theory Storage
  imports VolumeSpec
begin

text \<open>
  \<open>hostd/src/storage/{worker,ublk_worker,manager}.rs\<close>: the worker process of a volume (its command
  line, its handshake, the kernel requests it serves), and the manager that spawns one per VM,
  respawns a crashed one a bounded number of times, and tears it down.  Processes, ublk devices and
  \<open>mkfs\<close> are outside; what they answer is an argument.  The manager and its monitor task interleave:
  the monitor is a step relation, with \<open>detach\<close> possible between any two steps.
\<close>

section \<open>Spawning a worker\<close>

text \<open>\<open>str::parse::<i32>\<close>.\<close>

definition parse_i32 :: "string \<Rightarrow> string + int" where
  "parse_i32 s =
     (if s \<noteq> [] \<and> hd s = CHR ''-'' then
        (if tl s = [] \<or> hd (tl s) = CHR ''+'' then Inl ''invalid digit found in string''
         else case parse_uint (2 ^ 31) (tl s) of
                Inl e \<Rightarrow> Inl (if e = ''number too large to fit in target type''
                              then ''number too small to fit in target type'' else e)
              | Inr n \<Rightarrow> Inr (- int n))
      else case parse_uint (2 ^ 31 - 1) s of Inl e \<Rightarrow> Inl e | Inr n \<Rightarrow> Inr (int n))"

definition show_int :: "int \<Rightarrow> string" where
  "show_int i = (if i < 0 then CHR ''-'' # dec (nat (- i)) else dec (nat i))"

definition worker_command ::
  "string \<Rightarrow> nat option \<Rightarrow> nat option \<Rightarrow> bool \<Rightarrow> int \<Rightarrow> nat \<Rightarrow> nat \<Rightarrow> string list result" where
  "worker_command volume_dir size_mb chunk_kb recover dev_id queues depth =
     (let base = [''ublk-worker'', ''--dir'', volume_dir, ''-n'', show_int dev_id, ''--queues'', dec queues,
                  ''--depth'', dec depth]
      in if recover then Inr (base @ [''--recover''])
         else case size_mb of
                None \<Rightarrow> Inl (Storage ''size_mb required for new volume'')
              | Some mb \<Rightarrow>
                  Inr (base @ [''--size-mb'', dec mb]
                    @ (case chunk_kb of Some kb \<Rightarrow> [''--chunk-kb'', dec kb] | None \<Rightarrow> [])))"

text \<open>The lines the worker prints, up to the end of its output.\<close>

fun handshake :: "string list \<Rightarrow> int result" where
  "handshake [] = Inl (Storage ''ublk-worker exited before handshake'')"
| "handshake (line # rest) =
     (case strip_prefix ''device id: '' (trim_str line) of
        Some n \<Rightarrow>
          (case parse_i32 n of
             Inl e \<Rightarrow> Inl (Storage (''bad ublk-worker handshake '' @ debug_str line @ '': '' @ e))
           | Inr i \<Rightarrow> Inr i)
      | None \<Rightarrow> handshake rest)"

definition device_path :: "int \<Rightarrow> string" where
  "device_path dev_id = ''/dev/ublkb'' @ show_int dev_id"

text \<open>\<open>worker::spawn\<close> after the process runs: what it printed (\<open>None\<close>: the 15 s passed first), and
  whether the device node appeared in time.\<close>

definition worker_handshake :: "string list option \<Rightarrow> (string \<Rightarrow> bool) \<Rightarrow> (int \<times> string) result" where
  "worker_handshake output appears =
     (case output of
        None \<Rightarrow> Inl (Storage ''ublk-worker handshake timed out'')
      | Some lines \<Rightarrow>
          try_res (handshake lines) (\<lambda>dev_id.
            let dev_path = device_path dev_id in
            if \<not> appears dev_path
            then Inl (Storage (dev_path @ '' did not appear after ublk-worker handshake''))
            else Inr (dev_id, dev_path)))"

lemma parse_i32_show: "- (2 ^ 31) \<le> n \<Longrightarrow> n < 2 ^ 31 \<Longrightarrow> parse_i32 (show_int n) = Inr n"
proof (cases "n < 0")
  case True
  assume "- (2 ^ 31) \<le> n"
  obtain c ds where c: "dec (nat (- n)) = c # ds" by (cases "dec (nat (- n))") auto
  then have "is_digit c" using dec_digits[of c "nat (- n)"] by simp
  then have "c \<noteq> CHR ''+''" by (rule digit_ne_plus)
  moreover have "parse_uint (2 ^ 31) (dec (nat (- n))) = Inr (nat (- n))"
    using \<open>- (2 ^ 31) \<le> n\<close> by (intro parse_uint_dec) simp
  ultimately show ?thesis using True by (simp add: parse_i32_def show_int_def c)
next
  case False
  assume "n < 2 ^ 31"
  then have "parse_uint (2 ^ 31 - 1) (dec (nat n)) = Inr (nat n)"
    using False by (intro parse_uint_dec) simp
  moreover obtain c ds where c: "dec (nat n) = c # ds" by (cases "dec (nat n)") auto
  moreover have "is_digit c" using dec_digits[of c "nat n"] c by simp
  then have "c \<noteq> CHR ''-''" by (auto simp: is_digit_def)
  ultimately show ?thesis using False by (simp add: parse_i32_def show_int_def)
qed

lemma show_int_ends: "show_int n \<noteq> []" "\<not> is_space (last (show_int n))"
proof -
  show "show_int n \<noteq> []" by (simp add: show_int_def)
  have "is_digit (last (dec m))" for m by (rule dec_digits[of _ m]) simp
  then show "\<not> is_space (last (show_int n))" by (simp add: show_int_def digit_not_space)
qed

text \<open>The worker's handshake line is read back: whatever lines without the prefix come before it, the
  device id the worker printed is the one the manager gets.\<close>

theorem handshake_reads_device_id:
  assumes "- (2 ^ 31) \<le> dev_id" "dev_id < 2 ^ 31"
    and "\<forall>line \<in> set noise. strip_prefix ''device id: '' (trim_str line) = None"
  shows "handshake (noise @ (''device id: '' @ show_int dev_id @ [char_of (10 :: nat)]) # rest) = Inr dev_id"
  using assms(3)
proof (induction noise)
  case Nil
  have "trim_str ((''device id: '' @ show_int dev_id) @ [char_of (10 :: nat)]) = ''device id: '' @ show_int dev_id"
    using show_int_ends[of dev_id] by (intro trim_str_plain) (simp_all add: is_space_def)
  then have "strip_prefix ''device id: '' (trim_str (''device id: '' @ show_int dev_id @ [char_of (10 :: nat)]))
      = Some (show_int dev_id)"
    by (simp only: append_assoc strip_prefix_append)
  then show ?case using parse_i32_show[OF assms(1,2)] by (simp only: append_Nil handshake.simps option.case sum.case)
next
  case (Cons line noise)
  then show ?case by simp
qed

lemma handshake_reads_device_id_witness:
  "handshake ([''starting''] @ (''device id: '' @ show_int 3 @ [char_of (10 :: nat)]) # []) = Inr 3"
  by (rule handshake_reads_device_id) (simp_all add: trim_str_def is_space_def strip_prefix_def)

section \<open>Serving the kernel\<close>

datatype ublk_op = UBLK_IO_OP_READ | UBLK_IO_OP_WRITE | UBLK_IO_OP_FLUSH | UBLK_IO_OP_DISCARD | UblkOther nat

text \<open>One round of \<open>io_task\<close>: the descriptor of the request, the task's buffer, and the result it
  commits (\<open>-EIO\<close> is -5, \<open>-EOPNOTSUPP\<close> is -95).  \<open>None\<close> is a panic, a buffer slice out of range
  included.\<close>

definition io_task :: "ublk_op \<Rightarrow> nat \<Rightarrow> nat \<Rightarrow> bytes \<Rightarrow> volume \<Rightarrow> store \<Rightarrow> (volume \<times> store \<times> bytes \<times> int) option" where
  "io_task op start_sector nr_sectors buf v s =
     (let off = (start_sector * 512) mod 2 ^ 64;
          bytes = (nr_sectors * 512) mod 2 ^ 32;
          rw = (\<lambda>write.
            if length buf < bytes then None
            else case do_io write off (take bytes buf) v s of
                   (v', s', IoOk (b, n)) \<Rightarrow> Some (v', s', b @ drop bytes buf, int n)
                 | (v', s', IoErr e) \<Rightarrow> Some (v', s', buf, -5)
                 | (v', s', Panicked m) \<Rightarrow> None)
      in case op of
           UBLK_IO_OP_READ \<Rightarrow> rw False
         | UBLK_IO_OP_WRITE \<Rightarrow> rw True
         | UBLK_IO_OP_FLUSH \<Rightarrow>
             (case flush v s of
                (v', s', IoOk _) \<Rightarrow> Some (v', s', buf, 0)
              | (v', s', IoErr e) \<Rightarrow> Some (v', s', buf, -5)
              | (v', s', Panicked m) \<Rightarrow> None)
         | UBLK_IO_OP_DISCARD \<Rightarrow> Some (v, s, buf, 0)
         | UblkOther _ \<Rightarrow> Some (v, s, buf, -95))"

text \<open>The volume a worker serves (\<open>run\<close>): an existing one when it recovers, a new one otherwise.\<close>

definition worker_volume ::
  "(bytes \<Rightarrow> string + volume_meta) \<Rightarrow> (volume_meta \<Rightarrow> string + bytes) \<Rightarrow> bool \<Rightarrow> string \<Rightarrow> nat option \<Rightarrow> nat option \<Rightarrow>
   store \<Rightarrow> store \<times> volume result" where
  "worker_volume from_json to_json recover dir size_mb chunk_kb s =
     (if recover then volume_open from_json dir s
      else case size_mb of
             None \<Rightarrow> (s, Inl (Storage ''ublk-worker: --size-mb required without --recover''))
           | Some mb \<Rightarrow>
               volume_create from_json to_json dir ((mb * 2 ^ 20) mod 2 ^ 64)
                 ((case chunk_kb of Some kb \<Rightarrow> kb | None \<Rightarrow> DEFAULT_CHUNK_KB) * 1024) s)"

section \<open>The manager\<close>

definition WORKER_QUEUES :: nat where "WORKER_QUEUES = 8"
definition WORKER_DEPTH :: nat where "WORKER_DEPTH = 64"
definition MAX_RESPAWNS :: nat where "MAX_RESPAWNS = 3"

record worker_entry =
  we_dev_id :: int
  we_pid :: nat
  we_volume_dir :: string
  we_respawns :: nat

text \<open>What the outside answers to one \<open>attach\<close>: is the storage root there, was the volume new, the
  worker's handshake, \<open>mkfs\<close>, and the child's pid.\<close>

record attach_env =
  ae_root_is_dir :: bool
  ae_has_meta :: bool
  ae_make_dir :: "unit result"
  ae_spawn :: "(int \<times> string) result"
  ae_mkfs :: "unit result"
  ae_child_id :: "nat option"

definition volume_dir_of :: "string \<Rightarrow> nat \<Rightarrow> string \<Rightarrow> string" where
  "volume_dir_of storage_root project_id vm_id =
     path_join (path_join storage_root (''proj-'' @ dec project_id)) vm_id"

definition storage_attach ::
  "string \<Rightarrow> string \<Rightarrow> nat \<Rightarrow> attach_env \<Rightarrow> (string, worker_entry) amap \<Rightarrow>
   (string, worker_entry) amap \<times> string result" where
  "storage_attach storage_root vm_id project_id env workers =
     (if \<not> ae_root_is_dir env
      then (workers, Inl (Storage (''storage root '' @ storage_root @ '' is not a directory (S3 Files not mounted?)'')))
      else
        let volume_dir = volume_dir_of storage_root project_id vm_id;
            is_new = (\<not> ae_has_meta env)
        in case ae_make_dir env of
             Inl e \<Rightarrow> (workers, Inl e)
           | Inr _ \<Rightarrow>
           (case ae_spawn env of
              Inl e \<Rightarrow> (workers, Inl e)
            | Inr (dev_id, dev_path) \<Rightarrow>
                (case (is_new, ae_mkfs env) of
                   (True, Inl e) \<Rightarrow> (workers, Inl e)
                 | _ \<Rightarrow>
                     (case ae_child_id env of
                        None \<Rightarrow> (workers, Inl (Storage ''ublk worker exited during attach''))
                      | Some pid \<Rightarrow>
                          (AList.update vm_id
                             \<lparr>we_dev_id = dev_id, we_pid = pid, we_volume_dir = volume_dir, we_respawns = 0\<rparr> workers,
                           Inr dev_path)))))"

text \<open>\<open>detach\<close> removes the entry and says which pid it signals and which device it deletes.\<close>

definition storage_detach ::
  "string \<Rightarrow> (string, worker_entry) amap \<Rightarrow> (string, worker_entry) amap \<times> (nat \<times> int \<times> string) option" where
  "storage_detach vm_id workers =
     (case map_of workers vm_id of
        None \<Rightarrow> (workers, None)
      | Some e \<Rightarrow> (AList.delete vm_id workers, Some (we_pid e, we_dev_id e, we_volume_dir e)))"

section \<open>The monitor\<close>

text \<open>The task of one VM: waiting for its child, sleeping before a respawn, or gone.\<close>

datatype monitor = Waiting | Backoff nat | Ended

record slot =
  sl_entry :: "worker_entry option"
  sl_monitor :: monitor
  sl_running :: "nat option" \<comment> \<open>the pid of the live worker process\<close>
  sl_attempts :: nat \<comment> \<open>how often \<open>worker::spawn\<close> was called to recover\<close>

text \<open>After \<open>child.wait()\<close> returned.\<close>

definition monitor_wakes :: "slot \<Rightarrow> slot" where
  "monitor_wakes s =
     (case sl_entry s of
        None \<Rightarrow> s\<lparr>sl_monitor := Ended\<rparr>
      | Some e \<Rightarrow>
          if MAX_RESPAWNS \<le> we_respawns e then s\<lparr>sl_monitor := Ended\<rparr>
          else s\<lparr>sl_monitor := Backoff (2 ^ we_respawns e)\<rparr>)"

text \<open>\<open>worker::spawn\<close> returned a child: \<open>pid\<close> is \<open>None\<close> when it is already gone.\<close>

definition monitor_respawned :: "nat option \<Rightarrow> slot \<Rightarrow> slot" where
  "monitor_respawned pid s =
     (case sl_entry s of
        Some e \<Rightarrow>
          s\<lparr>sl_entry := Some (e\<lparr>we_pid := (case pid of Some p \<Rightarrow> p | None \<Rightarrow> we_pid e),
                             we_respawns := we_respawns e + 1\<rparr>),
            sl_monitor := Waiting, sl_running := pid, sl_attempts := sl_attempts s + 1\<rparr>
      | None \<Rightarrow> s\<lparr>sl_monitor := Ended, sl_running := None, sl_attempts := sl_attempts s + 1\<rparr>)"

definition monitor_respawn_failed :: "slot \<Rightarrow> slot" where
  "monitor_respawn_failed s =
     (case sl_entry s of
        Some e \<Rightarrow>
          (let e' = e\<lparr>we_respawns := we_respawns e + 1\<rparr>
           in s\<lparr>sl_entry := Some e', sl_attempts := sl_attempts s + 1,
                sl_monitor := (if MAX_RESPAWNS \<le> we_respawns e' then Ended else Waiting)\<rparr>)
      | None \<Rightarrow> s\<lparr>sl_monitor := Ended, sl_attempts := sl_attempts s + 1\<rparr>)"

text \<open>\<open>detach\<close> removes the entry and kills the process with the entry's pid.\<close>

definition slot_detach :: "slot \<Rightarrow> slot" where
  "slot_detach s =
     (case sl_entry s of
        None \<Rightarrow> s
      | Some e \<Rightarrow> s\<lparr>sl_entry := None, sl_running := (if sl_running s = Some (we_pid e) then None else sl_running s)\<rparr>)"

inductive slot_step :: "slot \<Rightarrow> slot \<Rightarrow> bool" where
  crash: "sl_running s = Some p \<Longrightarrow> slot_step s (s\<lparr>sl_running := None\<rparr>)"
| wake: "sl_monitor s = Waiting \<Longrightarrow> sl_running s = None \<Longrightarrow> slot_step s (monitor_wakes s)"
| respawned: "sl_monitor s = Backoff n \<Longrightarrow> slot_step s (monitor_respawned pid s)"
| respawn_failed: "sl_monitor s = Backoff n \<Longrightarrow> slot_step s (monitor_respawn_failed s)"
| detach: "slot_step s (slot_detach s)"

inductive_cases slot_stepE: "slot_step s s'"

text \<open>The slot \<open>attach\<close> leaves behind.\<close>

definition slot_init :: "int \<Rightarrow> nat \<Rightarrow> string \<Rightarrow> slot" where
  "slot_init dev_id pid dir =
     \<lparr>sl_entry = Some \<lparr>we_dev_id = dev_id, we_pid = pid, we_volume_dir = dir, we_respawns = 0\<rparr>,
      sl_monitor = Waiting, sl_running = Some pid, sl_attempts = 0\<rparr>"

definition slot_ok :: "slot \<Rightarrow> bool" where
  "slot_ok s \<longleftrightarrow>
     (case sl_entry s of
        None \<Rightarrow> sl_running s = None \<and> sl_attempts s + (case sl_monitor s of Backoff _ \<Rightarrow> 1 | _ \<Rightarrow> 0) \<le> MAX_RESPAWNS
      | Some e \<Rightarrow>
          sl_attempts s = we_respawns e \<and> we_respawns e \<le> MAX_RESPAWNS \<and>
          (sl_running s \<noteq> None \<longrightarrow> sl_running s = Some (we_pid e) \<and> sl_monitor s = Waiting) \<and>
          (\<forall>n. sl_monitor s = Backoff n \<longrightarrow> we_respawns e < MAX_RESPAWNS \<and> n = 2 ^ we_respawns e) \<and>
          (sl_monitor s = Ended \<longrightarrow> we_respawns e = MAX_RESPAWNS))"

lemma slot_step_ok: "slot_step s s' \<Longrightarrow> slot_ok s \<Longrightarrow> slot_ok s'"
proof (induction rule: slot_step.induct)
  case (detach s)
  then show ?case
    by (auto simp: slot_ok_def slot_detach_def split: option.splits monitor.splits)
qed (auto simp: slot_ok_def monitor_wakes_def monitor_respawned_def monitor_respawn_failed_def Let_def MAX_RESPAWNS_def
      split: option.splits monitor.splits if_splits)

lemma slot_run_ok: "slot_step\<^sup>*\<^sup>* s s' \<Longrightarrow> slot_ok s \<Longrightarrow> slot_ok s'"
  by (induction rule: rtranclp_induct) (auto intro: slot_step_ok)

lemma slot_init_ok: "slot_ok (slot_init dev pid dir)"
  by (simp add: slot_ok_def slot_init_def)



text \<open>A worker that crashed and was reaped leaves its pid in the entry: \<open>detach\<close> then signals a pid
  that no longer is the worker's.\<close>

lemma detach_signals_stale_pid:
  "\<exists>s e. slot_step\<^sup>*\<^sup>* (slot_init dev_id pid dir) s \<and> sl_entry s = Some e \<and> we_pid e = pid \<and>
     sl_running s = None \<and> sl_monitor s = Backoff 1"
proof -
  let ?s1 = "slot_init dev_id pid dir\<lparr>sl_running := None\<rparr>"
  have "slot_step (slot_init dev_id pid dir) ?s1" by (rule slot_step.crash) (simp add: slot_init_def)
  moreover have "slot_step ?s1 (monitor_wakes ?s1)" by (rule slot_step.wake) (simp_all add: slot_init_def)
  ultimately have "slot_step\<^sup>*\<^sup>* (slot_init dev_id pid dir) (monitor_wakes ?s1)"
    by (meson converse_rtranclp_into_rtranclp rtranclp.rtrancl_refl)
  moreover have "sl_monitor (monitor_wakes ?s1) = Backoff 1" "sl_running (monitor_wakes ?s1) = None"
    "\<exists>e. sl_entry (monitor_wakes ?s1) = Some e \<and> we_pid e = pid"
    by (simp_all add: monitor_wakes_def slot_init_def MAX_RESPAWNS_def)
  ultimately show ?thesis by blast
qed

end
