(* ===== verification/Vmm.thy ===== *)
theory Vmm
  imports VmTypes NetManager Storage
begin

text \<open>
  The Firecracker VMM (\<open>hostd/src/vmm/firecracker/vmm.rs\<close>).  A VM's instance is shared
  (\<open>Arc<Mutex<VmInstance>>\<close>) between the map of VMs and the operations in flight on it, so instances
  live in a heap and are named by references; an operation that outlives its VM still writes to its
  instance.  Every operation of the lifecycle is two or more steps, one per await point: a step under
  the locks that enters the transitional state, and a step that takes the outcome of the external
  calls and leaves it.
\<close>

type_synonym inst_ref = nat
type_synonym child = nat
type_synonym conn_handle = nat

record fc_entry =
  fe_instance :: inst_ref
  fe_socket :: string
  fe_fc :: "child option"
  fe_workloads :: "(workload_id, workload) amap"
  fe_guest_conn :: "conn_handle option"
  fe_workloads_dir :: string

record 'h vmm =
  fm_assets_dir :: string
  fm_work_dir :: string
  fm_storage_root :: string
  fm_heap :: "(inst_ref, vm_instance) amap"
  fm_next_ref :: inst_ref
  fm_vms :: "(vm_id, fc_entry) amap"
  fm_next_cid :: u32
  fm_activity :: tracker
  fm_wake_times :: "(vm_id, instant) amap"
  fm_run_locks :: "(vm_id, bool) amap"
  fm_net :: net_manager
  fm_workers :: "(string, worker_entry) amap"
  fm_host :: 'h

definition fc_entry_new :: "inst_ref \<Rightarrow> vm_instance \<Rightarrow> fc_entry" where
  "fc_entry_new r inst =
     \<lparr>fe_instance = r, fe_socket = vi_socket_path inst, fe_fc = None, fe_workloads = [],
      fe_guest_conn = None, fe_workloads_dir = path_join (vi_work_dir inst) ''workloads''\<rparr>"

section \<open>The heap of instances\<close>

definition inst :: "'h vmm \<Rightarrow> inst_ref \<Rightarrow> vm_instance option" where
  "inst v r = map_of (fm_heap v) r"

definition set_inst :: "inst_ref \<Rightarrow> (vm_instance \<Rightarrow> vm_instance) \<Rightarrow> 'h vmm \<Rightarrow> 'h vmm" where
  "set_inst r f v = v\<lparr>fm_heap := AList.map_entry r f (fm_heap v)\<rparr>"

definition set_entry :: "vm_id \<Rightarrow> (fc_entry \<Rightarrow> fc_entry) \<Rightarrow> 'h vmm \<Rightarrow> 'h vmm" where
  "set_entry vm_id f v = v\<lparr>fm_vms := AList.map_entry vm_id f (fm_vms v)\<rparr>"

text \<open>\<open>instance_ref.lock()?.state.transition(next)?\<close>\<close>

definition inst_transition :: "inst_ref \<Rightarrow> vm_state \<Rightarrow> 'h vmm \<Rightarrow> 'h vmm \<times> unit result" where
  "inst_transition r next v =
     (case inst v r of
        None \<Rightarrow> (v, Inr ())
      | Some i \<Rightarrow>
          (case transition (vi_state i) next of
             Inl e \<Rightarrow> (v, Inl e)
           | Inr s \<Rightarrow> (set_inst r (\<lambda>i. i\<lparr>vi_state := s\<rparr>) v, Inr ())))"

definition entry_parts :: "vm_id \<Rightarrow> 'h vmm \<Rightarrow> inst_ref result" where
  "entry_parts vm_id v =
     (case map_of (fm_vms v) vm_id of
        None \<Rightarrow> Inl (VmNotFound vm_id)
      | Some e \<Rightarrow> Inr (fe_instance e))"

definition get_vm :: "vm_id \<Rightarrow> 'h vmm \<Rightarrow> inst_ref option" where
  "get_vm vm_id v = map_option fe_instance (map_of (fm_vms v) vm_id)"

definition list_vms :: "'h vmm \<Rightarrow> inst_ref list" where
  "list_vms v = map (fe_instance \<circ> snd) (fm_vms v)"

definition vm_state_of :: "vm_id \<Rightarrow> 'h vmm \<Rightarrow> vm_state option" where
  "vm_state_of vm_id v =
     Option.bind (map_of (fm_vms v) vm_id) (\<lambda>e. map_option vi_state (inst v (fe_instance e)))"

section \<open>Creating a VM\<close>

text \<open>The checks \<open>create_vm\<close> makes on a configuration; \<open>parse_cron\<close> is the cron crate's parser.\<close>

definition mount_char :: "char \<Rightarrow> bool" where
  "mount_char c \<longleftrightarrow>
     (let n = (of_char c :: nat) in
      (48 \<le> n \<and> n \<le> 57) \<or> (65 \<le> n \<and> n \<le> 90) \<or> (97 \<le> n \<and> n \<le> 122)) \<or>
     c \<in> {CHR ''/'', CHR ''-'', CHR ''_'', CHR ''.''}"

definition check_mode :: "(string \<Rightarrow> unit result) \<Rightarrow> vm_config \<Rightarrow> unit result" where
  "check_mode parse_cron config =
     (if vc_auto_suspend config \<noteq> None \<and> vc_mode config \<noteq> Permanent
      then Inl (error.Vmm ''auto_suspend is only supported for permanent VMs'')
      else if vc_mode config = ScheduleMode then
        (if vc_cmd config = [] then Inl (error.Vmm ''schedule VMs require a non-empty cmd'')
         else case vc_cron_schedule config of
                None \<Rightarrow> Inl (error.Vmm ''schedule VMs require a cron_schedule'')
              | Some cron \<Rightarrow> parse_cron cron)
      else if vc_cron_schedule config \<noteq> None \<or> vc_timeout_secs config \<noteq> None
      then Inl (error.Vmm ''cron_schedule and timeout_secs are only supported for schedule VMs'')
      else Inr ())"

definition check_block_storage :: "vm_config \<Rightarrow> unit result" where
  "check_block_storage config =
     (case vc_block_storage config of
        None \<Rightarrow> Inr ()
      | Some bs \<Rightarrow>
          if bs_size_mb bs < 128 then Inl (error.Vmm ''block_storage size_mb must be >= 128'')
          else if (case bs_chunk_kb bs of None \<Rightarrow> False | Some kb \<Rightarrow> kb \<notin> set ALLOWED_CHUNK_KB)
          then Inl (error.Vmm ''block_storage chunk_kb must be one of [256, 512, 1024, 2048, 4096]'')
          else if bs_mount_path bs \<noteq> [] \<and>
                  \<not> (starts_with ''/'' (bs_mount_path bs) \<and> 1 < length (bs_mount_path bs) \<and>
                     list_all mount_char (bs_mount_path bs))
          then Inl (error.Vmm ''block_storage mount_path must be an absolute path of [a-z0-9/_-.]'')
          else Inr ())"

definition image_defaults :: "vm_config \<Rightarrow> vm_config" where
  "image_defaults config =
     (if vc_image config = ''postgres-16'' \<or> vc_image config = ''tiko-postgres'' then
        (case vc_auto_suspend config of
           Some a \<Rightarrow>
             if asc_idle_check_cmd a = []
             then config\<lparr>vc_auto_suspend := Some (a\<lparr>asc_idle_check_cmd := [''/usr/local/bin/tikovm-pg-idle-check'']\<rparr>)\<rparr>
             else config
         | None \<Rightarrow> config)
      else config)"

text \<open>What the outside answers to one \<open>create_vm\<close>: the random draws, the clock, the directory, the
  storage attach, the Firecracker process and its configuration.\<close>

record create_env =
  ce_picks :: "nat list"
  ce_now :: instant
  ce_mkdir :: "unit result"
  ce_attach :: attach_env
  ce_spawn :: "child result"
  ce_configure :: "unit result"

text \<open>The block device and the process of a new VM, in the order of the \<open>setup\<close> block.  The first
  component is the state with the device attached, if it was.\<close>

definition create_setup ::
  "create_env \<Rightarrow> vm_config \<Rightarrow> vm_id \<Rightarrow> inst_ref \<Rightarrow> 'h vmm \<Rightarrow> 'h vmm \<times> child result" where
  "create_setup env config vm_id r v =
     (let attached =
        (case vc_block_storage config of
           None \<Rightarrow> (v, Inr ())
         | Some bs \<Rightarrow>
             (case storage_attach (fm_storage_root v) vm_id (vc_project_id config) (ce_attach env) (fm_workers v) of
                (ws, Inl e) \<Rightarrow> (v\<lparr>fm_workers := ws\<rparr>, Inl e)
              | (ws, Inr dev) \<Rightarrow>
                  (set_inst r (\<lambda>i. i\<lparr>vi_block_device := Some dev\<rparr>) (v\<lparr>fm_workers := ws\<rparr>), Inr ())))
      in case attached of
           (v1, Inl e) \<Rightarrow> (v1, Inl e)
         | (v1, Inr _) \<Rightarrow>
             (case ce_spawn env of
                Inl e \<Rightarrow> (v1, Inl e)
              | Inr child \<Rightarrow>
                  (case ce_configure env of Inl e \<Rightarrow> (v1, Inl e) | Inr _ \<Rightarrow> (v1, Inr child))))"

definition create_undo ::
  "('h, 'm) host_os_scheme \<Rightarrow> (net_state \<Rightarrow> string + string) \<Rightarrow> vm_id \<Rightarrow> inst_ref \<Rightarrow> 'h vmm \<Rightarrow> 'h vmm" where
  "create_undo os to_json vm_id r v =
     (let v1 = (if Option.bind (inst v r) vi_block_device \<noteq> None
                then v\<lparr>fm_workers := fst (storage_detach vm_id (fm_workers v))\<rparr> else v);
          ((m, h), _) = nm_release os to_json (fm_net v1) vm_id (fm_host v1)
      in v1\<lparr>fm_net := m, fm_host := h\<rparr>)"

definition create_vm ::
  "('h, 'm) host_os_scheme \<Rightarrow> (net_state \<Rightarrow> string + string) \<Rightarrow> (string \<Rightarrow> unit result) \<Rightarrow> create_env \<Rightarrow>
   vm_config \<Rightarrow> 'h vmm \<Rightarrow> 'h vmm \<times> vm_id result" where
  "create_vm os to_json parse_cron env config v =
     (case check_mode parse_cron config of
        Inl e \<Rightarrow> (v, Inl e)
      | Inr _ \<Rightarrow>
     (case check_block_storage config of
        Inl e \<Rightarrow> (v, Inl e)
      | Inr _ \<Rightarrow>
      let config = image_defaults config in
     (case vm_instance_new (ce_picks env) (ce_now env) config (fm_assets_dir v) (fm_work_dir v) of
        Inl e \<Rightarrow> (v, Inl e)
      | Inr i \<Rightarrow>
      let vm_id = vi_vm_id i in
     (case ce_mkdir env of
        Inl e \<Rightarrow> (v, Inl e)
      | Inr _ \<Rightarrow>
     (case nm_allocate os to_json (fm_net v) (vc_project_id config) vm_id (tap_for_vm vm_id) (fm_host v) of
        ((m, h), Inl e) \<Rightarrow> (v\<lparr>fm_net := m, fm_host := h\<rparr>, Inl e)
      | ((m, h), Inr net) \<Rightarrow>
          let r = fm_next_ref v;
              i1 = i\<lparr>vi_net := Some net, vi_guest_cid := Some (fm_next_cid v)\<rparr>;
              v1 = v\<lparr>fm_net := m, fm_host := h, fm_next_cid := fm_next_cid v + 1,
                     fm_next_ref := r + 1, fm_heap := AList.update r i1 (fm_heap v)\<rparr>
          in (case create_setup env config vm_id r v1 of
                (v2, Inl e) \<Rightarrow> (create_undo os to_json vm_id r v2, Inl e)
              | (v2, Inr child) \<Rightarrow>
                  let e = (fc_entry_new r i1)\<lparr>fe_fc := Some child\<rparr>;
                      v3 = v2\<lparr>fm_vms := AList.update vm_id e (fm_vms v2)\<rparr>
                  in (case inst_transition r Created v3 of
                        (v4, Inl e) \<Rightarrow> (v4, Inl e)
                      | (v4, Inr _) \<Rightarrow> (v4, Inr vm_id))))))))"

end
