(* ===== verification/Lifecycle.thy ===== *)
theory Lifecycle
  imports Vmm
begin

text \<open>
  The lifecycle operations of \<open>hostd/src/vmm/firecracker/vmm.rs\<close>: start, pause, resume, snapshot,
  restore and destroy, each in the steps between its await points, and the system they make when
  any number of them is in flight.
\<close>

section \<open>The steps of the operations\<close>

text \<open>An operation in flight: the VM it was asked for, the instance it holds, the snapshot it works
  with, and whether a snapshot already took the process to stop it.\<close>

record job =
  jb_vm :: vm_id
  jb_ref :: inst_ref
  jb_op :: lifecycle_op
  jb_snapshot :: "vm_snapshot option"
  jb_stopped :: bool

text \<open>The shared beginning: the entry's parts, and the transition that only one operation wins.\<close>

definition op_enter :: "lifecycle_op \<Rightarrow> vm_id \<Rightarrow> 'h vmm \<Rightarrow> 'h vmm \<times> job result" where
  "op_enter op vm_id v =
     (case entry_parts vm_id v of
        Inl e \<Rightarrow> (v, Inl e)
      | Inr r \<Rightarrow>
          (case inst_transition r (op_begin op) v of
             (v', Inl e) \<Rightarrow> (v', Inl e)
           | (v', Inr _) \<Rightarrow>
               (v', Inr \<lparr>jb_vm = vm_id, jb_ref = r, jb_op = op, jb_snapshot = None, jb_stopped = False\<rparr>)))"

definition restore_enter :: "vm_id \<Rightarrow> 'h vmm \<Rightarrow> 'h vmm \<times> job result" where
  "restore_enter vm_id v =
     (case entry_parts vm_id v of
        Inl e \<Rightarrow> (v, Inl e)
      | Inr r \<Rightarrow>
          (case Option.bind (inst v r) vi_snapshot of
             None \<Rightarrow> (v, Inl (error.Vmm (''vm '' @ vm_id @ '' has no snapshot'')))
           | Some snap \<Rightarrow>
               (case inst_transition r Restoring v of
                  (v', Inl e) \<Rightarrow> (v', Inl e)
                | (v', Inr _) \<Rightarrow>
                    (v', Inr \<lparr>jb_vm = vm_id, jb_ref = r, jb_op = OpRestore, jb_snapshot = Some snap,
                             jb_stopped = False\<rparr>))))"

definition lifecycle_enter :: "lifecycle_op \<Rightarrow> vm_id \<Rightarrow> 'h vmm \<Rightarrow> 'h vmm \<times> job result" where
  "lifecycle_enter op vm_id v = (if op = OpRestore then restore_enter vm_id v else op_enter op vm_id v)"

text \<open>A transition, then the rest of the operation.\<close>

definition leave :: "inst_ref \<Rightarrow> vm_state \<Rightarrow> ('h vmm \<Rightarrow> 'h vmm \<times> unit result) \<Rightarrow> 'h vmm \<Rightarrow> 'h vmm \<times> unit result" where
  "leave r next k v =
     (case inst_transition r next v of (v', Inl e) \<Rightarrow> (v', Inl e) | (v', Inr _) \<Rightarrow> k v')"

definition woken :: "instant \<Rightarrow> vm_id \<Rightarrow> 'h vmm \<Rightarrow> 'h vmm" where
  "woken now vm_id v = v\<lparr>fm_wake_times := AList.update vm_id now (fm_wake_times v)\<rparr>"

text \<open>\<open>start_vm\<close>: the \<open>InstanceStart\<close> action and the wait for it.\<close>

definition start_finish :: "instant \<Rightarrow> unit result \<Rightarrow> unit result \<Rightarrow> job \<Rightarrow> 'h vmm \<Rightarrow> 'h vmm \<times> unit result" where
  "start_finish now put_result wait_result j v =
     (case put_result of
        Inr _ \<Rightarrow>
          (case wait_result of
             Inr _ \<Rightarrow> leave (jb_ref j) Started (\<lambda>v'. (woken now (jb_vm j) v', Inr ())) v
           | Inl e \<Rightarrow> leave (jb_ref j) Created (\<lambda>v'. (v', Inl e)) v)
      | Inl e \<Rightarrow> leave (jb_ref j) Created (\<lambda>v'. (v', Inl e)) v)"

definition pause_finish :: "unit result \<Rightarrow> job \<Rightarrow> 'h vmm \<Rightarrow> 'h vmm \<times> unit result" where
  "pause_finish patch_result j v =
     (case patch_result of
        Inr _ \<Rightarrow> leave (jb_ref j) Paused (\<lambda>v'. (v', Inr ())) v
      | Inl e \<Rightarrow> leave (jb_ref j) Started (\<lambda>v'. (v', Inl e)) v)"

definition resume_finish :: "unit result \<Rightarrow> job \<Rightarrow> 'h vmm \<Rightarrow> 'h vmm \<times> unit result" where
  "resume_finish patch_result j v =
     (case patch_result of
        Inr _ \<Rightarrow> leave (jb_ref j) Started (\<lambda>v'. (v', Inr ())) v
      | Inl e \<Rightarrow> leave (jb_ref j) Paused (\<lambda>v'. (v', Inl e)) v)"

text \<open>\<open>snapshot_vm\<close>, once Firecracker paused the VM and wrote the snapshot: the process is taken out of
  the entry and killed, then the instance becomes suspended.  A failure resumes it.\<close>

definition snapshot_stop :: "instant \<Rightarrow> job \<Rightarrow> 'h vmm \<Rightarrow> 'h vmm \<times> job" where
  "snapshot_stop now j v =
     (let snap = map_option (new_snapshot now) (inst v (jb_ref j))
      in (set_entry (jb_vm j) (\<lambda>e. e\<lparr>fe_fc := None\<rparr>) v, j\<lparr>jb_snapshot := snap, jb_stopped := True\<rparr>))"

definition snapshot_finish :: "job \<Rightarrow> 'h vmm \<Rightarrow> 'h vmm \<times> vm_snapshot option result" where
  "snapshot_finish j v =
     (let v1 = set_inst (jb_ref j) (\<lambda>i. i\<lparr>vi_snapshot := jb_snapshot j\<rparr>) v
      in case inst_transition (jb_ref j) Suspended v1 of
           (v2, Inl e) \<Rightarrow> (v2, Inl e)
         | (v2, Inr _) \<Rightarrow> (v2, Inr (jb_snapshot j)))"

definition snapshot_failed :: "error \<Rightarrow> job \<Rightarrow> 'h vmm \<Rightarrow> 'h vmm \<times> unit result" where
  "snapshot_failed e j v = leave (jb_ref j) Started (\<lambda>v'. (v', Inl e)) v"

text \<open>\<open>restore_vm\<close>: the outcome of the spawn, the snapshot load and the wait.  A VM destroyed in the
  meantime drops the new process.\<close>

definition restore_finish :: "instant \<Rightarrow> child result \<Rightarrow> job \<Rightarrow> 'h vmm \<Rightarrow> 'h vmm \<times> unit result" where
  "restore_finish now outcome j v =
     (case outcome of
        Inr child \<Rightarrow>
          (case map_of (fm_vms v) (jb_vm j) of
             None \<Rightarrow> (v, Inl (VmNotFound (jb_vm j)))
           | Some _ \<Rightarrow>
               leave (jb_ref j) Started (\<lambda>v'. (woken now (jb_vm j) v', Inr ()))
                 (set_entry (jb_vm j) (\<lambda>e. e\<lparr>fe_fc := Some child\<rparr>) v))
      | Inl e \<Rightarrow> leave (jb_ref j) Suspended (\<lambda>v'. (v', Inl e)) v)"

text \<open>\<open>destroy_vm\<close> takes the entry out of the map whatever the VM's state, releases its network and its
  volume, and forgets it; only the missing VM is an error.\<close>

definition destroy_vm ::
  "('h, 'm) host_os_scheme \<Rightarrow> (net_state \<Rightarrow> string + string) \<Rightarrow> vm_id \<Rightarrow> 'h vmm \<Rightarrow> 'h vmm \<times> unit result" where
  "destroy_vm os to_json vm_id v =
     (case map_of (fm_vms v) vm_id of
        None \<Rightarrow> (v, Inl (VmNotFound vm_id))
      | Some e \<Rightarrow>
          let ((m, h), _) = nm_release os to_json (fm_net v) vm_id (fm_host v)
          in (v\<lparr>fm_vms := AList.delete vm_id (fm_vms v),
                fm_net := m, fm_host := h,
                fm_workers := fst (storage_detach vm_id (fm_workers v)),
                fm_wake_times := AList.delete vm_id (fm_wake_times v),
                fm_activity := clear vm_id (fm_activity v),
                fm_run_locks := AList.delete vm_id (fm_run_locks v)\<rparr>, Inr ()))"

section \<open>The system\<close>

text \<open>
  A configuration is the VMM and the operations in flight.  \<open>'h\<close> is the host; the ids a creation
  draws are taken not to repeat an id still in use.
\<close>

type_synonym 'h sys = "'h vmm \<times> job list"

definition fresh_id :: "vm_id \<Rightarrow> 'h sys \<Rightarrow> bool" where
  "fresh_id vm_id s \<longleftrightarrow> map_of (fm_vms (fst s)) vm_id = None \<and> vm_id \<notin> jb_vm ` set (snd s)"

text \<open>Operations that leave the map, the instances' states and the processes alone (workloads, exposed
  ports, activity, locks) are one kind of step.\<close>

definition same_lifecycle :: "'h vmm \<Rightarrow> 'h vmm \<Rightarrow> bool" where
  "same_lifecycle v v' \<longleftrightarrow>
     fm_next_ref v' = fm_next_ref v \<and>
     map_option (\<lambda>e. (fe_instance e, fe_fc e)) \<circ> map_of (fm_vms v') =
       map_option (\<lambda>e. (fe_instance e, fe_fc e)) \<circ> map_of (fm_vms v) \<and>
     map_option (\<lambda>i. (vi_vm_id i, vi_state i, vi_snapshot i)) \<circ> inst v' =
       map_option (\<lambda>i. (vi_vm_id i, vi_state i, vi_snapshot i)) \<circ> inst v"

inductive sys_step :: "'h sys \<Rightarrow> 'h sys \<Rightarrow> bool" where
  Enter: "lifecycle_enter op vm_id v = (v', Inr j) \<Longrightarrow> sys_step (v, js) (v', j # js)"
| StartDone: "j \<in> set js \<Longrightarrow> jb_op j = OpStart \<Longrightarrow>
    sys_step (v, js) (fst (start_finish now p w j v), remove1 j js)"
| PauseDone: "j \<in> set js \<Longrightarrow> jb_op j = OpPause \<Longrightarrow>
    sys_step (v, js) (fst (pause_finish p j v), remove1 j js)"
| ResumeDone: "j \<in> set js \<Longrightarrow> jb_op j = OpResume \<Longrightarrow>
    sys_step (v, js) (fst (resume_finish p j v), remove1 j js)"
| SnapshotStop: "j \<in> set js \<Longrightarrow> jb_op j = OpSnapshot \<Longrightarrow> \<not> jb_stopped j \<Longrightarrow>
    snapshot_stop now j v = (v', j') \<Longrightarrow> sys_step (v, js) (v', j' # remove1 j js)"
| SnapshotDone: "j \<in> set js \<Longrightarrow> jb_op j = OpSnapshot \<Longrightarrow> jb_stopped j \<Longrightarrow>
    sys_step (v, js) (fst (snapshot_finish j v), remove1 j js)"
| SnapshotFailed: "j \<in> set js \<Longrightarrow> jb_op j = OpSnapshot \<Longrightarrow> \<not> jb_stopped j \<Longrightarrow>
    sys_step (v, js) (fst (snapshot_failed e j v), remove1 j js)"
| RestoreDone: "j \<in> set js \<Longrightarrow> jb_op j = OpRestore \<Longrightarrow>
    sys_step (v, js) (fst (restore_finish now oc j v), remove1 j js)"
| Destroy: "sys_step (v, js) (fst (destroy_vm (os :: 'h host_os) to_json vm_id v), js)"
| Create: "fresh_id (vm_id_new_random (ce_picks env) (vc_project_id config)) (v, js) \<Longrightarrow>
    sys_step (v, js) (fst (create_vm (os :: 'h host_os) to_json parse_cron env config v), js)"
| Other: "same_lifecycle v v' \<Longrightarrow> sys_step (v, js) (v', js)"

inductive_cases sys_step_cases: "sys_step (v, js) s'"

definition sys_init :: "'h sys \<Rightarrow> bool" where
  "sys_init s \<longleftrightarrow> fm_vms (fst s) = [] \<and> fm_heap (fst s) = [] \<and> snd s = []"

abbreviation reachable :: "'h sys \<Rightarrow> bool" where
  "reachable s \<equiv> \<exists>s0. sys_init s0 \<and> sys_step\<^sup>*\<^sup>* s0 s"

section \<open>The invariant\<close>

definition suspended_state :: "vm_state \<Rightarrow> bool" where
  "suspended_state s \<longleftrightarrow> s = Suspended \<or> s = Restoring"

definition job_ok :: "'h vmm \<Rightarrow> job \<Rightarrow> bool" where
  "job_ok v j \<longleftrightarrow>
     (\<exists>i. inst v (jb_ref j) = Some i \<and> vi_state i = op_begin (jb_op j) \<and> vi_vm_id i = jb_vm j) \<and>
     (jb_stopped j \<longrightarrow> jb_op j = OpSnapshot \<and> jb_snapshot j \<noteq> None) \<and>
     (\<forall>e. map_of (fm_vms v) (jb_vm j) = Some e \<longrightarrow> fe_instance e = jb_ref j)"

definition entry_ok :: "job list \<Rightarrow> fc_entry \<Rightarrow> vm_instance \<Rightarrow> bool" where
  "entry_ok js e i \<longleftrightarrow>
     (transitional (vi_state i) \<longrightarrow> fe_instance e \<in> jb_ref ` set js) \<and>
     (fe_fc e = None \<longleftrightarrow>
        suspended_state (vi_state i) \<or> (\<exists>j \<in> set js. jb_ref j = fe_instance e \<and> jb_stopped j))"

definition lc_inv :: "'h sys \<Rightarrow> bool" where
  "lc_inv s \<longleftrightarrow> (case s of (v, js) \<Rightarrow>
     (\<forall>r i. inst v r = Some i \<longrightarrow>
        r < fm_next_ref v \<and> (suspended_state (vi_state i) \<longrightarrow> vi_snapshot i \<noteq> None)) \<and>
     distinct (map jb_ref js) \<and> (\<forall>j \<in> set js. job_ok v j) \<and>
     (\<forall>vm e. map_of (fm_vms v) vm = Some e \<longrightarrow>
        (\<exists>i. inst v (fe_instance e) = Some i \<and> vi_vm_id i = vm \<and> entry_ok js e i)))"

lemma lc_invD:
  assumes "lc_inv (v, js)"
  shows "inst v r = Some i \<Longrightarrow> r < fm_next_ref v"
    "inst v r = Some i \<Longrightarrow> suspended_state (vi_state i) \<Longrightarrow> vi_snapshot i \<noteq> None"
    "distinct (map jb_ref js)" "j \<in> set js \<Longrightarrow> job_ok v j"
    "map_of (fm_vms v) vm = Some e \<Longrightarrow> \<exists>i. inst v (fe_instance e) = Some i \<and> vi_vm_id i = vm \<and> entry_ok js e i"
  using assms unfolding lc_inv_def prod.case by blast+

lemma lc_invI:
  assumes "\<And>r i. inst v r = Some i \<Longrightarrow> r < fm_next_ref v"
    "\<And>r i. inst v r = Some i \<Longrightarrow> suspended_state (vi_state i) \<Longrightarrow> vi_snapshot i \<noteq> None"
    "distinct (map jb_ref js)" "\<And>j. j \<in> set js \<Longrightarrow> job_ok v j"
    "\<And>vm e. map_of (fm_vms v) vm = Some e \<Longrightarrow> \<exists>i. inst v (fe_instance e) = Some i \<and> vi_vm_id i = vm \<and> entry_ok js e i"
  shows "lc_inv (v, js)"
  using assms unfolding lc_inv_def prod.case by blast

lemma job_unique:
  assumes "lc_inv (v, js)" "j \<in> set js" "k \<in> set js" "jb_ref j = jb_ref k"
  shows "j = k"
  using lc_invD(3)[OF assms(1)] assms(2-4) by (auto simp: distinct_map dest: inj_onD)

lemma jobs_removed:
  assumes "lc_inv (v, js)"
  shows "set (remove1 j js) = set js - {j}" "distinct (map jb_ref (remove1 j js))"
proof -
  have d: "distinct js" using lc_invD(3)[OF assms] by (simp add: distinct_map)
  then show "set (remove1 j js) = set js - {j}" by simp
  have "inj_on jb_ref (set js)" using lc_invD(3)[OF assms] by (simp add: distinct_map)
  then show "distinct (map jb_ref (remove1 j js))"
    using d by (simp add: distinct_map inj_on_diff)
qed

lemma entry_ok_other:
  assumes "entry_ok js e i" "set js' = set js - {j}" "fe_instance e \<noteq> jb_ref j"
  shows "entry_ok js' e i"
proof -
  have "(\<exists>k \<in> set js'. jb_ref k = fe_instance e \<and> jb_stopped k) \<longleftrightarrow>
      (\<exists>k \<in> set js. jb_ref k = fe_instance e \<and> jb_stopped k)"
    using assms(2,3) by auto
  moreover have "fe_instance e \<in> jb_ref ` set js' \<longleftrightarrow> fe_instance e \<in> jb_ref ` set js"
    using assms(2,3) by auto
  ultimately show ?thesis using assms(1) by (simp add: entry_ok_def)
qed

section \<open>Jobs that leave\<close>

lemma inst_set_inst: "inst (set_inst r f v) = (inst v)(r := map_option f (inst v r))"
  by (auto simp: inst_def set_inst_def fun_eq_iff map_simps)

lemma inst_set_entry [simp]: "inst (set_entry vm f v) = inst v"
  by (simp add: inst_def set_entry_def fun_eq_iff)

lemma inst_woken [simp]: "inst (woken now vm v) = inst v"
  by (simp add: inst_def woken_def fun_eq_iff)

lemma set_inst_fields [simp]:
  "fm_vms (set_inst r f v) = fm_vms v" "fm_next_ref (set_inst r f v) = fm_next_ref v"
  "fm_vms (woken now vm v) = fm_vms v" "fm_next_ref (woken now vm v) = fm_next_ref v"
  "fm_next_ref (set_entry vm g v) = fm_next_ref v"
  by (simp_all add: set_inst_def woken_def set_entry_def)

lemma vms_set_entry: "map_of (fm_vms (set_entry vm f v)) = (map_of (fm_vms v))(vm := map_option f (map_of (fm_vms v) vm))"
  by (simp add: set_entry_def map_simps)

lemma inst_transition_ok:
  "inst v r = Some i \<Longrightarrow> can_transition_to (vi_state i) next \<Longrightarrow>
     inst_transition r next v = (set_inst r (\<lambda>i. i\<lparr>vi_state := next\<rparr>) v, Inr ())"
  by (simp add: inst_transition_def transition_def)

lemma leave_ok:
  "inst v r = Some i \<Longrightarrow> can_transition_to (vi_state i) next \<Longrightarrow>
     leave r next k v = k (set_inst r (\<lambda>i. i\<lparr>vi_state := next\<rparr>) v)"
  by (simp add: leave_def inst_transition_ok)

lemma job_leaves:
  assumes inv: "lc_inv (v, js)" and j: "j \<in> set js"
    and heap: "inst v' = (inst v)(jb_ref j \<mapsto> i')" and i': "vi_vm_id i' = jb_vm j"
      "\<not> transitional (vi_state i')" "vi_state i' = Suspended \<Longrightarrow> vi_snapshot i' \<noteq> None"
    and nr: "fm_next_ref v' = fm_next_ref v"
    and others: "\<And>vm. vm \<noteq> jb_vm j \<Longrightarrow> map_of (fm_vms v') vm = map_of (fm_vms v) vm"
    and own: "map_option fe_instance (map_of (fm_vms v') (jb_vm j)) = map_option fe_instance (map_of (fm_vms v) (jb_vm j))"
      "\<And>e. map_of (fm_vms v') (jb_vm j) = Some e \<Longrightarrow> fe_fc e = None \<longleftrightarrow> vi_state i' = Suspended"
  shows "lc_inv (v', remove1 j js)"
proof -
  note rem = jobs_removed[OF inv, of j]
  have jok: "job_ok v j" by (rule lc_invD(4)[OF inv j])
  have ref: "map_option fe_instance (map_of (fm_vms v') vm) = map_option fe_instance (map_of (fm_vms v) vm)" for vm
    using others own(1) by (cases "vm = jb_vm j") simp_all
  have nts: "suspended_state (vi_state i') \<longleftrightarrow> vi_state i' = Suspended"
    using i'(2) by (auto simp: suspended_state_def transitional_def)
  show ?thesis
  proof (rule lc_invI)
    fix r i assume "inst v' r = Some i"
    then show "r < fm_next_ref v'" using lc_invD(1)[OF inv] jok nr by (auto simp: heap job_ok_def split: if_splits)
  next
    fix r i assume "inst v' r = Some i" "suspended_state (vi_state i)"
    then show "vi_snapshot i \<noteq> None"
      using lc_invD(2)[OF inv] i'(3) nts by (cases "r = jb_ref j") (auto simp: heap)
  next
    show "distinct (map jb_ref (remove1 j js))" by (rule rem(2))
  next
    fix k assume "k \<in> set (remove1 j js)"
    then have k: "k \<in> set js" "k \<noteq> j" using rem(1) by auto
    then have "jb_ref k \<noteq> jb_ref j" using job_unique[OF inv k(1) j] by blast
    moreover have "fe_instance e = jb_ref k" if m: "map_of (fm_vms v') (jb_vm k) = Some e" for e
    proof -
      obtain e0 where "map_of (fm_vms v) (jb_vm k) = Some e0" "fe_instance e0 = fe_instance e"
        using ref[of "jb_vm k"] m by (cases "map_of (fm_vms v) (jb_vm k)") auto
      then show ?thesis using lc_invD(4)[OF inv k(1)] by (simp add: job_ok_def)
    qed
    ultimately show "job_ok v' k" using lc_invD(4)[OF inv k(1)] unfolding job_ok_def heap by simp
  next
    fix vm e assume e: "map_of (fm_vms v') vm = Some e"
    then obtain e0 where e0: "map_of (fm_vms v) vm = Some e0" "fe_instance e0 = fe_instance e"
      using ref[of vm] by (cases "map_of (fm_vms v) vm") auto
    then obtain i where i: "inst v (fe_instance e) = Some i" "vi_vm_id i = vm" "entry_ok js e0 i"
      using lc_invD(5)[OF inv e0(1)] by auto
    show "\<exists>i. inst v' (fe_instance e) = Some i \<and> vi_vm_id i = vm \<and> entry_ok (remove1 j js) e i"
    proof (cases "fe_instance e = jb_ref j")
      case True
      then have vm: "vm = jb_vm j" using i jok by (auto simp: job_ok_def)
      have "\<not> (\<exists>k \<in> set (remove1 j js). jb_ref k = fe_instance e)"
        using True rem(1) job_unique[OF inv _ j] by auto
      then have "entry_ok (remove1 j js) e i'" using own(2) e vm i'(2) nts by (auto simp: entry_ok_def)
      then show ?thesis using True vm i'(1) by (simp add: heap)
    next
      case False
      have "vm \<noteq> jb_vm j"
      proof
        assume "vm = jb_vm j"
        then have "fe_instance e0 = jb_ref j" using jok e0(1) by (simp add: job_ok_def)
        with False e0(2) show False by simp
      qed
      then have "e0 = e" using others e e0(1) by simp
      then have "entry_ok (remove1 j js) e i" using entry_ok_other[OF i(3) rem(1)] False by simp
      then show ?thesis using i False by (simp add: heap)
    qed
  qed
qed

text \<open>The instance of a job, and that the job may leave either way.\<close>

lemma job_inst:
  assumes "lc_inv (v, js)" "j \<in> set js"
  obtains i where "inst v (jb_ref j) = Some i" "vi_vm_id i = jb_vm j" "vi_state i = op_begin (jb_op j)"
    "can_transition_to (vi_state i) (op_done (jb_op j))" "can_transition_to (vi_state i) (op_failed (jb_op j))"
  using lc_invD(4)[OF assms] lc.leave by (auto simp: job_ok_def)

text \<open>A job that ends by a mere transition into a state where the process is alive.\<close>

lemma job_entry:
  assumes "lc_inv (v, js)" "j \<in> set js" "map_of (fm_vms v) (jb_vm j) = Some e"
    "inst v (jb_ref j) = Some i"
  shows "fe_fc e = None \<longleftrightarrow> suspended_state (vi_state i) \<or> jb_stopped j"
proof -
  have r: "fe_instance e = jb_ref j" using lc_invD(4)[OF assms(1,2)] assms(3) by (simp add: job_ok_def)
  then have "entry_ok js e i" using lc_invD(5)[OF assms(1,3)] assms(4) by auto
  moreover have "(\<exists>k \<in> set js. jb_ref k = fe_instance e \<and> jb_stopped k) \<longleftrightarrow> jb_stopped j"
    using job_unique[OF assms(1,2)] assms(2) r by metis
  ultimately show ?thesis by (simp add: entry_ok_def)
qed

lemma job_leaves_plain:
  assumes inv: "lc_inv (v, js)" and j: "j \<in> set js"
    and i: "inst v (jb_ref j) = Some i" "\<not> transitional s"
    and alive: "s = Suspended \<longleftrightarrow> suspended_state (vi_state i)" "\<not> jb_stopped j"
    and v': "v' = set_inst (jb_ref j) (\<lambda>i. i\<lparr>vi_state := s\<rparr>) v \<or>
             v' = woken now (jb_vm j) (set_inst (jb_ref j) (\<lambda>i. i\<lparr>vi_state := s\<rparr>) v)"
  shows "lc_inv (v', remove1 j js)"
proof (rule job_leaves[OF inv j, where i' = "i\<lparr>vi_state := s\<rparr>"])
  show "inst v' = (inst v)(jb_ref j \<mapsto> i\<lparr>vi_state := s\<rparr>)" using v' i by (auto simp: inst_set_inst)
  show "vi_vm_id (i\<lparr>vi_state := s\<rparr>) = jb_vm j" using lc_invD(4)[OF inv j] i by (simp add: job_ok_def)
  show "\<not> transitional (vi_state (i\<lparr>vi_state := s\<rparr>))" using i(2) by simp
  show "vi_snapshot (i\<lparr>vi_state := s\<rparr>) \<noteq> None" if "vi_state (i\<lparr>vi_state := s\<rparr>) = Suspended"
    using lc_invD(2)[OF inv i(1)] alive(1) that by simp
  show "fe_fc e = None \<longleftrightarrow> vi_state (i\<lparr>vi_state := s\<rparr>) = Suspended"
    if "map_of (fm_vms v') (jb_vm j) = Some e" for e
    using job_entry[OF inv j _ i(1)] that v' alive by auto
qed (use v' in auto)

lemma job_leaves_to:
  assumes "lc_inv (v, js)" "j \<in> set js" "inst v (jb_ref j) = Some i" "\<not> jb_stopped j"
    "\<not> transitional s" "s = Suspended \<longleftrightarrow> suspended_state (vi_state i)"
  shows "lc_inv (set_inst (jb_ref j) (\<lambda>i. i\<lparr>vi_state := s\<rparr>) v, remove1 j js)"
    "lc_inv (woken now (jb_vm j) (set_inst (jb_ref j) (\<lambda>i. i\<lparr>vi_state := s\<rparr>) v), remove1 j js)"
  using job_leaves_plain[OF assms(1-3,5,6,4)] by blast+

section \<open>Every step keeps the invariant\<close>

lemma start_finish_cases:
  assumes "inst v (jb_ref j) = Some i" "vi_state i = Starting"
  shows "\<exists>s \<in> {Started, Created}. \<exists>r. start_finish now p w j v =
     (let v' = set_inst (jb_ref j) (\<lambda>i. i\<lparr>vi_state := s\<rparr>) v in
      (if s = Started then woken now (jb_vm j) v' else v', r)) \<and>
      (s = Started \<longrightarrow> r = Inr ()) \<and> (s = Created \<longrightarrow> (\<exists>e. r = Inl e \<and> (p = Inl e \<or> w = Inl e)))"
proof -
  have t: "can_transition_to (vi_state i) Started" "can_transition_to (vi_state i) Created"
    using lc.leave[of OpStart] by (simp_all add: assms(2))
  note l = leave_ok[OF assms(1) t(1)] leave_ok[OF assms(1) t(2)]
  show ?thesis by (cases p; cases w) (simp_all add: start_finish_def l)
qed

lemma pause_finish_cases:
  assumes "inst v (jb_ref j) = Some i" "vi_state i = Pausing"
  shows "pause_finish p j v = (case p of
      Inr _ \<Rightarrow> (set_inst (jb_ref j) (\<lambda>i. i\<lparr>vi_state := Paused\<rparr>) v, Inr ())
    | Inl e \<Rightarrow> (set_inst (jb_ref j) (\<lambda>i. i\<lparr>vi_state := Started\<rparr>) v, Inl e))"
proof -
  have t: "can_transition_to (vi_state i) Paused" "can_transition_to (vi_state i) Started"
    using lc.leave[of OpPause] by (simp_all add: assms(2))
  show ?thesis by (cases p) (simp_all add: pause_finish_def leave_ok[OF assms(1)] t)
qed

lemma resume_finish_cases:
  assumes "inst v (jb_ref j) = Some i" "vi_state i = Resuming"
  shows "resume_finish p j v = (case p of
      Inr _ \<Rightarrow> (set_inst (jb_ref j) (\<lambda>i. i\<lparr>vi_state := Started\<rparr>) v, Inr ())
    | Inl e \<Rightarrow> (set_inst (jb_ref j) (\<lambda>i. i\<lparr>vi_state := Paused\<rparr>) v, Inl e))"
proof -
  have t: "can_transition_to (vi_state i) Paused" "can_transition_to (vi_state i) Started"
    using lc.leave[of OpResume] by (simp_all add: assms(2))
  show ?thesis by (cases p) (simp_all add: resume_finish_def leave_ok[OF assms(1)] t)
qed

lemma snapshot_failed_cases:
  assumes "inst v (jb_ref j) = Some i" "vi_state i = Suspending"
  shows "snapshot_failed e j v = (set_inst (jb_ref j) (\<lambda>i. i\<lparr>vi_state := Started\<rparr>) v, Inl e)"
proof -
  have "can_transition_to (vi_state i) Started" using lc.leave[of OpSnapshot] by (simp add: assms(2))
  then show ?thesis by (simp add: snapshot_failed_def leave_ok[OF assms(1)])
qed

lemma set_inst_twice: "inst (set_inst r f (set_inst r g v)) = inst (set_inst r (f \<circ> g) v)"
  by (cases "inst v r") (simp_all add: inst_set_inst)

lemma snapshot_finish_cases:
  assumes "inst v (jb_ref j) = Some i" "vi_state i = Suspending"
  shows "\<exists>v'. snapshot_finish j v = (v', Inr (jb_snapshot j)) \<and> fm_vms v' = fm_vms v \<and> fm_next_ref v' = fm_next_ref v \<and>
     inst v' = (inst v)(jb_ref j \<mapsto> i\<lparr>vi_snapshot := jb_snapshot j, vi_state := Suspended\<rparr>)"
proof -
  have "can_transition_to Suspending Suspended" using lc.leave[of OpSnapshot] by simp
  then show ?thesis using assms
    by (simp add: snapshot_finish_def inst_transition_def transition_def inst_set_inst)
qed

lemma restore_finish_cases:
  assumes "inst v (jb_ref j) = Some i" "vi_state i = Restoring"
  shows "restore_finish now oc j v =
     (case oc of
        Inr child \<Rightarrow>
          (case map_of (fm_vms v) (jb_vm j) of
             None \<Rightarrow> (v, Inl (VmNotFound (jb_vm j)))
           | Some _ \<Rightarrow>
               (woken now (jb_vm j) (set_inst (jb_ref j) (\<lambda>i. i\<lparr>vi_state := Started\<rparr>)
                  (set_entry (jb_vm j) (\<lambda>e. e\<lparr>fe_fc := Some child\<rparr>) v)), Inr ()))
      | Inl e \<Rightarrow> (set_inst (jb_ref j) (\<lambda>i. i\<lparr>vi_state := Suspended\<rparr>) v, Inl e))"
proof -
  have t: "can_transition_to (vi_state i) Started" "can_transition_to (vi_state i) Suspended"
    using lc.leave[of OpRestore] by (simp_all add: assms(2))
  have i: "inst (set_entry (jb_vm j) f v) (jb_ref j) = Some i" for f by (simp add: assms(1))
  show ?thesis
  proof (cases oc)
    case (Inl e)
    then show ?thesis by (simp add: restore_finish_def leave_ok[OF assms(1) t(2)])
  next
    case (Inr child)
    show ?thesis
    proof (cases "map_of (fm_vms v) (jb_vm j)")
      case None
      then show ?thesis by (simp add: restore_finish_def Inr)
    next
      case (Some e)
      then show ?thesis by (simp add: restore_finish_def Inr leave_ok[OF i t(1)])
    qed
  qed
qed

lemma orphan_job_gone:
  assumes inv: "lc_inv (v, js)" and j: "j \<in> set js" and gone: "map_of (fm_vms v) (jb_vm j) = None"
  shows "lc_inv (v, remove1 j js)"
proof (rule lc_invI)
  note rem = jobs_removed[OF inv, of j]
  show "distinct (map jb_ref (remove1 j js))" by (rule rem(2))
  show "r < fm_next_ref v" if "inst v r = Some i" for r i by (rule lc_invD(1)[OF inv that])
  show "vi_snapshot i \<noteq> None" if "inst v r = Some i" "suspended_state (vi_state i)" for r i
    by (rule lc_invD(2)[OF inv that])
  show "job_ok v k" if "k \<in> set (remove1 j js)" for k using lc_invD(4)[OF inv] rem(1) that by blast
  fix vm e assume e: "map_of (fm_vms v) vm = Some e"
  then obtain i where i: "inst v (fe_instance e) = Some i" "vi_vm_id i = vm" "entry_ok js e i"
    using lc_invD(5)[OF inv] by blast
  have "fe_instance e \<noteq> jb_ref j"
  proof
    assume "fe_instance e = jb_ref j"
    then have "vm = jb_vm j" using i lc_invD(4)[OF inv j] by (auto simp: job_ok_def)
    with gone e show False by simp
  qed
  then have "entry_ok (remove1 j js) e i" by (rule entry_ok_other[OF i(3) rem(1)])
  then show "\<exists>i. inst v (fe_instance e) = Some i \<and> vi_vm_id i = vm \<and> entry_ok (remove1 j js) e i"
    by (intro exI[of _ i] conjI i(1,2))
qed

lemma finish_keeps_inv:
  assumes inv: "lc_inv (v, js)" and j: "j \<in> set js"
  shows "jb_op j = OpStart \<Longrightarrow> lc_inv (fst (start_finish now p w j v), remove1 j js)"
    "jb_op j = OpPause \<Longrightarrow> lc_inv (fst (pause_finish p j v), remove1 j js)"
    "jb_op j = OpResume \<Longrightarrow> lc_inv (fst (resume_finish p j v), remove1 j js)"
    "jb_op j = OpSnapshot \<Longrightarrow> \<not> jb_stopped j \<Longrightarrow> lc_inv (fst (snapshot_failed e j v), remove1 j js)"
    "jb_op j = OpSnapshot \<Longrightarrow> jb_stopped j \<Longrightarrow> lc_inv (fst (snapshot_finish j v), remove1 j js)"
    "jb_op j = OpRestore \<Longrightarrow> lc_inv (fst (restore_finish now oc j v), remove1 j js)"
proof -
  obtain i where i: "inst v (jb_ref j) = Some i" "vi_vm_id i = jb_vm j" "vi_state i = op_begin (jb_op j)"
    by (rule job_inst[OF inv j])
  have st: "jb_stopped j \<Longrightarrow> jb_op j = OpSnapshot \<and> jb_snapshot j \<noteq> None"
    using lc_invD(4)[OF inv j] by (simp add: job_ok_def)
  note plain = job_leaves_to[OF inv j i(1)]
  note s = transitional_def suspended_state_def i(3)
  { assume o: "jb_op j = OpStart"
    then have "vi_state i = Starting" "\<not> jb_stopped j" using i(3) st by auto
    then show "lc_inv (fst (start_finish now p w j v), remove1 j js)"
      using start_finish_cases[OF i(1), of now p w] plain(2)[of Started now] plain(1)[of Created]
      by (auto simp: s Let_def) }
  { assume o: "jb_op j = OpPause"
    then have "vi_state i = Pausing" "\<not> jb_stopped j" using i(3) st by auto
    then show "lc_inv (fst (pause_finish p j v), remove1 j js)"
      using pause_finish_cases[OF i(1), of p] plain(1)[of Started] plain(1)[of Paused]
      by (cases p) (auto simp: s) }
  { assume o: "jb_op j = OpResume"
    then have "vi_state i = Resuming" "\<not> jb_stopped j" using i(3) st by auto
    then show "lc_inv (fst (resume_finish p j v), remove1 j js)"
      using resume_finish_cases[OF i(1), of p] plain(1)[of Started] plain(1)[of Paused]
      by (cases p) (auto simp: s) }
  { assume o: "jb_op j = OpSnapshot" "\<not> jb_stopped j"
    then have "vi_state i = Suspending" using i(3) by auto
    then show "lc_inv (fst (snapshot_failed e j v), remove1 j js)"
      using snapshot_failed_cases[OF i(1), of e] plain(1)[of Started] o(2) by (auto simp: s) }
  { assume o: "jb_op j = OpSnapshot" "jb_stopped j"
    then obtain v' where v': "snapshot_finish j v = (v', Inr (jb_snapshot j))" "fm_vms v' = fm_vms v"
      "fm_next_ref v' = fm_next_ref v" "inst v' = (inst v)(jb_ref j \<mapsto> i\<lparr>vi_snapshot := jb_snapshot j, vi_state := Suspended\<rparr>)"
      using snapshot_finish_cases[OF i(1)] i(3) by auto
    have "lc_inv (v', remove1 j js)"
    proof (rule job_leaves[OF inv j v'(4)])
      show "fe_fc e = None \<longleftrightarrow> vi_state (i\<lparr>vi_snapshot := jb_snapshot j, vi_state := Suspended\<rparr>) = Suspended"
        if "map_of (fm_vms v') (jb_vm j) = Some e" for e
        using job_entry[OF inv j _ i(1)] that v'(2) o(2) by simp
    qed (use i v' st o in \<open>auto simp: transitional_def\<close>)
    then show "lc_inv (fst (snapshot_finish j v), remove1 j js)" by (simp add: v'(1)) }
  { assume o: "jb_op j = OpRestore"
    note c = restore_finish_cases[OF i(1), of now oc]
    show "lc_inv (fst (restore_finish now oc j v), remove1 j js)"
    proof (cases oc)
      case (Inl e)
      have "vi_state i = Restoring" "\<not> jb_stopped j" using o i(3) st by auto
      then show ?thesis using c Inl plain(1)[of Suspended] by (auto simp: s)
    next
      case (Inr child)
      show ?thesis
      proof (cases "map_of (fm_vms v) (jb_vm j)")
        case None
        then show ?thesis using c o i(3) Inr orphan_job_gone[OF inv j] by simp
      next
        case (Some e)
        let ?v' = "woken now (jb_vm j) (set_inst (jb_ref j) (\<lambda>i. i\<lparr>vi_state := Started\<rparr>)
                  (set_entry (jb_vm j) (\<lambda>e. e\<lparr>fe_fc := Some child\<rparr>) v))"
        have "lc_inv (?v', remove1 j js)"
          by (rule job_leaves[OF inv j, where i' = "i\<lparr>vi_state := Started\<rparr>"])
            (use i Some in \<open>auto simp: transitional_def inst_set_inst vms_set_entry\<close>)
        then show ?thesis using c o i(3) Inr Some by simp
      qed
    qed }
qed

lemma lifecycle_enter_cases:
  assumes "lifecycle_enter op vm v = (v', Inr j)" "lc_inv (v, js)"
  obtains e i where "map_of (fm_vms v) vm = Some e" "inst v (fe_instance e) = Some i"
    "can_transition_to (vi_state i) (op_begin op)"
    "v' = set_inst (fe_instance e) (\<lambda>i. i\<lparr>vi_state := op_begin op\<rparr>) v"
    "jb_vm j = vm" "jb_ref j = fe_instance e" "jb_op j = op" "\<not> jb_stopped j"
proof -
  obtain e where e: "map_of (fm_vms v) vm = Some e"
    using assms(1) by (cases "map_of (fm_vms v) vm")
      (simp_all add: lifecycle_enter_def restore_enter_def op_enter_def entry_parts_def split: if_splits)
  then obtain i where i: "inst v (fe_instance e) = Some i" using lc_invD(5)[OF assms(2)] by blast
  show thesis
  proof (cases "can_transition_to (vi_state i) (op_begin op)")
    case True
    then show thesis
      using assms(1) e i that[OF e i True]
      by (cases "op = OpRestore"; cases "vi_snapshot i")
        (auto simp: lifecycle_enter_def restore_enter_def op_enter_def entry_parts_def inst_transition_def transition_def)
  next
    case False
    then show thesis
      using assms(1) e i
      by (cases "op = OpRestore"; cases "vi_snapshot i")
        (auto simp: lifecycle_enter_def restore_enter_def op_enter_def entry_parts_def inst_transition_def transition_def)
  qed
qed

lemma enter_keeps_inv:
  assumes inv: "lc_inv (v, js)" and en: "lifecycle_enter op vm v = (v', Inr j)"
  shows "lc_inv (v', j # js)"
proof (rule lifecycle_enter_cases[OF en inv])
  fix e i
  assume e: "map_of (fm_vms v) vm = Some e" and i: "inst v (fe_instance e) = Some i"
    and t: "can_transition_to (vi_state i) (op_begin op)"
    and v': "v' = set_inst (fe_instance e) (\<lambda>i. i\<lparr>vi_state := op_begin op\<rparr>) v"
    and j: "jb_vm j = vm" "jb_ref j = fe_instance e" "jb_op j = op" "\<not> jb_stopped j"
  have id: "vi_vm_id i = vm" and eok: "entry_ok js e i" using lc_invD(5)[OF inv e] i by auto
  have idle: "\<not> transitional (vi_state i)" by (rule lc.enter_idle[OF t])
  have none: "jb_ref k \<noteq> fe_instance e" if k: "k \<in> set js" for k
  proof
    assume "jb_ref k = fe_instance e"
    then have "vi_state i = op_begin (jb_op k)" using lc_invD(4)[OF inv k] i by (simp add: job_ok_def)
    with idle show False using lc.enter_busy[of "jb_op k"] by simp
  qed
  have h: "inst v' = (inst v)(fe_instance e \<mapsto> i\<lparr>vi_state := op_begin op\<rparr>)"
    by (simp add: v' inst_set_inst i)
  have nr: "fm_next_ref v' = fm_next_ref v" by (simp add: v')
  have sus: "suspended_state (op_begin op) \<longleftrightarrow> suspended_state (vi_state i)"
    using t idle op_begin_from[of "vi_state i" op]
    by (cases op) (auto simp: suspended_state_def transitional_def)
  show "lc_inv (v', j # js)"
  proof (rule lc_invI)
    show "r < fm_next_ref v'" if "inst v' r = Some i'" for r i'
      using that lc_invD(1)[OF inv] i nr by (cases "r = fe_instance e") (auto simp: h)
    show "vi_snapshot i' \<noteq> None" if "inst v' r = Some i'" "suspended_state (vi_state i')" for r i'
      using that lc_invD(2)[OF inv] i sus by (cases "r = fe_instance e") (auto simp: h)
    show "distinct (map jb_ref (j # js))" using lc_invD(3)[OF inv] none j(2) by (force)
  next
    fix k assume "k \<in> set (j # js)"
    then consider "k = j" | "k \<in> set js" by auto
    then show "job_ok v' k"
    proof cases
      case 1
      then show ?thesis using e id j by (simp add: job_ok_def h) (simp add: v')
    next
      case 2
      then show ?thesis using lc_invD(4)[OF inv 2] none[OF 2] by (simp add: job_ok_def h) (simp add: v')
    qed
  next
    fix vm2 e2 assume "map_of (fm_vms v') vm2 = Some e2"
    then have e2: "map_of (fm_vms v) vm2 = Some e2" by (simp add: v')
    then obtain i2 where i2: "inst v (fe_instance e2) = Some i2" "vi_vm_id i2 = vm2" "entry_ok js e2 i2"
      using lc_invD(5)[OF inv] by blast
    show "\<exists>i. inst v' (fe_instance e2) = Some i \<and> vi_vm_id i = vm2 \<and> entry_ok (j # js) e2 i"
    proof (cases "fe_instance e2 = fe_instance e")
      case True
      then have "i2 = i" "e2 = e" using i i2 id e e2 by auto
      then show ?thesis using True id i2 eok j none sus by (auto simp: h entry_ok_def)
    next
      case False
      then show ?thesis using i2 j by (auto simp: h entry_ok_def)
    qed
  qed
qed

lemma stop_keeps_inv:
  assumes inv: "lc_inv (v, js)" and j: "j \<in> set js" "jb_op j = OpSnapshot"
    and st: "snapshot_stop now j v = (v', j')"
  shows "lc_inv (v', j' # remove1 j js)"
proof -
  obtain i where i: "inst v (jb_ref j) = Some i" "vi_vm_id i = jb_vm j" "vi_state i = op_begin (jb_op j)"
    by (rule job_inst[OF inv j(1)])
  have v': "v' = set_entry (jb_vm j) (\<lambda>e. e\<lparr>fe_fc := None\<rparr>) v"
    and j': "jb_vm j' = jb_vm j" "jb_ref j' = jb_ref j" "jb_op j' = jb_op j" "jb_stopped j'" "jb_snapshot j' \<noteq> None"
    using st i(1) by (auto simp: snapshot_stop_def)
  note rem = jobs_removed[OF inv, of j]
  have others: "jb_ref k \<noteq> jb_ref j" if "k \<in> set (remove1 j js)" for k
    using that rem(1) job_unique[OF inv _ j(1)] by auto
  show ?thesis
  proof (rule lc_invI)
    show "r < fm_next_ref v'" if "inst v' r = Some i'" for r i' using that lc_invD(1)[OF inv] by (simp add: v')
    show "vi_snapshot i' \<noteq> None" if "inst v' r = Some i'" "suspended_state (vi_state i')" for r i'
      using that lc_invD(2)[OF inv] by (simp add: v')
    have "jb_ref j' \<notin> jb_ref ` set (remove1 j js)" using others j'(2) by (metis imageE)
    then show "distinct (map jb_ref (j' # remove1 j js))" using rem(2) by simp
  next
    fix k assume "k \<in> set (j' # remove1 j js)"
    then consider "k = j'" | "k \<in> set js" using rem(1) by auto
    then show "job_ok v' k"
    proof cases
      case 1
      then show ?thesis using lc_invD(4)[OF inv j(1)] j' j(2)
        by (auto simp: job_ok_def v' vms_set_entry)
    next
      case 2
      then show ?thesis using lc_invD(4)[OF inv 2] by (auto simp: job_ok_def v' vms_set_entry split: if_splits)
    qed
  next
    fix vm e assume "map_of (fm_vms v') vm = Some e"
    then obtain e0 where e0: "map_of (fm_vms v) vm = Some e0" "fe_instance e = fe_instance e0"
      "fe_fc e = (if vm = jb_vm j then None else fe_fc e0)"
      by (auto simp: v' vms_set_entry split: if_splits)
    then obtain i0 where i0: "inst v (fe_instance e0) = Some i0" "vi_vm_id i0 = vm" "entry_ok js e0 i0"
      using lc_invD(5)[OF inv] by blast
    have own: "fe_instance e0 = jb_ref j \<longleftrightarrow> vm = jb_vm j"
      using i i0 e0(1) lc_invD(4)[OF inv j(1)] by (auto simp: job_ok_def)
    have "entry_ok (j' # remove1 j js) e i0"
    proof (cases "vm = jb_vm j")
      case True
      then show ?thesis using own e0 j' by (auto simp: entry_ok_def)
    next
      case False
      then have "entry_ok (remove1 j js) e0 i0" using entry_ok_other[OF i0(3) rem(1)] own by simp
      then show ?thesis using own False e0 j' by (auto simp: entry_ok_def)
    qed
    then show "\<exists>i. inst v' (fe_instance e) = Some i \<and> vi_vm_id i = vm \<and> entry_ok (j' # remove1 j js) e i"
      using i0 e0(2) by (simp add: v')
  qed
qed

lemma lc_inv_view:
  assumes inv: "lc_inv (v, js)" and nr: "fm_next_ref v \<le> fm_next_ref v'"
    and heap: "\<And>r i'. inst v' r = Some i' \<Longrightarrow> (\<exists>i. inst v r = Some i \<and> vi_vm_id i' = vi_vm_id i \<and>
        vi_state i' = vi_state i \<and> vi_snapshot i' = vi_snapshot i) \<or>
        (r < fm_next_ref v' \<and> \<not> suspended_state (vi_state i'))"
    and keep: "\<And>r i. inst v r = Some i \<Longrightarrow> \<exists>i'. inst v' r = Some i' \<and> vi_vm_id i' = vi_vm_id i \<and>
        vi_state i' = vi_state i \<and> vi_snapshot i' = vi_snapshot i"
    and vms: "\<And>vm e'. map_of (fm_vms v') vm = Some e' \<Longrightarrow> (\<exists>e. map_of (fm_vms v) vm = Some e \<and>
        fe_instance e' = fe_instance e \<and> fe_fc e' = fe_fc e) \<or>
        (vm \<notin> jb_vm ` set js \<and> fe_fc e' \<noteq> None \<and>
         (\<exists>i. inst v' (fe_instance e') = Some i \<and> vi_vm_id i = vm \<and> vi_state i = Created \<and>
              fm_next_ref v \<le> fe_instance e'))"
  shows "lc_inv (v', js)"
proof (rule lc_invI)
  show "r < fm_next_ref v'" if "inst v' r = Some i'" for r i'
    using heap[OF that] lc_invD(1)[OF inv] nr by fastforce
  show "vi_snapshot i' \<noteq> None" if "inst v' r = Some i'" "suspended_state (vi_state i')" for r i'
    using heap[OF that(1)] lc_invD(2)[OF inv] that(2) by auto
  show "distinct (map jb_ref js)" by (rule lc_invD(3)[OF inv])
next
  fix k assume k: "k \<in> set js"
  note ok = lc_invD(4)[OF inv k]
  have "fe_instance e' = jb_ref k" if "map_of (fm_vms v') (jb_vm k) = Some e'" for e'
    using vms[OF that] ok k by (auto simp: job_ok_def)
  moreover obtain i where "inst v (jb_ref k) = Some i" "vi_state i = op_begin (jb_op k)" "vi_vm_id i = jb_vm k"
    using ok by (auto simp: job_ok_def)
  then obtain i' where "inst v' (jb_ref k) = Some i'" "vi_state i' = op_begin (jb_op k)" "vi_vm_id i' = jb_vm k"
    using keep by metis
  ultimately show "job_ok v' k" using ok by (auto simp: job_ok_def)
next
  fix vm e' assume e': "map_of (fm_vms v') vm = Some e'"
  from vms[OF e'] show "\<exists>i. inst v' (fe_instance e') = Some i \<and> vi_vm_id i = vm \<and> entry_ok js e' i"
  proof (elim disjE)
    assume "\<exists>e. map_of (fm_vms v) vm = Some e \<and> fe_instance e' = fe_instance e \<and> fe_fc e' = fe_fc e"
    then obtain e where e: "map_of (fm_vms v) vm = Some e" "fe_instance e' = fe_instance e" "fe_fc e' = fe_fc e"
      by blast
    then obtain i where i: "inst v (fe_instance e) = Some i" "vi_vm_id i = vm" "entry_ok js e i"
      using lc_invD(5)[OF inv] by blast
    then obtain i' where "inst v' (fe_instance e) = Some i'" "vi_vm_id i' = vm" "vi_state i' = vi_state i"
      using keep by metis
    then show ?thesis using e i(3) by (intro exI[of _ i']) (simp add: entry_ok_def)
  next
    assume "vm \<notin> jb_vm ` set js \<and> fe_fc e' \<noteq> None \<and>
         (\<exists>i. inst v' (fe_instance e') = Some i \<and> vi_vm_id i = vm \<and> vi_state i = Created \<and>
              fm_next_ref v \<le> fe_instance e')"
    then obtain i where i: "fe_fc e' \<noteq> None" "inst v' (fe_instance e') = Some i" "vi_vm_id i = vm"
      "vi_state i = Created" "fm_next_ref v \<le> fe_instance e'" by blast
    have "jb_ref k \<noteq> fe_instance e'" if "k \<in> set js" for k
      using lc_invD(4)[OF inv that] lc_invD(1)[OF inv] i(5) by (force simp: job_ok_def)
    then show ?thesis using i by (auto simp: entry_ok_def transitional_def suspended_state_def)
  qed
qed

section \<open>Creation and destruction\<close>

lemma destroy_vm_view:
  "inst (fst (destroy_vm os to_json vm v)) = inst v"
  "fm_next_ref (fst (destroy_vm os to_json vm v)) = fm_next_ref v"
  "map_of (fm_vms (fst (destroy_vm os to_json vm v))) = (map_of (fm_vms v))(vm := None)"
  by (auto simp: destroy_vm_def inst_def fun_eq_iff map_simps split: option.split prod.split)

lemma create_undo_view [simp]:
  "inst (create_undo os to_json vm r v) = inst v" "fm_next_ref (create_undo os to_json vm r v) = fm_next_ref v"
  "fm_vms (create_undo os to_json vm r v) = fm_vms v"
  by (auto simp: create_undo_def Let_def inst_def fun_eq_iff split: prod.split)

lemma create_setup_view:
  assumes "create_setup env config vm r v = (v', res)" "inst v r = Some i"
  shows "fm_vms v' = fm_vms v \<and> fm_next_ref v' = fm_next_ref v \<and>
    (\<exists>d. inst v' = (inst v)(r \<mapsto> i\<lparr>vi_block_device := d\<rparr>))"
proof -
  have same: "\<exists>d. (inst v) = (inst v)(r \<mapsto> i\<lparr>vi_block_device := d\<rparr>)"
    using assms(2) by (intro exI[of _ "vi_block_device i"]) (auto simp: fun_eq_iff)
  have other: "inst (v\<lparr>fm_workers := ws\<rparr>) = inst v" for ws by (simp add: inst_def fun_eq_iff)
  have new: "\<exists>d. inst (set_inst r (\<lambda>i. i\<lparr>vi_block_device := Some dev\<rparr>) (v\<lparr>fm_workers := ws\<rparr>)) =
      (inst v)(r \<mapsto> i\<lparr>vi_block_device := d\<rparr>)" for dev ws
    using assms(2) by (intro exI[of _ "Some dev"]) (simp add: inst_set_inst other)
  show ?thesis
    using assms(1) same new
    by (auto simp: create_setup_def Let_def other split: option.splits prod.splits sum.splits)
qed

text \<open>What a creation does to the map and to the instances: nothing, an instance nobody can reach, or a
  new VM.\<close>

lemma create_vm_view:
  assumes "create_vm os to_json parse_cron env config v = (v', res)"
  obtains "inst v' = inst v" "fm_next_ref v' = fm_next_ref v" "fm_vms v' = fm_vms v" "\<exists>e. res = Inl e"
  | i where "inst v' = (inst v)(fm_next_ref v \<mapsto> i)" "fm_next_ref v' = fm_next_ref v + 1" "fm_vms v' = fm_vms v"
      "vi_state i = Creating" "\<exists>e. res = Inl e"
  | i e where "inst v' = (inst v)(fm_next_ref v \<mapsto> i)" "fm_next_ref v' = fm_next_ref v + 1"
      "map_of (fm_vms v') = (map_of (fm_vms v))(vi_vm_id i \<mapsto> e)" "res = Inr (vi_vm_id i)"
      "vi_state i = Created" "vi_vm_id i = vm_id_new_random (ce_picks env) (vc_project_id config)"
      "fe_instance e = fm_next_ref v" "fe_fc e \<noteq> None"
proof -
  note d = assms[unfolded create_vm_def]
  have early: "inst (v\<lparr>fm_net := m, fm_host := h\<rparr>) = inst v" for m h by (simp add: inst_def fun_eq_iff)
  show thesis
  proof (cases "check_mode parse_cron config")
    case (Inl e)
    with d that(1) show thesis by auto
  next
    case c1: (Inr u)
    show thesis
    proof (cases "check_block_storage config")
      case (Inl e)
      with d c1 that(1) show thesis by auto
    next
      case c2: (Inr u2)
      show thesis
      proof (cases "vm_instance_new (ce_picks env) (ce_now env) (image_defaults config) (fm_assets_dir v) (fm_work_dir v)")
        case (Inl e)
        with d c1 c2 that(1) show thesis by (auto simp: Let_def)
      next
        case c3: (Inr i)
        have pid: "vc_project_id (image_defaults config) = vc_project_id config"
          by (simp add: image_defaults_def split: option.split)
        note i = vm_instance_new_fields[OF c3, unfolded pid]
        show thesis
        proof (cases "ce_mkdir env")
          case (Inl e)
          with d c1 c2 c3 that(1) show thesis by (auto simp: Let_def)
        next
          case c4: (Inr u4)
          obtain m h r where al: "nm_allocate os to_json (fm_net v) (vc_project_id (image_defaults config)) (vi_vm_id i)
              (tap_for_vm (vi_vm_id i)) (fm_host v) = ((m, h), r)" by (metis prod.exhaust)
          show thesis
          proof (cases r)
            case (Inl e)
            with d c1 c2 c3 c4 al have "v' = v\<lparr>fm_net := m, fm_host := h\<rparr>" "res = Inl e"
              by (simp_all add: Let_def)
            with that(1) early show thesis by simp
          next
            case c5: (Inr net)
            let ?r = "fm_next_ref v"
            let ?i = "i\<lparr>vi_net := Some net, vi_guest_cid := Some (fm_next_cid v)\<rparr>"
            let ?v1 = "v\<lparr>fm_net := m, fm_host := h, fm_next_cid := fm_next_cid v + 1,
                     fm_next_ref := ?r + 1, fm_heap := AList.update ?r ?i (fm_heap v)\<rparr>"
            have v1: "inst ?v1 = (inst v)(?r \<mapsto> ?i)" by (auto simp: inst_def fun_eq_iff map_simps)
            obtain v2 cr where su: "create_setup env (image_defaults config) (vi_vm_id i) ?r ?v1 = (v2, cr)" by fastforce
            have "inst ?v1 ?r = Some ?i" unfolding v1 by simp
            from create_setup_view[OF su this, unfolded v1] obtain dv where v2: "fm_vms v2 = fm_vms v" "fm_next_ref v2 = ?r + 1"
              "inst v2 = (inst v)(?r \<mapsto> ?i\<lparr>vi_block_device := dv\<rparr>)" by auto
            show thesis
            proof (cases cr)
              case (Inl e)
              with d c1 c2 c3 c4 c5 al su have "v' = create_undo os to_json (vi_vm_id i) ?r v2" "res = Inl e"
                by (simp_all add: Let_def)
              with that(2)[of "?i\<lparr>vi_block_device := dv\<rparr>"] v2 i show thesis by simp
            next
              case c6: (Inr child)
              let ?e = "(fc_entry_new ?r ?i)\<lparr>fe_fc := Some child\<rparr>"
              let ?v3 = "v2\<lparr>fm_vms := AList.update (vi_vm_id i) ?e (fm_vms v2)\<rparr>"
              have v3: "inst ?v3 = inst v2" by (simp add: inst_def fun_eq_iff)
              have iv3: "inst ?v3 ?r = Some (?i\<lparr>vi_block_device := dv\<rparr>)" unfolding v3 unfolding v2(3) by simp
              have "can_transition_to Creating Created" by (simp add: can_transition_to.simps)
              then have tr: "inst_transition ?r Created ?v3 = (set_inst ?r (\<lambda>i. i\<lparr>vi_state := Created\<rparr>) ?v3, Inr ())"
                using i by (intro inst_transition_ok[OF iv3]) simp
              with d c1 c2 c3 c4 c5 c6 al su
              have v': "v' = set_inst ?r (\<lambda>i. i\<lparr>vi_state := Created\<rparr>) ?v3" "res = Inr (vi_vm_id i)"
                by (simp_all add: Let_def)
              show thesis
                by (rule that(3)[of "?i\<lparr>vi_block_device := dv, vi_state := Created\<rparr>" ?e])
                  (use v' v2 v3 i in \<open>simp_all add: inst_set_inst map_simps fc_entry_new_def\<close>)
            qed
          qed
        qed
      qed
    qed
  qed
qed

lemma create_keeps_inv:
  assumes inv: "lc_inv (v, js)" and fr: "fresh_id (vm_id_new_random (ce_picks env) (vc_project_id config)) (v, js)"
    and c: "create_vm os to_json parse_cron env config v = (v', res)"
  shows "lc_inv (v', js)"
proof (rule create_vm_view[OF c])
  assume a: "inst v' = inst v" "fm_next_ref v' = fm_next_ref v" "fm_vms v' = fm_vms v"
  show ?thesis by (rule lc_inv_view[OF inv]) (auto simp: a)
next
  fix i assume a: "inst v' = (inst v)(fm_next_ref v \<mapsto> i)" "fm_next_ref v' = fm_next_ref v + 1" "fm_vms v' = fm_vms v"
    "vi_state i = Creating"
  have new: "inst v (fm_next_ref v) = None"
    using lc_invD(1)[OF inv, of "fm_next_ref v"] by (cases "inst v (fm_next_ref v)") auto
  show ?thesis
    by (rule lc_inv_view[OF inv]) (use a new in \<open>auto simp: suspended_state_def split: if_splits\<close>)
next
  fix i e assume a: "inst v' = (inst v)(fm_next_ref v \<mapsto> i)" "fm_next_ref v' = fm_next_ref v + 1"
    "map_of (fm_vms v') = (map_of (fm_vms v))(vi_vm_id i \<mapsto> e)" "vi_state i = Created"
    "vi_vm_id i = vm_id_new_random (ce_picks env) (vc_project_id config)" "fe_instance e = fm_next_ref v" "fe_fc e \<noteq> None"
  have new: "inst v (fm_next_ref v) = None"
    using lc_invD(1)[OF inv, of "fm_next_ref v"] by (cases "inst v (fm_next_ref v)") auto
  show ?thesis
    by (rule lc_inv_view[OF inv]) (use a new fr in \<open>auto simp: suspended_state_def fresh_id_def split: if_splits\<close>)
qed

lemma destroy_keeps_inv: "lc_inv (v, js) \<Longrightarrow> lc_inv (fst (destroy_vm os to_json vm v), js)"
  by (rule lc_inv_view[where v = v]) (auto simp: destroy_vm_view split: if_splits)

lemma same_lifecycle_keeps_inv:
  assumes inv: "lc_inv (v, js)" and s: "same_lifecycle v v'"
  shows "lc_inv (v', js)"
proof (rule lc_inv_view[OF inv])
  have h: "map_option (\<lambda>i. (vi_vm_id i, vi_state i, vi_snapshot i)) (inst v' r) =
      map_option (\<lambda>i. (vi_vm_id i, vi_state i, vi_snapshot i)) (inst v r)" for r
    using s by (simp add: same_lifecycle_def fun_eq_iff)
  have m: "map_option (\<lambda>e. (fe_instance e, fe_fc e)) (map_of (fm_vms v') vm) =
      map_option (\<lambda>e. (fe_instance e, fe_fc e)) (map_of (fm_vms v) vm)" for vm
    using s by (simp add: same_lifecycle_def fun_eq_iff)
  show "fm_next_ref v \<le> fm_next_ref v'" using s by (simp add: same_lifecycle_def)
  show "(\<exists>i. inst v r = Some i \<and> vi_vm_id i' = vi_vm_id i \<and> vi_state i' = vi_state i \<and> vi_snapshot i' = vi_snapshot i) \<or>
        (r < fm_next_ref v' \<and> \<not> suspended_state (vi_state i'))" if "inst v' r = Some i'" for r i'
    using h[of r] that by (cases "inst v r") auto
  show "\<exists>i'. inst v' r = Some i' \<and> vi_vm_id i' = vi_vm_id i \<and> vi_state i' = vi_state i \<and> vi_snapshot i' = vi_snapshot i"
    if "inst v r = Some i" for r i using h[of r] that by (cases "inst v' r") auto
  show "(\<exists>e. map_of (fm_vms v) vm = Some e \<and> fe_instance e' = fe_instance e \<and> fe_fc e' = fe_fc e) \<or>
        (vm \<notin> jb_vm ` set js \<and> fe_fc e' \<noteq> None \<and>
         (\<exists>i. inst v' (fe_instance e') = Some i \<and> vi_vm_id i = vm \<and> vi_state i = Created \<and>
              fm_next_ref v \<le> fe_instance e'))" if "map_of (fm_vms v') vm = Some e'" for vm e'
    using m[of vm] that by (cases "map_of (fm_vms v) vm") auto
qed

lemma step_keeps_inv: "sys_step s s' \<Longrightarrow> lc_inv s \<Longrightarrow> lc_inv s'"
proof (induction rule: sys_step.induct)
  case (Create env config v js os to_json parse_cron)
  then show ?case using create_keeps_inv[of v js env config os to_json parse_cron] by (metis prod.collapse)
qed (auto intro: enter_keeps_inv finish_keeps_inv stop_keeps_inv destroy_keeps_inv same_lifecycle_keeps_inv)

lemma reachable_inv: "reachable s \<Longrightarrow> lc_inv s"
proof -
  assume "reachable s"
  then obtain s0 where s0: "sys_init s0" "sys_step\<^sup>*\<^sup>* s0 s" by blast
  have "lc_inv s0" using s0(1) by (cases s0) (auto simp: sys_init_def lc_inv_def inst_def)
  with s0(2) show ?thesis by (induction rule: rtranclp_induct) (auto intro: step_keeps_inv)
qed

section \<open>Theorems\<close>


text \<open>C2: An operation never fails because of another one: when it finishes, in any reachable
  configuration, its transition is accepted, so its result is the outcome of its external calls (a
  restore whose VM was destroyed meanwhile is the one exception, and reports that).\<close>

theorem operations_always_finish:
  assumes "reachable (v, js)" "j \<in> set js"
  shows "(jb_op j = OpStart \<longrightarrow> snd (start_finish now p w j v) = try_res p (\<lambda>_. w)) \<and>
         (jb_op j = OpPause \<longrightarrow> snd (pause_finish p j v) = p) \<and>
         (jb_op j = OpResume \<longrightarrow> snd (resume_finish p j v) = p) \<and>
         (jb_op j = OpSnapshot \<longrightarrow> snd (snapshot_failed e j v) = Inl e \<and> snd (snapshot_finish j v) = Inr (jb_snapshot j)) \<and>
         (jb_op j = OpRestore \<longrightarrow> snd (restore_finish now oc j v) =
            try_res oc (\<lambda>_. if map_of (fm_vms v) (jb_vm j) = None then Inl (VmNotFound (jb_vm j)) else Inr ()))"
proof -
  note inv = reachable_inv[OF assms(1)]
  obtain i where i: "inst v (jb_ref j) = Some i" "vi_state i = op_begin (jb_op j)"
    by (rule job_inst[OF inv assms(2)])
  have a: "snd (start_finish now p w j v) = try_res p (\<lambda>_. w)" if "jb_op j = OpStart"
  proof -
    have t: "can_transition_to (vi_state i) Started" "can_transition_to (vi_state i) Created"
      using lc.leave[of OpStart] i(2) that by simp_all
    show ?thesis by (cases p; cases w) (simp_all add: start_finish_def leave_ok[OF i(1)] t)
  qed
  have b: "snd (pause_finish p j v) = p" if "jb_op j = OpPause"
    using pause_finish_cases[OF i(1), of p] i(2) that by (cases p) auto
  have c: "snd (resume_finish p j v) = p" if "jb_op j = OpResume"
    using resume_finish_cases[OF i(1), of p] i(2) that by (cases p) auto
  have d: "snd (snapshot_failed e j v) = Inl e" "snd (snapshot_finish j v) = Inr (jb_snapshot j)" if "jb_op j = OpSnapshot"
    using snapshot_failed_cases[OF i(1), of e] snapshot_finish_cases[OF i(1)] i(2) that by auto
  have f: "snd (restore_finish now oc j v) =
      try_res oc (\<lambda>_. if map_of (fm_vms v) (jb_vm j) = None then Inl (VmNotFound (jb_vm j)) else Inr ())"
    if "jb_op j = OpRestore"
    using restore_finish_cases[OF i(1), of now oc] i(2) that by (cases oc) (auto split: option.split)
  show ?thesis using a b c d f by blast
qed

text \<open>C3: A suspended VM consumes no process and can be restored: in every reachable configuration a VM in
  the map that is suspended, or being restored, has no Firecracker process and has a snapshot; one
  that is created, started or paused, or on its way there, has its process.\<close>

theorem suspended_has_snapshot:
  assumes "reachable (v, js)" "map_of (fm_vms v) vm = Some e" "inst v (fe_instance e) = Some i"
  shows "(vi_state i \<in> {Suspended, Restoring} \<longrightarrow> fe_fc e = None \<and> vi_snapshot i \<noteq> None) \<and>
         (vi_state i \<in> {Created, Starting, Started, Pausing, Paused, Resuming} \<longrightarrow> fe_fc e \<noteq> None)"
proof -
  note inv = reachable_inv[OF assms(1)]
  have ok: "entry_ok js e i" using lc_invD(5)[OF inv assms(2)] assms(3) by auto
  have "vi_state i = Suspending" if "j \<in> set js" "jb_ref j = fe_instance e" "jb_stopped j" for j
    using lc_invD(4)[OF inv that(1)] that(2,3) assms(3) by (auto simp: job_ok_def)
  moreover define stopping where "stopping \<longleftrightarrow> (\<exists>j \<in> set js. jb_ref j = fe_instance e \<and> jb_stopped j)"
  ultimately have "stopping \<Longrightarrow> vi_state i = Suspending" by blast
  moreover have "fe_fc e = None \<longleftrightarrow> suspended_state (vi_state i) \<or> stopping"
    using ok by (simp add: entry_ok_def stopping_def)
  ultimately show ?thesis using lc_invD(2)[OF inv assms(3)] unfolding suspended_state_def by auto
qed

section \<open>The properties on a concrete VM\<close>

definition demo_config :: vm_config where
  "demo_config = \<lparr>vc_name = ''db'', vc_project_id = 7, vc_mode = Permanent, vc_image = ''ubuntu-24'',
     vc_cpus = 1, vc_memory_mb = 256, vc_disk_size_mb = 1024,
     vc_network_config = \<lparr>allow_internet = False, exposed_ports = [], egress = [], public_access = False\<rparr>,
     vc_ssh_access = False, vc_env = [], vc_cmd = [], vc_services = [], vc_cron_schedule = None,
     vc_timeout_secs = None, vc_tags = [], vc_auto_suspend = None, vc_block_storage = None\<rparr>"

definition demo_env :: create_env where
  "demo_env = \<lparr>ce_picks = [], ce_now = 0, ce_mkdir = Inr (),
     ce_attach = \<lparr>ae_root_is_dir = False, ae_has_meta = False, ae_make_dir = Inr (), ae_spawn = Inr (0, []),
       ae_mkfs = Inr (), ae_child_id = None\<rparr>, ce_spawn = Inr 42, ce_configure = Inr ()\<rparr>"

definition working_host :: "unit host_os" where
  "working_host = empty_host\<lparr>os_write := (\<lambda>_ _ h. (h, Inr ()))\<rparr>"

definition demo_vmm :: "unit vmm" where
  "demo_vmm = \<lparr>fm_assets_dir = ''assets'', fm_work_dir = ''work'', fm_storage_root = ''store'', fm_heap = [],
     fm_next_ref = 0, fm_vms = [], fm_next_cid = 3, fm_activity = [], fm_wake_times = [], fm_run_locks = [],
     fm_net = demo_manager, fm_workers = [], fm_host = ()\<rparr>"

lemma working_host_commands:
  "run_cmd working_host cmd args h = (h, Inr ())" "link_exists working_host name h = (h, True)"
  "iptables_ensure working_host args h = (h, Inr ())" "ensure_ip_forward working_host h = (h, Inr ())"
  "persist working_host (\<lambda>_. Inr txt) path st h = (h, Inr ())"
  by (simp_all add: run_cmd_def link_exists_def cmd_succeeds_def iptables_ensure_def ensure_ip_forward_def
      persist_def working_host_def empty_host_def)

lemma working_host_apply: "apply_alloc working_host plan h = (h, Inr ())"
  by (simp add: apply_alloc_def ensure_bridge_def act_then_def ensure_link_def ensure_tap_def
      nat_rules_def Let_def working_host_commands split: option.split)

lemma demo_vm_id: "vm_id_new_random [] 7 = ''vm-7-''"
  by (simp add: vm_id_new_random_alt dec_seven)

lemma demo_created:
  "\<exists>v. create_vm working_host (\<lambda>_. Inr ''{}'') (\<lambda>_. Inr ()) demo_env demo_config demo_vmm = (v, Inr ''vm-7-'')"
proof -
  have a: "\<exists>st plan. alloc net_state_default 7 ''vm-7-'' (tap_for_vm ''vm-7-'') demo_net 29 = (st, Inr plan)"
    by (simp add: alloc_def net_subnet_count_unat net_wf_def net_state_default_def IFNAMSIZ_MAX_def
        BRIDGE_PREFIX_def net_subnet_def net_host_def dec_seven Let_def)
  then obtain st plan where "alloc net_state_default 7 ''vm-7-'' (tap_for_vm ''vm-7-'') demo_net 29 = (st, Inr plan)"
    by blast
  then have n: "nm_allocate working_host (\<lambda>_. Inr ''{}'') demo_manager 7 ''vm-7-'' (tap_for_vm ''vm-7-'') () =
      ((demo_manager\<lparr>nm_state := st\<rparr>, ()), Inr (ap_vm_net plan))"
    by (simp add: nm_allocate_def working_host_apply working_host_commands)
  have "can_transition_to Creating Created" by (simp add: can_transition_to.simps)
  then show ?thesis
    by (simp add: create_vm_def check_mode_def check_block_storage_def image_defaults_def demo_config_def
        demo_env_def demo_vmm_def vm_instance_new_def rootfs_file_def Let_def demo_vm_id n create_setup_def
        inst_transition_def inst_def transition_def)
qed

lemma demo_starting:
  obtains v e i j where "reachable (v :: unit vmm, [j])" "map_of (fm_vms v) ''vm-7-'' = Some e"
    "inst v (fe_instance e) = Some i" "vi_state i = Starting" "jb_op j = OpStart"
proof -
  obtain v where c: "create_vm working_host (\<lambda>_. Inr ''{}'') (\<lambda>_. Inr ()) demo_env demo_config demo_vmm = (v, Inr ''vm-7-'')"
    using demo_created by blast
  have init: "sys_init (demo_vmm, [])" by (simp add: sys_init_def demo_vmm_def)
  have "fresh_id (vm_id_new_random (ce_picks demo_env) (vc_project_id demo_config)) (demo_vmm, [])"
    by (simp add: fresh_id_def demo_vmm_def)
  from sys_step.Create[OF this, of working_host "\<lambda>_. Inr ''{}''" "\<lambda>_. Inr ()"]
  have s1: "sys_step (demo_vmm, []) (v, [])" by (simp add: c)
  obtain i e where i: "inst v = (inst demo_vmm)(fm_next_ref demo_vmm \<mapsto> i)" "vi_state i = Created"
    "map_of (fm_vms v) ''vm-7-'' = Some e" "fe_instance e = fm_next_ref demo_vmm"
    by (rule create_vm_view[OF c]) auto
  have t: "can_transition_to Created Starting" by (simp add: can_transition_to.simps)
  obtain v' j where en: "lifecycle_enter OpStart ''vm-7-'' v = (v', Inr j)"
    using i t by (simp add: lifecycle_enter_def op_enter_def entry_parts_def inst_transition_def transition_def)
  then have s2: "sys_step (v, []) (v', [j])" by (rule sys_step.Enter)
  have v': "v' = set_inst (fe_instance e) (\<lambda>i. i\<lparr>vi_state := Starting\<rparr>) v" "jb_op j = OpStart"
    using en i t by (auto simp: lifecycle_enter_def op_enter_def entry_parts_def inst_transition_def transition_def)
  have "reachable (v', [j])"
    using init s1 s2 by (meson converse_rtranclp_into_rtranclp rtranclp.rtrancl_refl)
  then show thesis
    by (rule that[of v' j e "i\<lparr>vi_state := Starting\<rparr>"]) (use i v' in \<open>simp_all add: inst_set_inst\<close>)
qed


lemma operations_always_finish_witness:
  "\<exists>(v :: unit vmm) j. reachable (v, [j]) \<and> snd (start_finish 5 (Inr ()) (Inr ()) j v) = Inr ()"
proof (rule demo_starting)
  fix v :: "unit vmm" and e i j
  assume a: "reachable (v, [j])" "jb_op j = OpStart"
  have "snd (start_finish 5 (Inr ()) (Inr ()) j v) = Inr ()"
    using operations_always_finish[OF a(1), of j 5 "Inr ()" "Inr ()"] a(2) by simp
  with a(1) show ?thesis by blast
qed

lemma suspended_has_snapshot_witness:
  "\<exists>(v :: unit vmm) js e. reachable (v, js) \<and> map_of (fm_vms v) ''vm-7-'' = Some e \<and> fe_fc e \<noteq> None"
proof (rule demo_starting)
  fix v :: "unit vmm" and e i j
  assume a: "reachable (v, [j])" "map_of (fm_vms v) ''vm-7-'' = Some e" "inst v (fe_instance e) = Some i"
    "vi_state i = Starting"
  have "fe_fc e \<noteq> None" using suspended_has_snapshot[OF a(1-3)] a(4) by simp
  with a(1,2) show ?thesis by blast
qed

end
