(* ===== verification/Utf8.thy ===== *)
theory Utf8
  imports RustStd
begin

text \<open>
  Rust strings are UTF-8: a \<open>string\<close> of the model is the string's bytes, each one a \<open>char\<close>.  This
  theory is \<open>String::from_utf8_lossy\<close>, which replaces every maximal ill-formed part by U+FFFD.
\<close>

definition in_range :: "nat \<Rightarrow> nat \<Rightarrow> char \<Rightarrow> bool" where
  "in_range lo hi c \<longleftrightarrow> lo \<le> (of_char c :: nat) \<and> (of_char c :: nat) \<le> hi"

text \<open>The range of the second byte after a lead byte, and the number of plain continuation bytes
  that follow the second one.\<close>

definition utf8_lead :: "char \<Rightarrow> (nat \<times> nat \<times> nat) option" where
  "utf8_lead c =
     (let b = (of_char c :: nat) in
      if 194 \<le> b \<and> b \<le> 223 then Some (128, 191, 0)
      else if b = 224 then Some (160, 191, 1)
      else if b = 237 then Some (128, 159, 1)
      else if 225 \<le> b \<and> b \<le> 239 then Some (128, 191, 1)
      else if b = 240 then Some (144, 191, 2)
      else if 241 \<le> b \<and> b \<le> 243 then Some (128, 191, 2)
      else if b = 244 then Some (128, 143, 2)
      else None)"

text \<open>The continuation bytes at the head, at most \<open>k\<close> of them.\<close>

fun conts :: "nat \<Rightarrow> string \<Rightarrow> nat" where
  "conts 0 s = 0"
| "conts (Suc k) [] = 0"
| "conts (Suc k) (c # s) = (if in_range 128 191 c then Suc (conts k s) else 0)"

text \<open>One sequence at the head: whether it is well-formed, and the bytes it takes.\<close>

fun utf8_head :: "string \<Rightarrow> bool \<times> nat" where
  "utf8_head [] = (True, 0)"
| "utf8_head (c # s) =
     (if of_char c < (128 :: nat) then (True, 1)
      else case utf8_lead c of
        None \<Rightarrow> (False, 1)
      | Some (lo, hi, k) \<Rightarrow>
          (case s of
             [] \<Rightarrow> (False, 1)
           | d # s' \<Rightarrow>
               if in_range lo hi d then (conts k s' = k, 2 + conts k s') else (False, 1)))"

definition replacement :: string where
  "replacement = [CHR 0xEF, CHR 0xBF, CHR 0xBD]"

lemma conts_le: "conts k s \<le> k" "conts k s \<le> length s"
  by (induction k s rule: conts.induct) auto

lemma utf8_head_pos: "s \<noteq> [] \<Longrightarrow> 0 < snd (utf8_head s)"
  by (cases s) (auto split: option.split list.split)

lemma utf8_head_le: "snd (utf8_head s) \<le> length s"
  using conts_le by (cases s) (auto split: option.split list.split)

function utf8_lossy :: "string \<Rightarrow> string" where
  "utf8_lossy s =
     (if s = [] then []
      else let (ok, n) = utf8_head s
           in (if ok then take n s else replacement) @ utf8_lossy (drop n s))"
  by auto
termination
proof (relation "measure length")
  fix s :: string and x ok n
  assume s: "s \<noteq> []" and x: "x = utf8_head s" "(ok, n) = x"
  then have "0 < n" using utf8_head_pos[OF s] by (metis snd_conv)
  then show "(drop n s, s) \<in> measure length" using s by simp
qed simp

function utf8_ok :: "string \<Rightarrow> bool" where
  "utf8_ok s = (if s = [] then True else let (ok, n) = utf8_head s in ok \<and> utf8_ok (drop n s))"
  by auto
termination
proof (relation "measure length")
  fix s :: string and x ok n
  assume s: "s \<noteq> []" and x: "x = utf8_head s" "(ok, n) = x"
  then have "0 < n" using utf8_head_pos[OF s] by (metis snd_conv)
  then show "(drop n s, s) \<in> measure length" using s by simp
qed simp

declare utf8_lossy.simps [simp del] utf8_ok.simps [simp del]

text \<open>Well-formed strings are kept as they are.\<close>

lemma utf8_lossy_ok: "utf8_ok s \<Longrightarrow> utf8_lossy s = s"
proof (induction s rule: utf8_ok.induct)
  case (1 s)
  show ?case
  proof (cases "s = []")
    case False
    obtain ok n where h: "utf8_head s = (ok, n)" by fastforce
    have "ok" "utf8_ok (drop n s)"
      using "1.prems" False by (simp_all add: utf8_ok.simps[of s] h)
    then have "utf8_lossy (drop n s) = drop n s"
      using "1.IH"[OF False h[symmetric]] by simp
    then show ?thesis using False \<open>ok\<close> by (simp add: utf8_lossy.simps[of s] h)
  qed (simp add: utf8_lossy.simps)
qed

text \<open>ASCII text is well-formed.\<close>

lemma utf8_ok_ascii: "\<forall>c \<in> set s. of_char c < (128 :: nat) \<Longrightarrow> utf8_ok s"
proof (induction s)
  case Nil
  show ?case by (subst utf8_ok.simps) simp
next
  case (Cons c s)
  then show ?case by (subst utf8_ok.simps) simp
qed

text \<open>The result is always a well-formed string.\<close>

lemma conts_append: "conts k s = k \<Longrightarrow> conts k (s @ t) = k"
  by (induction k s rule: conts.induct) (auto split: if_splits)

lemma conts_take: "conts k s = k \<Longrightarrow> conts k (take k s @ t) = k"
  by (induction k s rule: conts.induct) (auto split: if_splits)

lemma utf8_head_take: "utf8_head s = (True, n) \<Longrightarrow> s \<noteq> [] \<Longrightarrow> utf8_head (take n s @ t) = (True, n)"
proof -
  assume h: "utf8_head s = (True, n)" and "s \<noteq> []"
  then obtain c s' where Cons: "s = c # s'" by (cases s) auto
  show ?thesis
  proof (cases "of_char c < (128 :: nat)")
    case True
    with h Cons show ?thesis by auto
  next
    case False
    with h Cons obtain lo hi k where l: "utf8_lead c = Some (lo, hi, k)"
      by (auto split: option.splits)
    with h Cons False obtain d s'' where s': "s' = d # s''" and r: "in_range lo hi d" and c: "conts k s'' = k"
      and n: "n = 2 + k"
      by (auto split: list.splits if_splits)
    show ?thesis using False l r conts_take[OF c, of t] by (simp add: Cons s' n)
  qed
qed

lemma utf8_ok_seq: "utf8_head s = (True, n) \<Longrightarrow> s \<noteq> [] \<Longrightarrow> utf8_ok (take n s @ t) \<longleftrightarrow> utf8_ok t"
proof -
  assume h: "utf8_head s = (True, n)" and s: "s \<noteq> []"
  have "0 < n" "n \<le> length s" using utf8_head_pos[OF s] utf8_head_le[of s] h by simp_all
  then have "take n s @ t \<noteq> []" "drop n (take n s @ t) = t" using s by auto
  then show ?thesis unfolding utf8_ok.simps[of "take n s @ t"] by (simp add: utf8_head_take[OF h s] del: append_is_Nil_conv)
qed

lemma utf8_ok_replacement: "utf8_ok (replacement @ t) \<longleftrightarrow> utf8_ok t"
proof -
  have "utf8_head replacement = (True, 3)"
    by (simp add: replacement_def utf8_lead_def in_range_def numeral_eq_Suc)
  from utf8_ok_seq[OF this, of t] show ?thesis by (simp add: replacement_def)
qed

lemma utf8_lossy_wf: "utf8_ok (utf8_lossy s)"
proof (induction s rule: utf8_lossy.induct)
  case (1 s)
  show ?case
  proof (cases "s = []")
    case False
    obtain ok n where h: "utf8_head s = (ok, n)" by fastforce
    have "utf8_ok (utf8_lossy (drop n s))" using "1.IH"[OF False h[symmetric]] by simp
    then show ?thesis using False h utf8_ok_seq[of s n]
      by (cases ok) (simp_all add: utf8_lossy.simps[of s] utf8_ok_replacement)
  qed (simp add: utf8_lossy.simps utf8_ok.simps)
qed

text \<open>Well-formed strings compose, and may be cut at an ASCII byte.\<close>

lemma utf8_ok_Nil [simp]: "utf8_ok []"
  by (subst utf8_ok.simps) simp

lemma utf8_ok_split: "utf8_ok s \<Longrightarrow> s \<noteq> [] \<Longrightarrow>
    \<exists>n. utf8_head s = (True, n) \<and> 0 < n \<and> n \<le> length s \<and> utf8_ok (drop n s)"
proof -
  assume "utf8_ok s" "s \<noteq> []"
  moreover obtain ok n where h: "utf8_head s = (ok, n)" by fastforce
  ultimately have "ok \<and> utf8_ok (drop n s)" by (simp add: utf8_ok.simps[of s])
  then show ?thesis using h utf8_head_pos[OF \<open>s \<noteq> []\<close>] utf8_head_le[of s] by simp
qed

lemma utf8_ok_append: "utf8_ok s \<Longrightarrow> utf8_ok t \<Longrightarrow> utf8_ok (s @ t)"
proof (induction "length s" arbitrary: s rule: less_induct)
  case less
  show ?case
  proof (cases "s = []")
    case False
    then obtain n where n: "utf8_head s = (True, n)" "0 < n" "n \<le> length s" "utf8_ok (drop n s)"
      using utf8_ok_split less.prems by blast
    have "utf8_ok (drop n s @ t)" using less.hyps[of "drop n s"] n False less.prems by simp
    then have "utf8_ok (take n s @ (drop n s @ t))" using utf8_ok_seq[OF n(1) False] by blast
    then show ?thesis by (simp flip: append_assoc)
  qed (use less.prems in simp)
qed

lemma conts_bytes: "j < conts k s \<Longrightarrow> 128 \<le> (of_char (s ! j) :: nat)"
  by (induction k s arbitrary: j rule: conts.induct) (auto simp: in_range_def nth_Cons less_Suc_eq_0_disj split: if_splits)

lemma utf8_head_bytes: "utf8_head s = (True, n) \<Longrightarrow> 1 < n \<Longrightarrow> j < n \<Longrightarrow> 128 \<le> (of_char (s ! j) :: nat)"
proof -
  assume h: "utf8_head s = (True, n)" and n: "1 < n" and j: "j < n"
  then obtain c s' where s: "s = c # s'" and c: "128 \<le> (of_char c :: nat)"
    by (cases s) (auto split: if_splits)
  with h obtain lo hi k d s'' where l: "utf8_lead c = Some (lo, hi, k)" and s': "s' = d # s''"
    and r: "in_range lo hi d" and n: "n = 2 + conts k s''"
    by (auto split: option.splits list.splits if_splits)
  have "128 \<le> lo" using l by (auto simp: utf8_lead_def Let_def split: if_splits)
  with r have d: "128 \<le> (of_char d :: nat)" by (simp add: in_range_def)
  show ?thesis
  proof (cases "j < 2")
    case True
    then show ?thesis using c d by (auto simp: s s' less_2_cases_iff)
  next
    case False
    then obtain i where "j = Suc (Suc i)" by (metis add_2_eq_Suc le_Suc_ex not_less)
    then show ?thesis using j n conts_bytes[of i k s''] by (simp add: s s')
  qed
qed

lemma utf8_ok_cut: "utf8_ok (a @ c # b) \<Longrightarrow> of_char c < (128 :: nat) \<Longrightarrow> utf8_ok a \<and> utf8_ok b"
proof (induction "length a" arbitrary: a rule: less_induct)
  case less
  let ?s = "a @ c # b"
  obtain n where n: "utf8_head ?s = (True, n)" "0 < n" "utf8_ok (drop n ?s)"
    using utf8_ok_split[OF less.prems(1)] by auto
  show ?case
  proof (cases "a = []")
    case True
    then have "n = 1" using n(1) less.prems(2) by simp
    then show ?thesis using n(3) True by simp
  next
    case False
    have le: "n \<le> length a"
    proof (rule ccontr)
      assume "\<not> n \<le> length a"
      then have "length a < n" "1 < n" using False by (auto simp: Suc_le_eq dest!: not_le_imp_less) (cases a; simp)
      then have "128 \<le> (of_char (?s ! length a) :: nat)" using utf8_head_bytes n(1) by blast
      then show False using less.prems(2) by simp
    qed
    then have "utf8_ok (drop n a @ c # b)" using n(3) by simp
    then have ih: "utf8_ok (drop n a)" "utf8_ok b" using less.hyps[of "drop n a"] less.prems n(2) False by auto
    have "utf8_ok (take n ?s @ drop n a)" using ih(1) utf8_ok_seq[OF n(1)] by simp
    then show ?thesis using ih le by simp
  qed
qed

lemma utf8_lossy_nul: "CHR 0x00 \<notin> set s \<Longrightarrow> CHR 0x00 \<notin> set (utf8_lossy s)"
proof (induction s rule: utf8_lossy.induct)
  case (1 s)
  show ?case
  proof (cases "s = []")
    case False
    obtain ok n where h: "utf8_head s = (ok, n)" by fastforce
    have "CHR 0x00 \<notin> set (utf8_lossy (drop n s))"
      using "1.IH"[OF False h[symmetric]] "1.prems" by (auto dest: in_set_dropD)
    then show ?thesis using "1.prems" False h
      by (auto simp: utf8_lossy.simps[of s] replacement_def dest: in_set_takeD)
  qed (simp add: utf8_lossy.simps)
qed

end
