(* ===== verification/Guest.thy ===== *)
theory Guest
  imports Lifecycle Utf8
begin

text \<open>
  The channel to the daemon in the guest: \<open>hostd/src/vmm/firecracker/vsock.rs\<close> (messages and the
  \<open>CONNECT\<close> handshake) and \<open>guest.rs\<close> (the connection kept per VM and the handling of the guest's
  events).  JSON is serde's; the model starts at the typed messages.  A handle is the identity of
  its \<open>Arc\<close>.  Whether the channel behind a handle still takes messages is an argument.
\<close>

section \<open>Messages\<close>

definition GUESTD_PORT :: nat where
  "GUESTD_PORT = 5000"

definition MAX_REPLY_BYTES :: nat where
  "MAX_REPLY_BYTES = 1024"

datatype guest_request =
    ReqStart workload_id "string list" "(string, string) amap" "string option"
  | ReqStop workload_id
  | ReqList
  | ReqConfigureAutoSuspend "string list" nat

record guest_workload_info =
  gw_id :: string
  gw_state :: string
  gw_exit_code :: "int option"
  gw_signal :: "int option"

datatype guest_event =
    EvStarted string u32
  | EvOutput string string string
  | EvExited string "int option" "int option"
  | EvError "string option" string
  | EvListResult "guest_workload_info list"
  | EvIdle

section \<open>The handshake\<close>

text \<open>The reply is read byte by byte, so that what follows its line stays in the stream.  \<open>eof\<close> is what
  a read reports once the input is used up: no bytes, or an error.\<close>

fun read_reply :: "error option \<Rightarrow> string \<Rightarrow> string \<Rightarrow> (string \<times> string) result" where
  "read_reply eof line [] =
     Inl (case eof of None \<Rightarrow> error.Vmm ''vsock handshake: connection closed by Firecracker'' | Some e \<Rightarrow> e)"
| "read_reply eof line (b # rest) =
     (if b = CHR 0x0A then Inr (line, rest)
      else if MAX_REPLY_BYTES < length line + 1 then Inl (error.Vmm ''vsock handshake: reply too long'')
      else read_reply eof (line @ [b]) rest)"

definition reply_ok :: "string \<Rightarrow> bool" where
  "reply_ok reply =
     (case split_once CHR '' '' reply of
        Some (ok, port) \<Rightarrow> ok = ''OK'' \<and> (case parse_uint (2 ^ 32 - 1) port of Inr _ \<Rightarrow> True | Inl _ \<Rightarrow> False)
      | None \<Rightarrow> False)"

text \<open>The connection and what was written to it, or an error; the input left is the stream.\<close>

definition vsock_connect ::
  "string \<Rightarrow> unit result \<Rightarrow> (string \<Rightarrow> unit result) \<Rightarrow> error option \<Rightarrow> string \<Rightarrow> string result" where
  "vsock_connect uds_path dial write_all eof inp =
     try_res dial (\<lambda>_.
     try_res (write_all (''CONNECT '' @ dec GUESTD_PORT @ [CHR 0x0A])) (\<lambda>_.
     try_res (read_reply eof [] inp) (\<lambda>(line, rest).
       let reply = utf8_lossy line
       in if reply_ok reply then Inr rest
          else Inl (error.Vmm (''vsock handshake with '' @ uds_path @ '' failed: '' @ reply)))))"

section \<open>The connection of a VM\<close>

text \<open>\<open>GuestConnHandle::send\<close>; the requests accepted so far are the second component.\<close>

definition conn_send :: "bool \<Rightarrow> guest_request \<Rightarrow> guest_request list \<Rightarrow> guest_request list \<times> unit result" where
  "conn_send alive req sent =
     (if alive then (sent @ [req], Inr ()) else (sent, Inl (error.Vmm ''guest connection is closed'')))"

record conn_env =
  gc_closed :: "conn_handle \<Rightarrow> bool"
  gc_attempts :: "nat \<Rightarrow> unit result"
  gc_handle :: conn_handle
  gc_list_open :: bool
  gc_arm_open :: bool

definition cached_conn :: "(conn_handle \<Rightarrow> bool) \<Rightarrow> vm_id \<Rightarrow> 'h vmm \<Rightarrow> conn_handle option" where
  "cached_conn closed vm_id v =
     (case Option.bind (map_of (fm_vms v) vm_id) fe_guest_conn of
        None \<Rightarrow> None
      | Some h \<Rightarrow> if closed h then None else Some h)"

text \<open>The connection attempts, one a second; the error is the last one's.\<close>

fun connect_loop :: "(nat \<Rightarrow> unit result) \<Rightarrow> nat \<Rightarrow> nat \<Rightarrow> error option \<Rightarrow> unit result" where
  "connect_loop attempt i 0 last_err =
     Inl (case last_err of None \<Rightarrow> error.Vmm ''vsock connect failed'' | Some e \<Rightarrow> e)"
| "connect_loop attempt i (Suc n) last_err =
     (case attempt i of
        Inr _ \<Rightarrow> Inr ()
      | Inl e \<Rightarrow> connect_loop attempt (i + 1) n (Some e))"

definition install_guest_conn ::
  "conn_env \<Rightarrow> vm_id \<Rightarrow> inst_ref \<Rightarrow> 'h vmm \<Rightarrow> 'h vmm \<times> guest_request list \<times> conn_handle result" where
  "install_guest_conn env vm_id r v =
     (case map_of (fm_vms v) vm_id of
        None \<Rightarrow> (v, [], Inl (VmNotFound vm_id))
      | Some _ \<Rightarrow>
          let v1 = set_entry vm_id (\<lambda>e. e\<lparr>fe_guest_conn := Some (gc_handle env)\<rparr>) v
          in (case conn_send (gc_list_open env) ReqList [] of
                (sent, Inl e) \<Rightarrow> (v1, sent, Inl e)
              | (sent, Inr _) \<Rightarrow>
                  (case Option.bind (inst v1 r) (\<lambda>i. vc_auto_suspend (vi_vm_config i)) of
                     None \<Rightarrow> (v1, sent, Inr (gc_handle env))
                   | Some c \<Rightarrow>
                       if asc_idle_check_cmd c = [] then (v1, sent, Inr (gc_handle env))
                       else (case conn_send (gc_arm_open env)
                                    (ReqConfigureAutoSuspend (asc_idle_check_cmd c) (asc_check_interval_secs c)) sent of
                               (sent', Inl e) \<Rightarrow> (v1, sent', Inl e)
                             | (sent', Inr _) \<Rightarrow> (v1, sent', Inr (gc_handle env))))))"

text \<open>\<open>guest_conn\<close>: the stored handle while it is open, else a new connection.  The attempts take up
  to a minute; \<open>meanwhile\<close> is what the other tasks do to the VMM in that time.\<close>

definition guest_conn ::
  "conn_env \<Rightarrow> ('h vmm \<Rightarrow> 'h vmm) \<Rightarrow> vm_id \<Rightarrow> 'h vmm \<Rightarrow> 'h vmm \<times> guest_request list \<times> conn_handle result" where
  "guest_conn env meanwhile vm_id v =
     (case cached_conn (gc_closed env) vm_id v of
        Some h \<Rightarrow> (v, [], Inr h)
      | None \<Rightarrow>
          (case entry_parts vm_id v of
             Inl e \<Rightarrow> (v, [], Inl e)
           | Inr r \<Rightarrow>
               (case connect_loop (gc_attempts env) 0 60 None of
                  Inl e \<Rightarrow> (meanwhile v, [], Inl e)
                | Inr _ \<Rightarrow> install_guest_conn env vm_id r (meanwhile v))))"

text \<open>The end of \<open>run_guest_conn\<close>: the stored handle is cleared only if it is still this connection's.\<close>

definition conn_closed :: "vm_id \<Rightarrow> conn_handle \<Rightarrow> 'h vmm \<Rightarrow> 'h vmm" where
  "conn_closed vm_id h v =
     set_entry vm_id (\<lambda>e. if fe_guest_conn e = Some h then e\<lparr>fe_guest_conn := None\<rparr> else e) v"

section \<open>The guest's events\<close>

definition log_path :: "workload_id \<Rightarrow> string \<Rightarrow> string" where
  "log_path workload_id workloads_dir = path_join workloads_dir (workload_id @ ''.log'')"

record workload_log_entry =
  le_ts :: instant
  le_stream :: string
  le_data :: string

text \<open>What an event does outside the VMM's state: a line appended to a log file, or the idle signal to
  the auto-suspend loop.\<close>

datatype guest_effect = AppendLog string workload_log_entry | SignalIdle vm_id

definition with_workload_mut ::
  "vm_id \<Rightarrow> workload_id \<Rightarrow> (workload \<Rightarrow> workload) \<Rightarrow> 'h vmm \<Rightarrow> 'h vmm" where
  "with_workload_mut vm_id wid f v =
     set_entry vm_id (\<lambda>e. e\<lparr>fe_workloads := AList.map_entry wid f (fe_workloads e)\<rparr>) v"

definition reconcile_workload :: "instant \<Rightarrow> guest_workload_info \<Rightarrow> workload \<Rightarrow> workload" where
  "reconcile_workload now info w =
     (if gw_state info = ''running'' then mark_running now None w
      else if gw_state info = ''exited'' then mark_finished now (gw_exit_code info) (gw_signal info) w
      else w)"

definition handle_guest_event ::
  "instant \<Rightarrow> vm_id \<Rightarrow> string \<Rightarrow> guest_event \<Rightarrow> 'h vmm \<Rightarrow> 'h vmm \<times> guest_effect list" where
  "handle_guest_event now vm_id workloads_dir ev v =
     (case ev of
        EvStarted wid pid \<Rightarrow> (with_workload_mut vm_id wid (mark_running now (Some pid)) v, [])
      | EvOutput wid stream data \<Rightarrow>
          (v, [AppendLog (log_path wid workloads_dir) \<lparr>le_ts = now, le_stream = stream, le_data = data\<rparr>])
      | EvExited wid code sig \<Rightarrow> (with_workload_mut vm_id wid (mark_finished now code sig) v, [])
      | EvError (Some wid) message \<Rightarrow> (with_workload_mut vm_id wid (mark_failed now) v, [])
      | EvError None message \<Rightarrow> (v, [])
      | EvListResult infos \<Rightarrow>
          (foldl (\<lambda>v info. with_workload_mut vm_id (gw_id info) (reconcile_workload now info) v) v infos, [])
      | EvIdle \<Rightarrow> (v, [SignalIdle vm_id]))"

section \<open>The handshake accepts exactly the documented reply\<close>

lemma read_reply_Inr:
  "read_reply eof acc inp = Inr (line, rest) \<longleftrightarrow>
     (\<exists>l. line = acc @ l \<and> inp = l @ CHR 0x0A # rest \<and> CHR 0x0A \<notin> set l \<and>
          (l \<noteq> [] \<longrightarrow> length acc + length l \<le> MAX_REPLY_BYTES))"
proof (induction inp arbitrary: acc)
  case Nil
  then show ?case by simp
next
  case (Cons b inp)
  show ?case
  proof (cases "b = CHR 0x0A")
    case True
    have "b # inp = l @ CHR 0x0A # rest \<Longrightarrow> CHR 0x0A \<notin> set l \<Longrightarrow> l = []" for l :: string
      using True by (cases l) simp_all
    then have "(\<exists>l. line = acc @ l \<and> b # inp = l @ CHR 0x0A # rest \<and> CHR 0x0A \<notin> set l \<and>
        (l \<noteq> [] \<longrightarrow> length acc + length l \<le> MAX_REPLY_BYTES)) \<longleftrightarrow> line = acc \<and> rest = inp"
      using True by fastforce
    with True show ?thesis by (simp add: eq_commute)
  next
    case False
    have *: "b # inp = l @ CHR 0x0A # rest \<longleftrightarrow> (\<exists>m. l = b # m \<and> inp = m @ CHR 0x0A # rest)"
      for l :: string using False by (cases l) auto
    show ?thesis
    proof (cases "MAX_REPLY_BYTES < length acc + 1")
      case True
      then show ?thesis using False by (auto simp: *)
    next
      case ok: False
      have step: "read_reply eof acc (b # inp) = read_reply eof (acc @ [b]) inp"
        using ok False by simp
      have len: "length acc + length (b # m) \<le> MAX_REPLY_BYTES \<longleftrightarrow>
          (m \<noteq> [] \<longrightarrow> length (acc @ [b]) + length m \<le> MAX_REPLY_BYTES)" for m :: string
        using ok by (cases m) auto
      show ?thesis
      proof -
        have "(\<exists>l. line = acc @ l \<and> b # inp = l @ CHR 0x0A # rest \<and> CHR 0x0A \<notin> set l \<and>
              (l \<noteq> [] \<longrightarrow> length acc + length l \<le> MAX_REPLY_BYTES)) \<longleftrightarrow>
            (\<exists>m. line = acc @ b # m \<and> inp = m @ CHR 0x0A # rest \<and> CHR 0x0A \<notin> set (b # m) \<and>
              length acc + length (b # m) \<le> MAX_REPLY_BYTES)"
          unfolding * by blast
        then show ?thesis unfolding step Cons.IH using False len by simp
      qed
    qed
  qed
qed

text \<open>A lossy decoding that is all ASCII is the input itself.\<close>

lemma utf8_lossy_ascii:
  "\<forall>c \<in> set (utf8_lossy s). of_char c < (128 :: nat) \<Longrightarrow> utf8_lossy s = s"
proof (induction s rule: utf8_lossy.induct)
  case (1 s)
  show ?case
  proof (cases "s = []")
    case False
    obtain good n where h: "utf8_head s = (good, n)" by (cases "utf8_head s")
    have eq: "utf8_lossy s = (if good then take n s else replacement) @ utf8_lossy (drop n s)"
      using False by (simp add: utf8_lossy.simps[of s] h)
    have good
      using "1.prems" by (cases good) (auto simp: eq replacement_def)
    moreover have "utf8_lossy (drop n s) = drop n s"
      using "1.IH"[OF False h[symmetric]] "1.prems" by (auto simp: eq)
    ultimately show ?thesis by (simp add: eq)
  qed (simp add: utf8_lossy.simps)
qed

lemma parse_digits_ok: "parse_digits mx acc s = Inr n \<Longrightarrow> list_all is_digit s"
  by (induction s arbitrary: acc) (auto split: if_splits)

lemma parse_uint_ok: "parse_uint mx s = Inr n \<Longrightarrow> c \<in> set s \<Longrightarrow> is_digit c \<or> c = CHR ''+''"
  by (cases s) (auto simp: parse_uint_def list_all_iff split: if_splits list.splits dest!: parse_digits_ok)

definition u32_text :: "string \<Rightarrow> bool" where
  "u32_text p \<longleftrightarrow> (\<exists>n. parse_uint (2 ^ 32 - 1) p = Inr n)"

lemma u32_text_char: "u32_text p \<Longrightarrow> c \<in> set p \<Longrightarrow> of_char c < (128 :: nat) \<and> c \<noteq> CHR 0x0A"
  unfolding u32_text_def using parse_uint_ok[of "2 ^ 32 - 1" p _ c] by (auto simp: is_digit_def)

lemma reply_ok_iff: "reply_ok reply \<longleftrightarrow> (\<exists>p. reply = ''OK '' @ p \<and> u32_text p)"
proof
  assume "reply_ok reply"
  then obtain p where p: "split_once CHR '' '' reply = Some (''OK'', p)"
      "case parse_uint (2 ^ 32 - 1) p of Inr _ \<Rightarrow> True | Inl _ \<Rightarrow> False"
    unfolding reply_ok_def by (auto split: option.splits)
  then obtain n where "parse_uint (2 ^ 32 - 1) p = Inr n" by (cases "parse_uint (2 ^ 32 - 1) p") auto
  with p(1) show "\<exists>p. reply = ''OK '' @ p \<and> u32_text p"
    by (auto simp: u32_text_def dest: split_once_Some)
next
  assume "\<exists>p. reply = ''OK '' @ p \<and> u32_text p"
  then obtain p n where "reply = ''OK'' @ CHR '' '' # p" "parse_uint (2 ^ 32 - 1) p = Inr n"
    by (auto simp: u32_text_def)
  moreover have "split_once CHR '' '' (''OK'' @ CHR '' '' # p) = Some (''OK'', p)"
    by (rule split_once_append) simp
  ultimately show "reply_ok reply" by (simp add: reply_ok_def)
qed

text \<open>When the dial and the write work, the handshake succeeds exactly on the reply Firecracker
  documents: the line \<open>OK <port>\<close> with a port that fits \<open>u32\<close>, at most \<open>MAX_REPLY_BYTES\<close> long.  Not a
  byte after the line is consumed: what guestd sends right away is left in the stream.\<close>

theorem handshake_accepts:
  "vsock_connect uds (Inr ()) (\<lambda>_. Inr ()) eof inp = Inr rest \<longleftrightarrow>
     (\<exists>p. inp = ''OK '' @ p @ [CHR 0x0A] @ rest \<and> u32_text p \<and> length (''OK '' @ p) \<le> MAX_REPLY_BYTES)"
proof
  assume "vsock_connect uds (Inr ()) (\<lambda>_. Inr ()) eof inp = Inr rest"
  then obtain line where line: "read_reply eof [] inp = Inr (line, rest)" "reply_ok (utf8_lossy line)"
    by (auto simp: vsock_connect_def try_res_Inr Let_def split: if_splits)
  then obtain p where p: "utf8_lossy line = ''OK '' @ p" "u32_text p" by (auto simp: reply_ok_iff)
  have "line = ''OK '' @ p"
    using utf8_lossy_ascii[of line] u32_text_char[OF p(2)] p(1) by auto
  with line(1) p(2)
  show "\<exists>p. inp = ''OK '' @ p @ [CHR 0x0A] @ rest \<and> u32_text p \<and> length (''OK '' @ p) \<le> MAX_REPLY_BYTES"
    by (auto simp: read_reply_Inr)
next
  assume "\<exists>p. inp = ''OK '' @ p @ [CHR 0x0A] @ rest \<and> u32_text p \<and> length (''OK '' @ p) \<le> MAX_REPLY_BYTES"
  then obtain p where p: "inp = (''OK '' @ p) @ CHR 0x0A # rest" "u32_text p"
    "length (''OK '' @ p) \<le> MAX_REPLY_BYTES" by auto
  have "CHR 0x0A \<notin> set (''OK '' @ p)" using u32_text_char[OF p(2)] by auto
  then have "read_reply eof [] inp = Inr (''OK '' @ p, rest)"
    using p by (auto simp: read_reply_Inr)
  moreover have "utf8_lossy (''OK '' @ p) = ''OK '' @ p"
    using u32_text_char[OF p(2)] by (intro utf8_lossy_ok utf8_ok_ascii) auto
  ultimately show "vsock_connect uds (Inr ()) (\<lambda>_. Inr ()) eof inp = Inr rest"
    using p(2) reply_ok_iff by (auto simp: vsock_connect_def)
qed

section \<open>What the guest can reach\<close>

text \<open>The workload id of an \<open>output\<close> event is the guest's text, and an absolute path joined to the log
  directory replaces it.\<close>

text \<open>The id in an \<open>output\<close> event is taken as it is, whether or not such a workload exists: a guest
  that sends an absolute path makes hostd append to that file of the host, not to a file of the VM's
  log directory.\<close>

theorem guest_output_escapes:
  "handle_guest_event now vm_id workloads_dir (EvOutput (''/'' @ p) stream data) v =
     (v, [AppendLog (''/'' @ p @ ''.log'') \<lparr>le_ts = now, le_stream = stream, le_data = data\<rparr>])"
  by (simp add: handle_guest_event_def log_path_def path_join_def starts_with_def)

end
