(* ===== verification/Poll.thy ===== *)
theory Poll
  imports Prelude
begin

text \<open>
  Loops that poll until they can decide: \<open>probe k\<close> is what the \<open>k\<close>-th turn sees, \<open>None\<close> to go on.  A
  loop that never decides is \<open>None\<close>; otherwise the result is the turn of the decision and what it is.
\<close>

partial_function (option) poll_loop :: "(nat \<Rightarrow> 'r option) \<Rightarrow> nat \<Rightarrow> (nat \<times> 'r) option" where
  "poll_loop probe k = (case probe k of Some r \<Rightarrow> Some (k, r) | None \<Rightarrow> poll_loop probe (k + 1))"

lemma poll_loop_first:
  "(\<And>i. i < n \<Longrightarrow> probe (k + i) = None) \<Longrightarrow> probe (k + n) = Some r \<Longrightarrow> poll_loop probe k = Some (k + n, r)"
proof (induction n arbitrary: k)
  case 0
  then show ?case by (subst poll_loop.simps) simp
next
  case (Suc n)
  have "poll_loop probe (k + 1) = Some (k + 1 + n, r)"
    using Suc.prems(1)[of "Suc _"] Suc.prems(2) by (intro Suc.IH) simp_all
  moreover have "probe k = None" using Suc.prems(1)[of 0] by simp
  ultimately show ?case by (subst poll_loop.simps) simp
qed

lemma poll_loop_sound: "poll_loop probe k = Some r \<Longrightarrow> probe (fst r) = Some (snd r)"
  by (erule poll_loop.raw_induct[rotated]) (auto split: option.splits)

text \<open>A loop that decides at some turn decides at the first such turn.\<close>

lemma poll_loop_decides:
  assumes "probe n \<noteq> None"
  obtains m r where "poll_loop probe 0 = Some (m, r)" "m \<le> n" "probe m = Some r" "\<And>i. i < m \<Longrightarrow> probe i = None"
proof -
  define m where "m = (LEAST k. probe k \<noteq> None)"
  have m: "probe m \<noteq> None" "m \<le> n" "\<And>i. i < m \<Longrightarrow> probe i = None"
    unfolding m_def using LeastI[of "\<lambda>k. probe k \<noteq> None", OF assms]
      Least_le[of "\<lambda>k. probe k \<noteq> None", OF assms] not_less_Least by blast+
  obtain r where r: "probe m = Some r" using m(1) by auto
  have "poll_loop probe 0 = Some (0 + m, r)" using m(3) r by (intro poll_loop_first) simp_all
  with m r that show thesis by simp
qed

lemma poll_loop_None: "poll_loop probe 0 = None \<longleftrightarrow> (\<forall>k. probe k = None)"
proof
  assume none: "poll_loop probe 0 = None"
  show "\<forall>k. probe k = None"
  proof (rule ccontr)
    assume "\<not> (\<forall>k. probe k = None)"
    then obtain n where "probe n \<noteq> None" by blast
    from poll_loop_decides[where probe = probe, OF this] obtain m r where "poll_loop probe 0 = Some (m, r)" by blast
    with none show False by simp
  qed
next
  assume "\<forall>k. probe k = None"
  then show "poll_loop probe 0 = None" using poll_loop_sound[of probe 0]
    by (cases "poll_loop probe 0") auto
qed

end
