(* ===== verification/VmmOps.thy ===== *)
theory VmmOps
  imports Guest Poll
begin

text \<open>
  The operations of \<open>hostd/src/vmm/firecracker/vmm.rs\<close> on a VM that runs: workloads, exposed ports
  and the wake-up of a suspended VM.  An operation with await points takes, for each of them, the
  function \<open>m1\<close>, \<open>m2\<close> that the other tasks apply to the VMM in the meantime.
\<close>

section \<open>Workloads\<close>

fun debug_workload_state :: "workload_state \<Rightarrow> string" where
  "debug_workload_state WlStarting = ''Starting''"
| "debug_workload_state WlRunning = ''Running''"
| "debug_workload_state WlExited = ''Exited''"
| "debug_workload_state WlStopped = ''Stopped''"
| "debug_workload_state WlFailed = ''Failed''"

record workload_env =
  we_mkdir :: "unit result"
  we_picks :: "nat list"
  we_now :: instant
  we_conn :: conn_env
  we_open :: bool

definition start_check :: "unit result \<Rightarrow> vm_id \<Rightarrow> 'h vmm \<Rightarrow> unit result" where
  "start_check mkdir vm_id v =
     (case map_of (fm_vms v) vm_id of
        None \<Rightarrow> Inl (VmNotFound vm_id)
      | Some e \<Rightarrow>
          (case inst v (fe_instance e) of
             None \<Rightarrow> Inl (VmNotFound vm_id)
           | Some i \<Rightarrow>
               if vi_state i \<noteq> Started
               then Inl (error.Vmm (''vm '' @ vm_id @ '' is '' @ debug_vm_state (vi_state i) @
                                    ''; workloads require a started vm''))
               else mkdir))"

definition register_workload :: "vm_id \<Rightarrow> workload \<Rightarrow> 'h vmm \<Rightarrow> 'h vmm" where
  "register_workload vm_id w v =
     set_entry vm_id (\<lambda>e. e\<lparr>fe_workloads := AList.update (wl_id w) w (fe_workloads e)\<rparr>) v"

definition unregister_workload :: "vm_id \<Rightarrow> workload_id \<Rightarrow> 'h vmm \<Rightarrow> 'h vmm" where
  "unregister_workload vm_id wid v =
     set_entry vm_id (\<lambda>e. e\<lparr>fe_workloads := AList.delete wid (fe_workloads e)\<rparr>) v"

text \<open>The environment is collected into a map: of two entries with one key the later counts.\<close>

definition start_request :: "workload \<Rightarrow> guest_request" where
  "start_request w =
     ReqStart (wl_id w) (ws_cmd (wl_spec w))
       (foldl (\<lambda>m x. AList.update (ev_key x) (ev_value x) m) [] (ws_env (wl_spec w))) (ws_cwd (wl_spec w))"

definition start_workload ::
  "workload_env \<Rightarrow> ('h vmm \<Rightarrow> 'h vmm) \<Rightarrow> ('h vmm \<Rightarrow> 'h vmm) \<Rightarrow> vm_id \<Rightarrow> workload_spec \<Rightarrow> 'h vmm \<Rightarrow>
   'h vmm \<times> guest_request list \<times> workload result" where
  "start_workload env m1 m2 vm_id spec v =
     (if ws_cmd spec = [] then (v, [], Inl (error.Vmm ''workload cmd must not be empty''))
      else case start_check (we_mkdir env) vm_id v of
        Inl e \<Rightarrow> (v, [], Inl e)
      | Inr _ \<Rightarrow>
          let w = workload_new (we_picks env) (we_now env) vm_id spec
          in (case guest_conn (we_conn env) m1 vm_id v of
                (v1, sent, Inl e) \<Rightarrow> (v1, sent, Inl e)
              | (v1, sent, Inr h) \<Rightarrow>
                  (case map_of (fm_vms v1) vm_id of
                     None \<Rightarrow> (v1, sent, Inl (VmNotFound vm_id))
                   | Some _ \<Rightarrow>
                       let v2 = m2 (register_workload vm_id w v1)
                       in (case conn_send (we_open env) (start_request w) sent of
                             (sent', Inl e) \<Rightarrow> (unregister_workload vm_id (wl_id w) v2, sent', Inl e)
                           | (sent', Inr _) \<Rightarrow> (v2, sent', Inr w)))))"

definition list_workloads :: "vm_id \<Rightarrow> 'h vmm \<Rightarrow> workload list result" where
  "list_workloads vm_id v =
     (case map_of (fm_vms v) vm_id of
        None \<Rightarrow> Inl (VmNotFound vm_id)
      | Some e \<Rightarrow> Inr (map snd (fe_workloads e)))"

definition get_workload :: "vm_id \<Rightarrow> workload_id \<Rightarrow> 'h vmm \<Rightarrow> workload result" where
  "get_workload vm_id wid v =
     (case map_of (fm_vms v) vm_id of
        None \<Rightarrow> Inl (VmNotFound vm_id)
      | Some e \<Rightarrow> ok_or (WorkloadNotFound wid) (map_of (fe_workloads e) wid))"

definition mark_stop :: "bool \<Rightarrow> workload \<Rightarrow> workload" where
  "mark_stop b w = w\<lparr>wl_stop_requested := b\<rparr>"

definition stop_workload ::
  "workload_env \<Rightarrow> ('h vmm \<Rightarrow> 'h vmm) \<Rightarrow> ('h vmm \<Rightarrow> 'h vmm) \<Rightarrow> vm_id \<Rightarrow> workload_id \<Rightarrow> 'h vmm \<Rightarrow>
   'h vmm \<times> guest_request list \<times> workload result" where
  "stop_workload env m1 m2 vm_id wid v =
     (case guest_conn (we_conn env) m1 vm_id v of
        (v1, sent, Inl e) \<Rightarrow> (v1, sent, Inl e)
      | (v1, sent, Inr h) \<Rightarrow>
          (case get_workload vm_id wid v1 of
             Inl e \<Rightarrow> (v1, sent, Inl e)
           | Inr w \<Rightarrow>
               if \<not> is_active w
               then (v1, sent, Inl (error.Vmm (''workload '' @ wid @ '' is '' @ debug_workload_state (wl_state w) @
                                         ''; only active workloads can be stopped'')))
               else
                 let v2 = m2 (with_workload_mut vm_id wid (mark_stop True) v1)
                 in (case conn_send (we_open env) (ReqStop wid) sent of
                       (sent', Inl e) \<Rightarrow> (with_workload_mut vm_id wid (mark_stop False) v2, sent', Inl e)
                     | (sent', Inr _) \<Rightarrow> (v2, sent', get_workload vm_id wid v2))))"

text \<open>The log is read from its file; a file that does not exist is an empty log, and a line serde does
  not accept is left out.\<close>

definition workload_logs ::
  "(string \<Rightarrow> io_error + string) \<Rightarrow> (string \<Rightarrow> workload_log_entry option) \<Rightarrow> vm_id \<Rightarrow> workload_id \<Rightarrow>
   'h vmm \<Rightarrow> workload_log_entry list result" where
  "workload_logs read_file from_json vm_id wid v =
     (case map_of (fm_vms v) vm_id of
        None \<Rightarrow> Inl (VmNotFound vm_id)
      | Some e \<Rightarrow>
          if map_of (fe_workloads e) wid = None then Inl (WorkloadNotFound wid)
          else (case read_file (log_path wid (fe_workloads_dir e)) of
                  Inr contents \<Rightarrow> Inr (List.map_filter from_json (str_lines contents))
                | Inl (NotFound _) \<Rightarrow> Inr []
                | Inl err \<Rightarrow> Inl (error.Io (io_text err))))"

section \<open>Exposed ports\<close>

definition list_exposed_ports :: "vm_id \<Rightarrow> 'h vmm \<Rightarrow> exposed_port list result" where
  "list_exposed_ports vm_id v =
     (case entry_parts vm_id v of
        Inl e \<Rightarrow> Inl e
      | Inr r \<Rightarrow> ok_or (VmNotFound vm_id)
          (map_option (\<lambda>i. exposed_ports (vc_network_config (vi_vm_config i))) (inst v r)))"

text \<open>One operation of the registry on the instance's configuration.\<close>

definition with_network_config ::
  "(network_config \<Rightarrow> network_config result) \<Rightarrow> vm_id \<Rightarrow> 'h vmm \<Rightarrow> 'h vmm \<times> unit result" where
  "with_network_config f vm_id v =
     (case entry_parts vm_id v of
        Inl e \<Rightarrow> (v, Inl e)
      | Inr r \<Rightarrow>
          (case inst v r of
             None \<Rightarrow> (v, Inl (VmNotFound vm_id))
           | Some i \<Rightarrow>
               (case f (vc_network_config (vi_vm_config i)) of
                  Inl e \<Rightarrow> (v, Inl e)
                | Inr cfg \<Rightarrow>
                    (set_inst r (\<lambda>i. i\<lparr>vi_vm_config := (vi_vm_config i)\<lparr>vc_network_config := cfg\<rparr>\<rparr>) v, Inr ()))))"

definition vmm_add_exposed_port :: "vm_id \<Rightarrow> exposed_port \<Rightarrow> 'h vmm \<Rightarrow> 'h vmm \<times> exposed_port result" where
  "vmm_add_exposed_port vm_id port v =
     (case with_network_config (\<lambda>cfg. add_exposed_port cfg vm_id port) vm_id v of
        (v', Inl e) \<Rightarrow> (v', Inl e)
      | (v', Inr _) \<Rightarrow> (v', Inr port))"

definition vmm_remove_exposed_port :: "vm_id \<Rightarrow> u16 \<Rightarrow> 'h vmm \<Rightarrow> 'h vmm \<times> unit result" where
  "vmm_remove_exposed_port vm_id port v =
     with_network_config (\<lambda>cfg. remove_exposed_port cfg vm_id port) vm_id v"

section \<open>Waking a suspended VM\<close>

text \<open>
  The body of \<open>ensure_started\<close> once the VM's wake lock is held.  Poll \<open>k\<close> sees the VMM as \<open>obs k\<close> at the
  time \<open>clock k\<close>; between two polls it sleeps for 200 ms.  The outcome is the poll that decided, and
  what it decided: the VM runs, its restore begins, or an error.
\<close>

datatype wake_outcome = AlreadyStarted | RestoreBegun job | WakeError error

definition wake_poll :: "vm_id \<Rightarrow> instant \<Rightarrow> instant \<Rightarrow> 'h vmm \<Rightarrow> ('h vmm \<times> wake_outcome) option" where
  "wake_poll vm_id deadline now v =
     (case vm_state_of vm_id v of
        None \<Rightarrow> Some (v, WakeError (VmNotFound vm_id))
      | Some Started \<Rightarrow> Some (v, AlreadyStarted)
      | Some Suspended \<Rightarrow>
          Some (case restore_enter vm_id v of
                  (v', Inl e) \<Rightarrow> (v', WakeError e)
                | (v', Inr j) \<Rightarrow> (v', RestoreBegun j))
      | Some s \<Rightarrow>
          if s = Suspending \<or> s = Restoring then
            if deadline \<le> now
            then Some (v, WakeError (error.Vmm (''vm '' @ vm_id @ '' is still '' @ debug_vm_state s @ '' after 30s'')))
            else None
          else Some (v, WakeError (error.Vmm (''vm '' @ vm_id @ '' is '' @ debug_vm_state s @
                                     ''; only a suspended vm can be woken''))))"

definition ensure_started ::
  "vm_id \<Rightarrow> instant \<Rightarrow> (nat \<Rightarrow> 'h vmm) \<Rightarrow> (nat \<Rightarrow> instant) \<Rightarrow> (nat \<times> 'h vmm \<times> wake_outcome) option" where
  "ensure_started vm_id began obs clock = poll_loop (\<lambda>k. wake_poll vm_id (began + 30000) (clock k) (obs k)) 0"

section \<open>The workload tables\<close>

definition workloads_of :: "'h vmm \<Rightarrow> vm_id \<Rightarrow> (workload_id, workload) amap" where
  "workloads_of v vm_id = (case map_of (fm_vms v) vm_id of None \<Rightarrow> [] | Some e \<Rightarrow> fe_workloads e)"

lemma workloads_of_set_entry:
  "workloads_of (set_entry vm f v) = (workloads_of v)(vm :=
     (case map_of (fm_vms v) vm of None \<Rightarrow> [] | Some e \<Rightarrow> fe_workloads (f e)))"
  by (auto simp: workloads_of_def set_entry_def map_simps fun_eq_iff split: option.split)

lemma workloads_of_mut [simp]:
  "workloads_of (with_workload_mut vm wid f v) =
     (workloads_of v)(vm := AList.map_entry wid f (workloads_of v vm))"
  by (auto simp: with_workload_mut_def workloads_of_set_entry workloads_of_def split: option.split)

lemma workloads_of_unregister [simp]:
  "workloads_of (unregister_workload vm wid v) =
     (workloads_of v)(vm := AList.delete wid (workloads_of v vm))"
  by (auto simp: unregister_workload_def workloads_of_set_entry workloads_of_def split: option.split)

lemma workloads_of_register:
  "workloads_of (register_workload vm w v) = (workloads_of v)(vm :=
     (if map_of (fm_vms v) vm = None then [] else AList.update (wl_id w) w (workloads_of v vm)))"
  by (auto simp: register_workload_def workloads_of_set_entry workloads_of_def split: option.split)

lemma guest_conn_tables:
  assumes "guest_conn env m vm v = (v', sent, r)"
  shows "workloads_of v' = workloads_of v \<or> workloads_of v' = workloads_of (m v)"
proof -
  have "workloads_of (set_entry vm (\<lambda>e. e\<lparr>fe_guest_conn := h\<rparr>) u) = workloads_of u" for h and u :: "'a vmm"
    by (auto simp: workloads_of_set_entry fun_eq_iff workloads_of_def split: option.split)
  then have "workloads_of (fst (install_guest_conn env vm r u)) = workloads_of u" for r and u :: "'a vmm"
    by (simp add: install_guest_conn_def Let_def split: option.split prod.split sum.split)
  then have "workloads_of v' = workloads_of (m v)" if "install_guest_conn env vm r' (m v) = (v', sent, r)" for r'
    using that by (metis fst_conv)
  then show ?thesis
    using assms by (auto simp: guest_conn_def split: option.splits sum.splits)
qed

text \<open>\<open>v'\<close> evolves from \<open>v\<close>: every workload in a table was there, and went through some of the things
  that happen to workloads.\<close>

definition evolves :: "'h vmm \<Rightarrow> 'h vmm \<Rightarrow> bool" where
  "evolves v v' \<longleftrightarrow> (\<forall>vm wid w'. map_of (workloads_of v' vm) wid = Some w' \<longrightarrow>
     (\<exists>w evs. map_of (workloads_of v vm) wid = Some w \<and> w' = foldl workload_step w evs))"

lemma evolves_tables: "workloads_of v' = workloads_of v \<Longrightarrow> evolves v v'"
  unfolding evolves_def by (metis foldl_Nil)

lemma evolves_trans: "evolves u v \<Longrightarrow> evolves v w \<Longrightarrow> evolves u w"
  unfolding evolves_def by (metis foldl_append)

lemma evolves_mut: "(\<And>w. \<exists>evs. f w = foldl workload_step w evs) \<Longrightarrow> evolves v (with_workload_mut vm wid f v)"
  unfolding evolves_def by (auto simp: map_simps) (metis foldl_Nil)+

lemma reconcile_steps: "\<exists>evs. reconcile_workload now info w = foldl workload_step w evs"
proof (cases "gw_state info = ''running''")
  case True
  then show ?thesis by (intro exI[of _ "[Running now None]"]) (simp add: reconcile_workload_def)
next
  case False
  then show ?thesis
    by (cases "gw_state info = ''exited''")
      (auto simp: reconcile_workload_def intro: exI[of _ "[Finished now (gw_exit_code info) (gw_signal info)]"]
        exI[of _ "[]"])
qed

lemma list_result_evolves:
  "evolves v (foldl (\<lambda>v info. with_workload_mut vm (gw_id info) (reconcile_workload now info) v) v infos)"
proof (induction infos arbitrary: v)
  case Nil
  then show ?case by (simp add: evolves_tables)
next
  case (Cons info infos)
  have "evolves v (with_workload_mut vm (gw_id info) (reconcile_workload now info) v)"
    using reconcile_steps by (rule evolves_mut)
  with Cons.IH show ?case by (simp add: evolves_trans)
qed

lemma guest_event_evolves: "evolves v (fst (handle_guest_event now vm dir ev v))"
proof (cases ev)
  case (EvStarted wid pid)
  have "\<exists>evs. mark_running now (Some pid) w = foldl workload_step w evs" for w
    by (rule exI[of _ "[Running now (Some pid)]"]) simp
  with EvStarted show ?thesis by (simp add: handle_guest_event_def evolves_mut)
next
  case (EvExited wid code sig)
  have "\<exists>evs. mark_finished now code sig w = foldl workload_step w evs" for w
    by (rule exI[of _ "[Finished now code sig]"]) simp
  with EvExited show ?thesis by (simp add: handle_guest_event_def evolves_mut)
next
  case (EvError wid message)
  have "\<exists>evs. mark_failed now w = foldl workload_step w evs" for w
    by (rule exI[of _ "[SpawnFailed now]"]) simp
  with EvError show ?thesis
    by (cases wid) (simp_all add: handle_guest_event_def evolves_mut evolves_tables)
next
  case (EvListResult infos)
  then show ?thesis by (simp add: handle_guest_event_def list_result_evolves)
qed (simp_all add: handle_guest_event_def evolves_tables)

section \<open>Histories of the tables\<close>

text \<open>What the tasks of hostd do to the tables, one step each.  The second component of a configuration
  is the set of workload ids drawn so far; a new id is taken not to repeat one.\<close>

inductive table_step :: "'h vmm \<times> workload_id set \<Rightarrow> 'h vmm \<times> workload_id set \<Rightarrow> bool" where
  Event: "table_step (v, ids) (fst (handle_guest_event now vm dir ev v), ids)"
| Register: "w = workload_new picks now vm spec \<Longrightarrow> wl_id w \<notin> ids \<Longrightarrow>
    table_step (v, ids) (register_workload vm w v, insert (wl_id w) ids)"
| Unregister: "table_step (v, ids) (unregister_workload vm wid v, ids)"
| MarkStop: "table_step (v, ids) (with_workload_mut vm wid (mark_stop b) v, ids)"
| OtherTask: "(\<And>vm. workloads_of v' vm = workloads_of v vm \<or> workloads_of v' vm = []) \<Longrightarrow>
    table_step (v, ids) (v', ids)"

definition tables_ok :: "'h vmm \<times> workload_id set \<Rightarrow> bool" where
  "tables_ok s \<longleftrightarrow> (\<forall>vm wid w. map_of (workloads_of (fst s) vm) wid = Some w \<longrightarrow>
     wl_id w = wid \<and> wl_vm_id w = vm \<and> workload_wf w \<and> wid \<in> snd s)"

lemma workload_step_id: "wl_id (workload_step w ev) = wl_id w" "wl_vm_id (workload_step w ev) = wl_vm_id w"
  by (cases ev; simp add: mark_running_def mark_finished_def mark_failed_def Let_def)+

lemma workload_run_id: "wl_id (foldl workload_step w evs) = wl_id w" "wl_vm_id (foldl workload_step w evs) = wl_vm_id w"
  by (induction evs arbitrary: w) (simp_all add: workload_step_id)

lemma evolves_ok:
  assumes "evolves v v'" "tables_ok (v, ids)"
  shows "tables_ok (v', ids)"
  unfolding tables_ok_def fst_conv snd_conv
proof (intro allI impI)
  fix vm wid w' assume "map_of (workloads_of v' vm) wid = Some w'"
  then obtain w evs where w: "map_of (workloads_of v vm) wid = Some w" "w' = foldl workload_step w evs"
    using assms(1) unfolding evolves_def by blast
  moreover have "wl_id w = wid \<and> wl_vm_id w = vm \<and> workload_wf w \<and> wid \<in> ids"
    using assms(2) w(1) by (simp add: tables_ok_def)
  ultimately show "wl_id w' = wid \<and> wl_vm_id w' = vm \<and> workload_wf w' \<and> wid \<in> ids"
    by (simp add: workload_run_id workload_run_wf)
qed

text \<open>Except for a registration, a step makes the tables evolve.\<close>

lemma table_step_evolves:
  assumes "table_step s s'"
  shows "(evolves (fst s) (fst s') \<and> snd s' = snd s) \<or>
    (\<exists>w picks now vm spec. w = workload_new picks now vm spec \<and> wl_id w \<notin> snd s \<and>
       fst s' = register_workload vm w (fst s) \<and> snd s' = insert (wl_id w) (snd s))"
  using assms
proof cases
  case (Event v ids now vm dir ev)
  then show ?thesis by (simp add: guest_event_evolves)
next
  case (Register w picks now vm spec ids v)
  then show ?thesis
    by (intro disjI2 exI[of _ w] exI[of _ picks] exI[of _ now] exI[of _ vm] exI[of _ spec]) simp
next
  case (Unregister v ids vm wid)
  have "evolves v (unregister_workload vm wid v)"
    unfolding evolves_def by (auto simp: map_simps) (metis foldl_Nil)+
  with Unregister show ?thesis by simp
next
  case (MarkStop v ids vm wid b)
  have "\<exists>evs. mark_stop b w = foldl workload_step w evs" for w
    by (rule exI[of _ "[StopRequested b]"]) (simp add: mark_stop_def)
  with MarkStop show ?thesis by (simp add: evolves_mut)
next
  case (OtherTask v' v ids)
  have "evolves v v'"
    unfolding evolves_def
  proof (intro allI impI)
    fix vm wid w' assume "map_of (workloads_of v' vm) wid = Some w'"
    then have "map_of (workloads_of v vm) wid = Some w'" using OtherTask(3)[of vm] by auto
    then show "\<exists>w evs. map_of (workloads_of v vm) wid = Some w \<and> w' = foldl workload_step w evs"
      by (metis foldl_Nil)
  qed
  with OtherTask show ?thesis by simp
qed

lemma register_new:
  "map_of (workloads_of (register_workload vm w v) vm') wid =
     (if vm' = vm \<and> map_of (fm_vms v) vm \<noteq> None \<and> wid = wl_id w then Some w
      else map_of (workloads_of v vm') wid)"
  by (cases "map_of (fm_vms v) vm") (auto simp: workloads_of_register map_simps workloads_of_def)

lemma table_step_ok:
  assumes "table_step s s'" "tables_ok s"
  shows "tables_ok s'" "snd s \<subseteq> snd s'"
    "wid \<in> snd s \<Longrightarrow> map_of (workloads_of (fst s') vm) wid = Some w' \<Longrightarrow>
       \<exists>w evs. map_of (workloads_of (fst s) vm) wid = Some w \<and> w' = foldl workload_step w evs"
proof -
  obtain v ids v' ids' where s: "s = (v, ids)" "s' = (v', ids')" by (cases s, cases s')
  consider (evolve) "evolves v v'" "ids' = ids"
    | (new) x picks now u spec where "x = workload_new picks now u spec" "wl_id x \<notin> ids"
        "v' = register_workload u x v" "ids' = insert (wl_id x) ids"
    using table_step_evolves[OF assms(1)] unfolding s fst_conv snd_conv by blast
  then have "tables_ok s' \<and> snd s \<subseteq> snd s' \<and>
    (wid \<in> snd s \<longrightarrow> map_of (workloads_of (fst s') vm) wid = Some w' \<longrightarrow>
       (\<exists>w evs. map_of (workloads_of (fst s) vm) wid = Some w \<and> w' = foldl workload_step w evs))"
  proof cases
    case evolve
    then show ?thesis using evolves_ok[OF evolve(1)] assms(2) s unfolding evolves_def by simp
  next
    case new
    have "wl_vm_id x = u" "workload_wf x"
      using new(1) by (simp_all add: workload_new_def workload_wf_def is_active_def)
    then have "tables_ok (v', ids')"
      using assms(2) new(3,4) by (auto simp: s tables_ok_def register_new split: if_splits)
    moreover have "map_of (workloads_of v vm) wid = Some w'"
      if "wid \<in> ids" "map_of (workloads_of v' vm) wid = Some w'"
      using that new(2,3) by (auto simp: register_new split: if_splits)
    ultimately show ?thesis using new(4) unfolding s fst_conv snd_conv
      by (metis foldl_Nil subset_insertI)
  qed
  then show "tables_ok s'" "snd s \<subseteq> snd s'"
    "wid \<in> snd s \<Longrightarrow> map_of (workloads_of (fst s') vm) wid = Some w' \<Longrightarrow>
       \<exists>w evs. map_of (workloads_of (fst s) vm) wid = Some w \<and> w' = foldl workload_step w evs"
    by blast+
qed

lemma table_run_ok:
  assumes "table_step\<^sup>*\<^sup>* s s'" "tables_ok s"
  shows "tables_ok s' \<and> (\<forall>wid vm w'. wid \<in> snd s \<longrightarrow> map_of (workloads_of (fst s') vm) wid = Some w' \<longrightarrow>
       (\<exists>w evs. map_of (workloads_of (fst s) vm) wid = Some w \<and> w' = foldl workload_step w evs)) \<and>
       snd s \<subseteq> snd s'"
  using assms(1)
proof (induction rule: rtranclp_induct)
  case base
  then show ?case using assms(2) by (auto intro: exI[of _ "[]"])
next
  case (step t u)
  note ok = step.IH[THEN conjunct1]
  have "\<exists>w evs. map_of (workloads_of (fst s) vm) wid = Some w \<and> w' = foldl workload_step w evs"
    if prem: "wid \<in> snd s" "map_of (workloads_of (fst u) vm) wid = Some w'" for wid vm w'
  proof -
    have "wid \<in> snd t" using prem(1) step.IH by blast
    from table_step_ok(3)[OF step.hyps(2) ok this prem(2)]
    obtain x evs where x: "map_of (workloads_of (fst t) vm) wid = Some x" "w' = foldl workload_step x evs" by blast
    then obtain w evs' where "map_of (workloads_of (fst s) vm) wid = Some w" "x = foldl workload_step w evs'"
      using step.IH[THEN conjunct2, THEN conjunct1, rule_format, OF prem(1) x(1)] by blast
    with x(2) show ?thesis by (metis foldl_append)
  qed
  moreover have "snd s \<subseteq> snd u" using step.IH table_step_ok(2)[OF step.hyps(2) ok] by blast
  ultimately show ?case using table_step_ok(1)[OF step.hyps(2) ok] by blast
qed


text \<open>A workload the guest does not know, because its start never arrived, is never settled by the
  reconciliation: a \<open>list_result\<close> that does not name it leaves it as it is, \<open>starting\<close> included.\<close>

theorem unknown_workload_stays:
  assumes "map_of (workloads_of v vm) wid = Some w" "wid \<notin> gw_id ` set infos"
  shows "map_of (workloads_of (fst (handle_guest_event now vm dir (EvListResult infos) v)) vm) wid = Some w"
  using assms
proof (induction infos arbitrary: v)
  case (Cons info infos)
  have "map_of (workloads_of (with_workload_mut vm (gw_id info) (reconcile_workload now info) v) vm) wid = Some w"
    using Cons.prems by (auto simp: map_simps)
  from Cons.IH[OF this] Cons.prems(2) show ?case by (simp add: handle_guest_event_def)
qed (simp add: handle_guest_event_def)

lemma start_check_Inr:
  "start_check mkdir vm v = Inr x \<Longrightarrow> vm_state_of vm v = Some Started \<and> mkdir = Inr x"
  by (auto simp: start_check_def vm_state_of_def split: option.splits if_splits)

text \<open>C29: Starting a workload is all or nothing.  When it fails, at whatever point, no table has changed;
  when it succeeds the VM was started, the command is not empty, the workload is registered as
  starting, and the last thing sent is its start request.  (The ids drawn do not repeat, and the
  other tasks leave the tables alone meanwhile.)\<close>

theorem start_workload_outcome:
  assumes "start_workload env m1 m2 vm spec v = (v', sent, r)"
    and m: "\<And>u. workloads_of (m1 u) = workloads_of u" "\<And>u. workloads_of (m2 u) = workloads_of u"
    and new: "workload_id_new_random (we_picks env) \<notin> fst ` set (workloads_of v vm)"
  shows "case r of
      Inl e \<Rightarrow> workloads_of v' = workloads_of v
    | Inr w \<Rightarrow> w = workload_new (we_picks env) (we_now env) vm spec \<and> ws_cmd spec \<noteq> [] \<and>
        vm_state_of vm v = Some Started \<and> sent \<noteq> [] \<and> last sent = start_request w \<and>
        workloads_of v' = (workloads_of v)(vm := workloads_of v vm @ [(wl_id w, w)])"
proof (cases "ws_cmd spec = [] \<or> (\<exists>e. start_check (we_mkdir env) vm v = Inl e)")
  case True
  then show ?thesis
  proof (cases "ws_cmd spec = []")
    case False
    with True obtain e where "start_check (we_mkdir env) vm v = Inl e" by auto
    with False assms(1) show ?thesis unfolding start_workload_def by auto
  qed (use assms(1) in \<open>auto simp: start_workload_def\<close>)
next
  case False
  then obtain x where check: "ws_cmd spec \<noteq> []" "start_check (we_mkdir env) vm v = Inr x"
    by (cases "start_check (we_mkdir env) vm v") auto
  define w where "w = workload_new (we_picks env) (we_now env) vm spec"
  obtain v1 s1 c where conn: "guest_conn (we_conn env) m1 vm v = (v1, s1, c)" by (metis prod_cases3)
  have t1: "workloads_of v1 = workloads_of v" using guest_conn_tables[OF conn] m(1) by auto
  have fresh: "wl_id w \<notin> fst ` set (workloads_of v vm)"
    using new by (simp add: w_def workload_new_def)
  show ?thesis
  proof (cases "(\<exists>e. c = Inl e) \<or> map_of (fm_vms v1) vm = None")
    case True
    then show ?thesis using assms(1) check t1
      by (auto simp: start_workload_def conn Let_def split: sum.splits option.splits)
  next
    case False
    then obtain h e where h: "c = Inr h" "map_of (fm_vms v1) vm = Some e" by (cases c) auto
    let ?v2 = "m2 (register_workload vm w v1)"
    have t2: "workloads_of ?v2 = (workloads_of v)(vm := workloads_of v vm @ [(wl_id w, w)])"
      using fresh by (simp add: m(2) workloads_of_register h(2) t1 update_fresh)
    have run: "(v', sent, r) = (case conn_send (we_open env) (start_request w) s1 of
        (sent', Inl e) \<Rightarrow> (unregister_workload vm (wl_id w) ?v2, sent', Inl e)
      | (sent', Inr _) \<Rightarrow> (?v2, sent', Inr w))"
      using assms(1) check h by (simp add: start_workload_def conn Let_def w_def[symmetric])
    show ?thesis
    proof (cases "we_open env")
      case True
      with run t2 check start_check_Inr[OF check(2)] show ?thesis
        by (simp add: conn_send_def w_def)
    next
      case False
      have "AList.delete (wl_id w) (workloads_of v vm @ [(wl_id w, w)]) = workloads_of v vm"
        using fresh by (simp add: delete_append delete_fresh)
      with False run t2 show ?thesis by (simp add: conn_send_def)
    qed
  qed
qed

section \<open>Waking returns\<close>

lemma wake_poll_None:
  "wake_poll vm deadline now v = None \<longleftrightarrow>
     (vm_state_of vm v = Some Suspending \<or> vm_state_of vm v = Some Restoring) \<and> now < deadline"
  by (auto simp: wake_poll_def split: option.splits vm_state.splits)


section \<open>The properties on a concrete VM\<close>

definition demo_inst :: vm_instance where
  "demo_inst = \<lparr>vi_vm_id = ''vm-a'', vi_state = Started, vi_work_dir = ''work/vm-a'',
     vi_socket_path = ''work/vm-a/vm-a.socket'', vi_kernel_path = ''assets/vmlinux.bin'',
     vi_initramfs_path = ''assets/initramfs.cpio.gz'', vi_boot_args = ''console=ttyS0'',
     vi_rootfs_path = ''assets/ubuntu-24.ext4'', vi_overlay_disk = ''work/vm-a/vm-a.overlay.ext4'',
     vi_block_device = None, vi_net = Some (vm_net_new ''tap-7-a'' 0x0A000002 0x0A000001 demo_net),
     vi_guest_cid = Some 3, vi_vsock_uds_path = ''work/vm-a/vm-a.vsock'', vi_snapshot = None,
     vi_serial_log = ''work/vm-a/vm-a.serial.log'', vi_error_log = ''work/vm-a/vm-a.stderr.log'',
     vi_created_at = 0, vi_vm_config = demo_config\<rparr>"

definition demo_spec :: workload_spec where
  "demo_spec = \<lparr>ws_cmd = [''true''], ws_env = [], ws_cwd = None\<rparr>"

text \<open>A VM that runs, an open connection to its guest, and one workload that has exited.\<close>

definition demo_exited :: workload where
  "demo_exited = workload_step (workload_new [] 5 ''vm-a'' demo_spec) (Finished 7 (Some 0) None)"

definition demo_running :: "unit vmm" where
  "demo_running = demo_vmm\<lparr>fm_heap := [(0, demo_inst)], fm_next_ref := 1,
     fm_vms := [(''vm-a'', (fc_entry_new 0 demo_inst)\<lparr>fe_fc := Some 42, fe_guest_conn := Some 9,
       fe_workloads := [(''wl-'', demo_exited)]\<rparr>)]\<rparr>"

definition demo_conn :: conn_env where
  "demo_conn = \<lparr>gc_closed = (\<lambda>_. False), gc_attempts = (\<lambda>_. Inr ()), gc_handle = 10,
     gc_list_open = True, gc_arm_open = True\<rparr>"

lemma demo_tables: "workloads_of demo_running = (\<lambda>vm. if vm = ''vm-a'' then [(''wl-'', demo_exited)] else [])"
  by (auto simp: demo_running_def workloads_of_def fun_eq_iff)

lemma demo_wl_id: "wl_id demo_exited = ''wl-''" "wl_vm_id demo_exited = ''vm-a''" "\<not> is_active demo_exited"
  by (simp_all add: demo_exited_def workload_new_def workload_id_new_random_def random_id_def mark_finished_def is_active_def)

lemma demo_tables_ok: "tables_ok (demo_running, {''wl-''})"
  by (auto simp: tables_ok_def demo_tables demo_wl_id split: if_splits)
    (simp add: demo_exited_def workload_step_wf workload_new_wf del: workload_step.simps)


lemma unknown_workload_stays_witness:
  "map_of (workloads_of (fst (handle_guest_event 9 ''vm-a'' ''logs'' (EvListResult
      [\<lparr>gw_id = ''wl-other'', gw_state = ''exited'', gw_exit_code = Some 1, gw_signal = None\<rparr>]) demo_running)) ''vm-a'') ''wl-''
   = Some demo_exited"
  by (rule unknown_workload_stays) (simp_all add: demo_tables)

lemma start_workload_outcome_witness:
  "\<exists>v' sent w. start_workload \<lparr>we_mkdir = Inr (), we_picks = [1], we_now = 8, we_conn = demo_conn, we_open = True\<rparr>
     (\<lambda>u. u) (\<lambda>u. u) ''vm-a'' demo_spec demo_running = (v', sent, Inr w) \<and> last sent = start_request w"
proof -
  let ?env = "\<lparr>we_mkdir = Inr (), we_picks = [1], we_now = 8, we_conn = demo_conn, we_open = True\<rparr>"
  let ?w = "workload_new [1] 8 ''vm-a'' demo_spec"
  have run: "\<exists>v' sent. start_workload ?env (\<lambda>u. u) (\<lambda>u. u) ''vm-a'' demo_spec demo_running = (v', sent, Inr ?w)"
    by (simp add: start_workload_def demo_spec_def start_check_def demo_running_def inst_def demo_inst_def
        guest_conn_def cached_conn_def demo_conn_def conn_send_def fc_entry_new_def Let_def)
  then obtain v' sent where r: "start_workload ?env (\<lambda>u. u) (\<lambda>u. u) ''vm-a'' demo_spec demo_running = (v', sent, Inr ?w)"
    by blast
  have "workload_id_new_random (we_picks ?env) \<notin> fst ` set (workloads_of demo_running ''vm-a'')"
    by (simp add: demo_tables workload_id_new_random_def random_id_def ID_CHARSET_def)
  from start_workload_outcome[OF r _ _ this] r show ?thesis by auto
qed


end
