(* ===== verification/Json.thy ===== *)
theory Json
  imports RustStd
begin

text \<open>
  The part of serde\_json's printer that hostd's and guestd's own texts go through: \<open>Value::to_string\<close>
  on the values the code builds with \<open>json!\<close>.  An object is printed with its keys in the order given
  here (serde\_json's default map is sorted by key, and the code's literals are given sorted).
\<close>

datatype json = JNull | JBool bool | JNum int | JStr string | JArr "json list" | JObj "(string \<times> json) list"

definition json_char :: "char \<Rightarrow> string" where
  "json_char c =
     (let n = (of_char c :: nat) in
      if c = CHR 0x22 then [CHR 0x5C, CHR 0x22]
      else if c = CHR 0x5C then [CHR 0x5C, CHR 0x5C]
      else if n = 8 then [CHR 0x5C, CHR ''b'']
      else if n = 9 then [CHR 0x5C, CHR ''t'']
      else if n = 10 then [CHR 0x5C, CHR ''n'']
      else if n = 12 then [CHR 0x5C, CHR ''f'']
      else if n = 13 then [CHR 0x5C, CHR ''r'']
      else if n < 32 then [CHR 0x5C, CHR ''u'', CHR ''0'', CHR ''0''] @ hex02_lower n
      else [c])"

definition json_string :: "string \<Rightarrow> string" where
  "json_string s = [CHR 0x22] @ concat (map json_char s) @ [CHR 0x22]"

definition show_json_int :: "int \<Rightarrow> string" where
  "show_json_int n = (if n < 0 then ''-'' @ dec (nat (- n)) else dec (nat n))"

fun json_text :: "json \<Rightarrow> string" where
  "json_text JNull = ''null''"
| "json_text (JBool b) = (if b then ''true'' else ''false'')"
| "json_text (JNum n) = show_json_int n"
| "json_text (JStr s) = json_string s"
| "json_text (JArr vs) = ''['' @ join_with '','' (map json_text vs) @ '']''"
| "json_text (JObj kvs) = ''{'' @ join_with '','' (map (\<lambda>(k, v). json_string k @ '':'' @ json_text v) kvs) @ ''}''"

text \<open>An \<open>Option\<close> is null or its value.\<close>

definition json_opt :: "('a \<Rightarrow> json) \<Rightarrow> 'a option \<Rightarrow> json" where
  "json_opt f x = (case x of None \<Rightarrow> JNull | Some y \<Rightarrow> f y)"

text \<open>A printed string has no raw quote, line break or other control character inside its quotes, so a
  printed value is one line.\<close>

lemma json_char_printable: "c \<in> set (json_char d) \<Longrightarrow> 32 \<le> (of_char c :: nat)"
proof -
  assume c: "c \<in> set (json_char d)"
  have "(of_char d :: nat) < 256" by simp
  then have "(of_char d :: nat) < 32 \<Longrightarrow> c \<in> set (hex02_lower (of_char d)) \<Longrightarrow> 32 \<le> (of_char c :: nat)"
    by (auto simp: hex02_lower_def of_hex_lower)
  with c show ?thesis by (auto simp: json_char_def Let_def split: if_splits)
qed

lemma json_string_one_line: "CHR 0x0A \<notin> set (json_string s)"
  using json_char_printable by (fastforce simp: json_string_def)

lemma join_with_set: "set (join_with sep xs) \<subseteq> set sep \<union> (\<Union>x \<in> set xs. set x)"
  by (induction sep xs rule: join_with.induct) auto

lemma json_text_one_line: "CHR 0x0A \<notin> set (json_text v)"
proof (induction v)
  case (JNum n)
  show ?case using dec_not_in[of "CHR 0x0A"] by (simp add: show_json_int_def is_digit_def)
next
  case (JArr vs)
  have "set (join_with '','' (map json_text vs)) \<subseteq> {CHR '',''} \<union> (\<Union>v \<in> set vs. set (json_text v))"
    using join_with_set[of "'',''" "map json_text vs"] by auto
  with JArr show ?case by auto
next
  case (JObj kvs)
  let ?f = "\<lambda>(k, v). json_string k @ '':'' @ json_text v"
  have "CHR 0x0A \<notin> set (?f kv)" if "kv \<in> set kvs" for kv
    using JObj[OF that] json_string_one_line by (cases kv) auto
  then have "CHR 0x0A \<notin> set (join_with '','' (map ?f kvs))"
    using join_with_set[of "'',''" "map ?f kvs"] by fastforce
  then show ?case by simp
qed (use json_string_one_line in auto)

end
