(* ===== verification/Setup.thy ===== *)
theory Setup
  imports VmmOps Json
begin

text \<open>
  Firecracker's API client (\<open>hostd/src/vmm/firecracker/api.rs\<close>) and the set-up of a machine
  (\<open>setup.rs\<close>).  The set-up is a sequence of calls on the outside (API requests, tools, files); the
  calls made so far are the state, and the answer to a call may depend on all of them.
\<close>

section \<open>The API client\<close>

definition MAX_HEADER_BYTES :: nat where
  "MAX_HEADER_BYTES = 8192"

definition crlf :: string where
  "crlf = [CHR 0x0D, CHR 0x0A]"

definition fc_request :: "string \<Rightarrow> string \<Rightarrow> json option \<Rightarrow> string" where
  "fc_request http_method path body =
     (let body_str = (case body of None \<Rightarrow> [] | Some b \<Rightarrow> json_text b)
      in http_method @ '' '' @ path @ '' HTTP/1.1'' @ crlf @ ''Host: localhost'' @ crlf @
         ''Content-Type: application/json'' @ crlf @ ''Content-Length: '' @ dec (length body_str) @ crlf @
         ''Connection: close'' @ crlf @ crlf @ body_str)"

text \<open>The headers are read byte by byte until the empty line or the end of the stream.\<close>

definition ends_with :: "string \<Rightarrow> string \<Rightarrow> bool" where
  "ends_with suffix s \<longleftrightarrow> length suffix \<le> length s \<and> drop (length s - length suffix) s = suffix"

fun read_headers :: "error option \<Rightarrow> string \<Rightarrow> string \<Rightarrow> (string \<times> string) result" where
  "read_headers eof buf [] = (case eof of None \<Rightarrow> Inr (buf, []) | Some e \<Rightarrow> Inl e)"
| "read_headers eof buf (b # rest) =
     (let buf' = buf @ [b]
      in if ends_with (crlf @ crlf) buf' then Inr (buf', rest)
         else if MAX_HEADER_BYTES < length buf' then Inl (Io ''FC API response headers too large'')
         else read_headers eof buf' rest)"

text \<open>\<open>split_whitespace\<close> on ASCII text.\<close>

fun words :: "string \<Rightarrow> string \<Rightarrow> string list" where
  "words acc [] = (if acc = [] then [] else [acc])"
| "words acc (c # s) =
     (if is_space c then (if acc = [] then words [] s else acc # words [] s) else words (acc @ [c]) s)"

definition status_code_of :: "string \<Rightarrow> nat" where
  "status_code_of header_str =
     (let status_line = (case str_lines header_str of [] \<Rightarrow> [] | l # _ \<Rightarrow> l);
          ws = words [] status_line
      in if 1 < length ws then (case parse_uint (2 ^ 16 - 1) (ws ! 1) of Inr n \<Rightarrow> n | Inl _ \<Rightarrow> 0) else 0)"

definition lower_char :: "char \<Rightarrow> char" where
  "lower_char c = (if 65 \<le> (of_char c :: nat) \<and> of_char c \<le> (90 :: nat) then char_of ((of_char c :: nat) + 32) else c)"

definition header_length :: "string \<Rightarrow> nat option" where
  "header_length line =
     Option.bind (strip_prefix ''content-length:'' (map lower_char line)) (\<lambda>rest.
       case parse_uint (2 ^ 64 - 1) (trim_str rest) of Inr n \<Rightarrow> Some n | Inl _ \<Rightarrow> None)"

definition content_length_of :: "string \<Rightarrow> nat" where
  "content_length_of header_str =
     (case List.map_filter header_length (str_lines header_str) of [] \<Rightarrow> 0 | n # _ \<Rightarrow> n)"

text \<open>\<open>fault_message\<close> is the field of that name in the body, when the body is JSON and has it.\<close>

definition fc_response ::
  "(string \<Rightarrow> string option) \<Rightarrow> string \<Rightarrow> string \<Rightarrow> error option \<Rightarrow> string \<Rightarrow> string result" where
  "fc_response fault_message http_method path eof inp =
     try_res (read_headers eof [] inp) (\<lambda>(header_buf, rest).
       let header_str = utf8_lossy header_buf;
           status_code = status_code_of header_str;
           content_length = content_length_of header_str
       in if length rest < content_length
          then Inl (case eof of None \<Rightarrow> Io ''early eof'' | Some e \<Rightarrow> e)
          else
            let body_str = utf8_lossy (take content_length rest)
            in if 200 \<le> status_code \<and> status_code < 300 then Inr body_str
               else let msg = (case fault_message body_str of
                                 Some m \<Rightarrow> m
                               | None \<Rightarrow> ''HTTP '' @ dec status_code @ '': '' @ body_str)
                    in Inl (Io (''FC API '' @ http_method @ '' '' @ path @ '': '' @ msg)))"

text \<open>\<open>wait_until_running\<close>: poll \<open>k\<close> gets the answer \<open>info k\<close> at \<open>clock k\<close>.\<close>

definition wait_until_running ::
  "(nat \<Rightarrow> string result) \<Rightarrow> (nat \<Rightarrow> instant) \<Rightarrow> instant \<Rightarrow> nat \<Rightarrow> (nat \<times> unit result) option" where
  "wait_until_running state clock began timeout_secs = poll_loop (\<lambda>k.
     case state k of
       Inl e \<Rightarrow> Some (Inl e)
     | Inr s \<Rightarrow>
         if s = ''Running'' then Some (Inr ())
         else if began + timeout_secs * 1000 < clock k
         then Some (Inl (error.Vmm (''VM did not reach Running state within '' @ dec timeout_secs @
                              ''s (last state: '' @ debug_str s @ '')'')))
         else None) 0"

section \<open>The calls of the set-up\<close>

datatype setup_call =
    ApiPut string json
  | CreateSparse string nat
  | Tool string "string list"
  | MkDirAll string
  | WriteFile string string
  | Symlink string string
  | RemoveDir string

type_synonym answers = "setup_call list \<Rightarrow> setup_call \<Rightarrow> unit result"
type_synonym 'a prep = "setup_call list \<Rightarrow> setup_call list \<times> 'a result"

definition do_call :: "answers \<Rightarrow> setup_call \<Rightarrow> unit prep" where
  "do_call ans c = (\<lambda>calls. (calls @ [c], ans calls c))"

definition setup_ok :: "unit prep" where
  "setup_ok = (\<lambda>calls. (calls, Inr ()))"

definition setup_fail :: "error \<Rightarrow> unit prep" where
  "setup_fail e = (\<lambda>calls. (calls, Inl e))"

text \<open>\<open>a.await?; b\<close>\<close>

definition setup_then :: "unit prep \<Rightarrow> unit prep \<Rightarrow> unit prep" where
  "setup_then a b = (\<lambda>calls. case a calls of (calls', Inl e) \<Rightarrow> (calls', Inl e) | (calls', Inr _) \<Rightarrow> b calls')"

definition setup_all :: "unit prep list \<Rightarrow> unit prep" where
  "setup_all steps = foldr setup_then steps setup_ok"

definition boot_args_of :: "vm_instance \<Rightarrow> string" where
  "boot_args_of i =
     (case vi_net i of
        Some net \<Rightarrow> vi_boot_args i @ '' ip='' @ ipv4_display (vn_guest_ip net) @ ''::'' @
                    ipv4_display (vn_gateway_ip net) @ '':'' @ ipv4_display (vm_netmask net) @ ''::eth0:off''
      | None \<Rightarrow> vi_boot_args i)"

definition put_boot_source :: "answers \<Rightarrow> vm_instance \<Rightarrow> unit prep" where
  "put_boot_source ans i = do_call ans (ApiPut ''/boot-source'' (JObj
     [(''boot_args'', JStr (boot_args_of i)), (''initrd_path'', JStr (vi_initramfs_path i)),
      (''kernel_image_path'', JStr (vi_kernel_path i))]))"

definition put_machine_config :: "answers \<Rightarrow> vm_instance \<Rightarrow> unit prep" where
  "put_machine_config ans i = do_call ans (ApiPut ''/machine-config'' (JObj
     [(''huge_pages'', JStr ''None''), (''mem_size_mib'', JNum (int (vc_memory_mb (vi_vm_config i)))),
      (''smt'', JBool False), (''track_dirty_pages'', JBool False),
      (''vcpu_count'', JNum (int (vc_cpus (vi_vm_config i))))]))"

definition drive_call :: "string \<Rightarrow> string \<Rightarrow> bool \<Rightarrow> setup_call" where
  "drive_call drive_id path is_root = ApiPut (''/drives/'' @ drive_id) (JObj
     [(''cache_type'', JStr ''Unsafe''), (''drive_id'', JStr drive_id), (''io_engine'', JStr ''Async''),
      (''is_read_only'', JBool is_root), (''is_root_device'', JBool is_root), (''path_on_host'', JStr path)])"

definition put_drive :: "answers \<Rightarrow> string \<Rightarrow> string \<Rightarrow> bool \<Rightarrow> unit prep" where
  "put_drive ans drive_id path is_root = do_call ans (drive_call drive_id path is_root)"

definition put_serial :: "answers \<Rightarrow> vm_instance \<Rightarrow> unit prep" where
  "put_serial ans i = do_call ans (ApiPut ''/serial'' (JObj [(''serial_out_path'', JStr (vi_serial_log i))]))"

definition put_vsock :: "answers \<Rightarrow> vm_instance \<Rightarrow> unit prep" where
  "put_vsock ans i =
     (case vi_guest_cid i of
        None \<Rightarrow> setup_fail (error.Vmm (''vm '' @ vi_vm_id i @ '' has no vsock guest CID''))
      | Some cid \<Rightarrow> do_call ans (ApiPut ''/vsock'' (JObj
          [(''guest_cid'', JNum (int (unat cid))), (''uds_path'', JStr (vi_vsock_uds_path i)),
           (''vsock_id'', JStr ''vsock0'')])))"

definition put_net_iface :: "answers \<Rightarrow> vm_instance \<Rightarrow> unit prep" where
  "put_net_iface ans i =
     (case vi_net i of
        None \<Rightarrow> setup_fail (Net (''vm '' @ vi_vm_id i @ '' has no network allocation''))
      | Some net \<Rightarrow> do_call ans (ApiPut ''/network-interfaces/eth0'' (JObj
          [(''guest_mac'', JStr (vn_guest_mac net)), (''host_dev_name'', JStr (vn_tap_name net)),
           (''iface_id'', JStr ''eth0'')])))"

definition create_overlay_disk :: "answers \<Rightarrow> string \<Rightarrow> nat \<Rightarrow> unit prep" where
  "create_overlay_disk ans path size_mb = setup_all
     [do_call ans (CreateSparse path (size_mb * 1024 * 1024)),
      do_call ans (Tool ''mkfs.ext4'' [''-F'', ''-q'', ''-m'', ''0'', path])]"

definition trim_slashes :: "string \<Rightarrow> string" where
  "trim_slashes s = rev (dropWhile (\<lambda>c. c = CHR ''/'') (rev (dropWhile (\<lambda>c. c = CHR ''/'') s)))"

definition escape_path_char :: "char \<Rightarrow> string" where
  "escape_path_char c =
     (if c = CHR ''/'' then ''-'' else if c = CHR ''-'' then [CHR 0x5C] @ ''x2d'' else [c])"

definition systemd_escape_path :: "string \<Rightarrow> string" where
  "systemd_escape_path path =
     (let out = concat (map escape_path_char (trim_slashes path))
      in case strip_prefix ''.'' out of Some rest \<Rightarrow> [CHR 0x5C] @ ''x2e'' @ rest | None \<Rightarrow> out)"

definition pg_hba_rule :: "ipv4net \<Rightarrow> string" where
  "pg_hba_rule subnet =
     ''# Seeded by hostd at VM creation: password auth only from the'' @ [CHR 0x0A] @
     ''# VM's project subnet (the host's bridge IP + sibling VMs).'' @ [CHR 0x0A] @
     ''host all all '' @ net_display subnet @ '' scram-sha-256'' @ [CHR 0x0A]"

definition mount_unit :: "string \<Rightarrow> string" where
  "mount_unit where_path = concat (map (\<lambda>line. line @ [CHR 0x0A])
     [''# Seeded by hostd at VM creation: mounts the VM's dedicated'',
      ''# block volume (the /dev/vdc drive, ext4-formatted by hostd).'',
      ''[Unit]'', ''Description=tikovm block storage volume'', ''Before=local-fs.target'', '''',
      ''[Mount]'', ''What=/dev/disk/by-label/tikovm-data'', ''Where='' @ where_path, ''Type=ext4'', '''',
      ''[Install]'', ''WantedBy=multi-user.target''])"

definition seed_pg_hba :: "answers \<Rightarrow> vm_instance \<Rightarrow> string \<Rightarrow> unit prep" where
  "seed_pg_hba ans i mnt =
     (case vi_net i of
        None \<Rightarrow> setup_fail (Net (''vm '' @ vi_vm_id i @ '' has no network allocation''))
      | Some net \<Rightarrow>
          let hba_dir = path_join mnt ''upper/etc/postgresql/16/main/pg_hba.d''
          in setup_all [do_call ans (MkDirAll hba_dir),
                        do_call ans (WriteFile (path_join hba_dir ''00-tikovm.conf'') (pg_hba_rule (vn_subnet net)))])"

definition seed_mount_unit :: "answers \<Rightarrow> string \<Rightarrow> string \<Rightarrow> unit prep" where
  "seed_mount_unit ans where_path mnt =
     (let unit_name = systemd_escape_path where_path @ ''.mount'';
          unit_dir = path_join mnt ''upper/etc/systemd/system'';
          wants = path_join unit_dir ''multi-user.target.wants''
      in setup_all
           [do_call ans (MkDirAll wants),
            do_call ans (WriteFile (path_join unit_dir unit_name) (mount_unit where_path)),
            do_call ans (Symlink (''../'' @ unit_name) (path_join wants unit_name))])"

definition seed_overlay_disk :: "answers \<Rightarrow> vm_instance \<Rightarrow> unit prep" where
  "seed_overlay_disk ans i =
     (let needs_pg_hba = (vc_image (vi_vm_config i) = ''postgres-16'');
          mount_path = Option.bind (vc_block_storage (vi_vm_config i))
            (\<lambda>bs. if bs_mount_path bs = [] then None else Some (bs_mount_path bs));
          mnt = path_join (vi_work_dir i) ''seed.mnt''
      in if \<not> needs_pg_hba \<and> mount_path = None then setup_ok
         else setup_then (do_call ans (MkDirAll mnt))
             (setup_then (do_call ans (Tool ''mount'' [''-o'', ''loop'', vi_overlay_disk i, mnt]))
               (\<lambda>calls.
                  case setup_then (if needs_pg_hba then seed_pg_hba ans i mnt else setup_ok)
                         (case mount_path of Some w \<Rightarrow> seed_mount_unit ans w mnt | None \<Rightarrow> setup_ok) calls of
                    (calls1, seed_result) \<Rightarrow>
                  case do_call ans (Tool ''umount'' [mnt]) calls1 of
                    (calls2, umount_result) \<Rightarrow>
                  case do_call ans (RemoveDir mnt) calls2 of
                    (calls3, _) \<Rightarrow>
                      (calls3, case seed_result of Inl e \<Rightarrow> Inl e | Inr _ \<Rightarrow> umount_result))))"

definition configure_vm :: "answers \<Rightarrow> vm_instance \<Rightarrow> unit prep" where
  "configure_vm ans i = setup_all
     [put_boot_source ans i, put_machine_config ans i, put_drive ans ''rootfs'' (vi_rootfs_path i) True,
      create_overlay_disk ans (vi_overlay_disk i) (vc_disk_size_mb (vi_vm_config i)),
      seed_overlay_disk ans i, put_drive ans ''overlay'' (vi_overlay_disk i) False,
      (case vi_block_device i of Some dev \<Rightarrow> put_drive ans ''data'' dev False | None \<Rightarrow> setup_ok),
      put_serial ans i, put_vsock ans i, put_net_iface ans i]"

section \<open>Finding the binary\<close>

definition from_path_or_env ::
  "(string \<Rightarrow> bool) \<Rightarrow> string option \<Rightarrow> string option \<Rightarrow> string \<Rightarrow> string" where
  "from_path_or_env is_file env_override path_var binary =
     (case env_override of
        Some p \<Rightarrow> p
      | None \<Rightarrow>
          (case path_var of
             None \<Rightarrow> binary
           | Some path \<Rightarrow>
               (case List.find is_file (map (\<lambda>dir. path_join dir binary) (split_char CHR '':'' path)) of
                  Some candidate \<Rightarrow> candidate
                | None \<Rightarrow> binary)))"

section \<open>Runs of the set-up\<close>

text \<open>\<open>answered ans calls new\<close>: the calls \<open>new\<close>, made after \<open>calls\<close>, were all answered without an error.\<close>

fun answered :: "answers \<Rightarrow> setup_call list \<Rightarrow> setup_call list \<Rightarrow> bool" where
  "answered ans calls [] \<longleftrightarrow> True"
| "answered ans calls (c # cs) \<longleftrightarrow> ans calls c = Inr () \<and> answered ans (calls @ [c]) cs"

lemma answered_append: "answered ans calls (xs @ ys) \<longleftrightarrow> answered ans calls xs \<and> answered ans (calls @ xs) ys"
  by (induction xs arbitrary: calls) auto

lemma setup_then_Inr:
  "setup_then a b calls = (calls', Inr ()) \<longleftrightarrow> (\<exists>mid. a calls = (mid, Inr ()) \<and> b mid = (calls', Inr ()))"
  by (auto simp: setup_then_def split: prod.splits sum.splits)

lemma do_call_Inr: "do_call ans c calls = (calls', Inr ()) \<longleftrightarrow> calls' = calls @ [c] \<and> answered ans calls [c]"
  by (auto simp: do_call_def)

lemma setup_ok_Inr: "setup_ok calls = (calls', Inr ()) \<longleftrightarrow> calls' = calls"
  by (auto simp: setup_ok_def)

lemma setup_fail_Inr [simp]: "setup_fail e calls = (calls', Inr ()) \<longleftrightarrow> False"
  by (simp add: setup_fail_def)

text \<open>Whatever a step of the seeding does, it makes calls, none of them a tool's, and stops at the first
  error; without an error all its calls were answered.\<close>

definition file_step :: "answers \<Rightarrow> unit prep \<Rightarrow> bool" where
  "file_step ans a \<longleftrightarrow> (\<forall>calls. \<exists>new r. a calls = (calls @ new, r) \<and> (\<forall>c \<in> set new. \<forall>t args. c \<noteq> Tool t args) \<and>
     (r = Inr () \<longrightarrow> answered ans calls new))"

lemma file_step_call: "(\<And>t args. c \<noteq> Tool t args) \<Longrightarrow> file_step ans (do_call ans c)"
  by (auto simp: file_step_def do_call_def)

lemma file_step_trivial: "file_step ans setup_ok" "file_step ans (setup_fail e)"
  by (auto simp: file_step_def setup_ok_def setup_fail_def)

lemma file_step_then:
  assumes "file_step ans a" "file_step ans b"
  shows "file_step ans (setup_then a b)"
  unfolding file_step_def
proof
  fix calls
  obtain n1 r1 where a: "a calls = (calls @ n1, r1)" "\<forall>c \<in> set n1. \<forall>t args. c \<noteq> Tool t args"
    "r1 = Inr () \<longrightarrow> answered ans calls n1" using assms(1) unfolding file_step_def by blast
  obtain n2 r2 where b: "b (calls @ n1) = ((calls @ n1) @ n2, r2)" "\<forall>c \<in> set n2. \<forall>t args. c \<noteq> Tool t args"
    "r2 = Inr () \<longrightarrow> answered ans (calls @ n1) n2" using assms(2) unfolding file_step_def by blast
  show "\<exists>new r. setup_then a b calls = (calls @ new, r) \<and> (\<forall>c \<in> set new. \<forall>t args. c \<noteq> Tool t args) \<and>
     (r = Inr () \<longrightarrow> answered ans calls new)"
  proof (cases r1)
    case (Inl e)
    then show ?thesis using a by (intro exI[of _ n1] exI[of _ r1]) (simp add: setup_then_def)
  next
    case (Inr u)
    then show ?thesis using a b by (intro exI[of _ "n1 @ n2"] exI[of _ r2]) (auto simp: setup_then_def answered_append)
  qed
qed

lemma seed_steps: "file_step ans (seed_pg_hba ans i mnt)" "file_step ans (seed_mount_unit ans w mnt)"
  by (auto simp: seed_pg_hba_def seed_mount_unit_def setup_all_def Let_def
      intro!: file_step_then file_step_call file_step_trivial split: option.split)

text \<open>The calls of a seeding whose mount succeeded.\<close>

definition seeded :: "vm_instance \<Rightarrow> setup_call list \<Rightarrow> setup_call list" where
  "seeded i files =
     (let mnt = path_join (vi_work_dir i) ''seed.mnt''
      in [MkDirAll mnt, Tool ''mount'' [''-o'', ''loop'', vi_overlay_disk i, mnt]] @ files @
         [Tool ''umount'' [mnt], RemoveDir mnt])"

definition seed_mount_calls :: "vm_instance \<Rightarrow> setup_call list" where
  "seed_mount_calls i =
     (let mnt = path_join (vi_work_dir i) ''seed.mnt''
      in [MkDirAll mnt, Tool ''mount'' [''-o'', ''loop'', vi_overlay_disk i, mnt]])"

lemma seed_outcome:
  assumes "seed_overlay_disk ans i calls = (calls', r)"
  shows "(calls' = calls \<and> r = Inr ()) \<or>
    (\<exists>n e. r = Inl e \<and> calls' = calls @ take n (seed_mount_calls i) \<and> \<not> answered ans calls (seed_mount_calls i)) \<or>
    (answered ans calls (seed_mount_calls i) \<and> (\<exists>files. calls' = calls @ seeded i files \<and>
       (\<forall>c \<in> set files. \<forall>t args. c \<noteq> Tool t args) \<and>
       (r = Inr () \<longrightarrow> answered ans calls (butlast (seeded i files)))))"
proof -
  define mnt where "mnt = path_join (vi_work_dir i) ''seed.mnt''"
  define hba where "hba = (vc_image (vi_vm_config i) = ''postgres-16'')"
  define mp where "mp = Option.bind (vc_block_storage (vi_vm_config i))
      (\<lambda>bs. if bs_mount_path bs = [] then None else Some (bs_mount_path bs))"
  define files where "files = setup_then (if hba then seed_pg_hba ans i mnt else setup_ok)
      (case mp of Some w \<Rightarrow> seed_mount_unit ans w mnt | None \<Rightarrow> setup_ok)"
  let ?mk = "MkDirAll mnt" and ?mo = "Tool ''mount'' [''-o'', ''loop'', vi_overlay_disk i, mnt]"
  have step: "file_step ans files"
    unfolding files_def by (rule file_step_then) (auto simp: seed_steps file_step_trivial split: option.split)
  have unfold: "seed_overlay_disk ans i calls = (if \<not> hba \<and> mp = None then setup_ok calls
      else setup_then (do_call ans ?mk) (setup_then (do_call ans ?mo) (\<lambda>calls.
        case files calls of (calls1, seed_result) \<Rightarrow>
        case do_call ans (Tool ''umount'' [mnt]) calls1 of (calls2, umount_result) \<Rightarrow>
        case do_call ans (RemoveDir mnt) calls2 of (calls3, _) \<Rightarrow>
          (calls3, case seed_result of Inl e \<Rightarrow> Inl e | Inr _ \<Rightarrow> umount_result))) calls)"
    unfolding seed_overlay_disk_def mnt_def hba_def mp_def files_def Let_def by simp
  show ?thesis
  proof (cases "\<not> hba \<and> mp = None")
    case True
    then show ?thesis using assms unfold by (simp add: setup_ok_def)
  next
    case False
    consider (mkdir) e where "ans calls ?mk = Inl e"
      | (mount) e where "ans calls ?mk = Inr ()" "ans (calls @ [?mk]) ?mo = Inl e"
      | (both) "ans calls ?mk = Inr ()" "ans (calls @ [?mk]) ?mo = Inr ()"
      by (cases "ans calls ?mk"; cases "ans (calls @ [?mk]) ?mo") auto
    then show ?thesis
    proof cases
      case mkdir
      then have "calls' = calls @ take 1 (seed_mount_calls i)" "r = Inl e"
        using assms False unfold mkdir by (auto simp: setup_then_def do_call_def seed_mount_calls_def mnt_def[symmetric] Let_def)
      then show ?thesis using mkdir by (auto simp: seed_mount_calls_def mnt_def[symmetric] Let_def intro!: exI[of _ 1])
    next
      case mount
      then have "calls' = calls @ take 2 (seed_mount_calls i)" "r = Inl e"
        using assms False unfold mount by (auto simp: setup_then_def do_call_def seed_mount_calls_def mnt_def[symmetric] Let_def)
      then show ?thesis using mount by (auto simp: seed_mount_calls_def mnt_def[symmetric] Let_def intro!: exI[of _ 2])
    next
      case both
      let ?c = "calls @ [?mk, ?mo]"
      obtain new r1 where f: "files ?c = (?c @ new, r1)" "\<forall>c \<in> set new. \<forall>t args. c \<noteq> Tool t args"
        "r1 = Inr () \<longrightarrow> answered ans ?c new" using step unfolding file_step_def by blast
      have "seed_overlay_disk ans i calls = (?c @ new @ [Tool ''umount'' [mnt], RemoveDir mnt],
          case r1 of Inl e \<Rightarrow> Inl e | Inr _ \<Rightarrow> ans (?c @ new) (Tool ''umount'' [mnt]))"
        unfolding unfold using False both f(1) by (cases r1) (auto simp: setup_then_def do_call_def)
      then have "(calls', r) = (?c @ new @ [Tool ''umount'' [mnt], RemoveDir mnt],
          case r1 of Inl e \<Rightarrow> Inl e | Inr _ \<Rightarrow> ans (?c @ new) (Tool ''umount'' [mnt]))"
        using assms by simp
      then have c': "calls' = calls @ seeded i new" and
        r: "r = (case r1 of Inl e \<Rightarrow> Inl e | Inr _ \<Rightarrow> ans (?c @ new) (Tool ''umount'' [mnt]))"
        by (simp_all add: seeded_def mnt_def[symmetric] Let_def)
      have "butlast (seeded i new) = [?mk, ?mo] @ new @ [Tool ''umount'' [mnt]]"
        by (simp add: seeded_def mnt_def[symmetric] Let_def butlast_append)
      then have "r = Inr () \<longrightarrow> answered ans calls (butlast (seeded i new))"
        using f(3) r both by (cases r1) (auto simp: answered_append)
      moreover have "answered ans calls (seed_mount_calls i)"
        using both by (simp add: seed_mount_calls_def mnt_def[symmetric] Let_def)
      ultimately show ?thesis using c' f(2) by blast
    qed
  qed
qed


text \<open>The calls of a successful configuration, in order; \<open>seed\<close> are those of the seeding.\<close>

definition configure_head :: "vm_instance \<Rightarrow> setup_call list" where
  "configure_head i =
     [ApiPut ''/boot-source'' (JObj [(''boot_args'', JStr (boot_args_of i)),
        (''initrd_path'', JStr (vi_initramfs_path i)), (''kernel_image_path'', JStr (vi_kernel_path i))]),
      ApiPut ''/machine-config'' (JObj [(''huge_pages'', JStr ''None''),
        (''mem_size_mib'', JNum (int (vc_memory_mb (vi_vm_config i)))), (''smt'', JBool False),
        (''track_dirty_pages'', JBool False), (''vcpu_count'', JNum (int (vc_cpus (vi_vm_config i))))]),
      drive_call ''rootfs'' (vi_rootfs_path i) True,
      CreateSparse (vi_overlay_disk i) (vc_disk_size_mb (vi_vm_config i) * 1024 * 1024),
      Tool ''mkfs.ext4'' [''-F'', ''-q'', ''-m'', ''0'', vi_overlay_disk i]]"

definition configure_tail :: "vm_instance \<Rightarrow> u32 \<Rightarrow> vm_net \<Rightarrow> setup_call list" where
  "configure_tail i cid net =
     [drive_call ''overlay'' (vi_overlay_disk i) False] @
     (case vi_block_device i of Some dev \<Rightarrow> [drive_call ''data'' dev False] | None \<Rightarrow> []) @
     [ApiPut ''/serial'' (JObj [(''serial_out_path'', JStr (vi_serial_log i))]),
      ApiPut ''/vsock'' (JObj [(''guest_cid'', JNum (int (unat cid))),
        (''uds_path'', JStr (vi_vsock_uds_path i)), (''vsock_id'', JStr ''vsock0'')]),
      ApiPut ''/network-interfaces/eth0'' (JObj [(''guest_mac'', JStr (vn_guest_mac net)),
        (''host_dev_name'', JStr (vn_tap_name net)), (''iface_id'', JStr ''eth0'')])]"

lemma put_vsock_Inr:
  "put_vsock ans i calls = (calls', Inr ()) \<longleftrightarrow> (\<exists>cid. vi_guest_cid i = Some cid \<and>
     do_call ans (ApiPut ''/vsock'' (JObj [(''guest_cid'', JNum (int (unat cid))),
       (''uds_path'', JStr (vi_vsock_uds_path i)), (''vsock_id'', JStr ''vsock0'')])) calls = (calls', Inr ()))"
  by (auto simp: put_vsock_def split: option.splits)

lemma put_net_iface_Inr:
  "put_net_iface ans i calls = (calls', Inr ()) \<longleftrightarrow> (\<exists>net. vi_net i = Some net \<and>
     do_call ans (ApiPut ''/network-interfaces/eth0'' (JObj [(''guest_mac'', JStr (vn_guest_mac net)),
       (''host_dev_name'', JStr (vn_tap_name net)), (''iface_id'', JStr ''eth0'')])) calls = (calls', Inr ()))"
  by (auto simp: put_net_iface_def split: option.splits)

lemma put_data_drive_Inr:
  "(case vi_block_device i of Some dev \<Rightarrow> put_drive ans ''data'' dev False | None \<Rightarrow> setup_ok) calls = (calls', Inr ())
   \<longleftrightarrow> (let new = (case vi_block_device i of Some dev \<Rightarrow> [drive_call ''data'' dev False] | None \<Rightarrow> [])
        in calls' = calls @ new \<and> answered ans calls new)"
  by (auto simp: put_drive_def do_call_Inr setup_ok_Inr split: option.split)

definition seed_calls :: "vm_instance \<Rightarrow> setup_call list \<Rightarrow> bool" where
  "seed_calls i seed \<longleftrightarrow> seed = [] \<or> (\<exists>files. seed = seeded i files \<and> (\<forall>c \<in> set files. \<forall>t args. c \<noteq> Tool t args))"

lemma seed_Inr:
  assumes "seed_overlay_disk ans i calls = (calls', Inr ())"
  obtains seed where "calls' = calls @ seed" "seed_calls i seed"
  using seed_outcome[OF assms] unfolding seed_calls_def by (elim disjE exE conjE) auto

text \<open>\<open>worked\<close>: as \<open>answered\<close>, the removal of the mount point aside, whose answer the code ignores.\<close>

fun worked :: "answers \<Rightarrow> setup_call list \<Rightarrow> setup_call list \<Rightarrow> bool" where
  "worked ans calls [] \<longleftrightarrow> True"
| "worked ans calls (c # cs) \<longleftrightarrow> ((\<exists>d. c = RemoveDir d) \<or> ans calls c = Inr ()) \<and> worked ans (calls @ [c]) cs"

lemma worked_append: "worked ans calls (xs @ ys) \<longleftrightarrow> worked ans calls xs \<and> worked ans (calls @ xs) ys"
  by (induction xs arbitrary: calls) auto

lemma answered_worked: "answered ans calls xs \<Longrightarrow> worked ans calls xs"
  by (induction xs arbitrary: calls) auto

lemma seeded_worked: "answered ans calls (butlast (seeded i files)) \<Longrightarrow> worked ans calls (seeded i files)"
proof -
  assume a: "answered ans calls (butlast (seeded i files))"
  let ?mnt = "path_join (vi_work_dir i) ''seed.mnt''"
  have "seeded i files = butlast (seeded i files) @ [RemoveDir ?mnt]"
    by (simp add: seeded_def Let_def butlast_append)
  then have "worked ans calls (seeded i files) \<longleftrightarrow> worked ans calls (butlast (seeded i files) @ [RemoveDir ?mnt])"
    by (rule arg_cong)
  with answered_worked[OF a] show ?thesis by (simp add: worked_append)
qed

lemma seed_worked:
  assumes "seed_overlay_disk ans i calls = (calls', Inr ())"
  obtains seed where "calls' = calls @ seed" "seed_calls i seed" "worked ans calls seed"
  using seed_outcome[OF assms] seeded_worked[of ans calls i] unfolding seed_calls_def
  by (elim disjE exE conjE) auto

definition configured :: "answers \<Rightarrow> vm_instance \<Rightarrow> setup_call list \<Rightarrow> setup_call list \<Rightarrow> bool" where
  "configured ans i calls calls' \<longleftrightarrow> (\<exists>cid net seed. vi_guest_cid i = Some cid \<and> vi_net i = Some net \<and>
     seed_calls i seed \<and> calls' = calls @ configure_head i @ seed @ configure_tail i cid net \<and>
     worked ans calls (configure_head i @ seed @ configure_tail i cid net))"

lemma setup_all_Inr:
  "setup_all [] calls = (calls', Inr ()) \<longleftrightarrow> calls' = calls"
  "setup_all (a # as) calls = (calls', Inr ()) \<longleftrightarrow>
     (\<exists>mid. a calls = (mid, Inr ()) \<and> setup_all as mid = (calls', Inr ()))"
  by (simp_all add: setup_all_def setup_ok_Inr setup_then_Inr)

text \<open>A successful configuration made exactly these calls, in this order, and each of them succeeded
  (the removal of the seeding's mount point aside): boot source, machine, root drive, overlay file and
  file system, seeding, overlay drive, data drive when the VM has a volume, serial, vsock and network
  interface; the VM had a guest CID and a network allocation.  So the overlay is formatted and
  seeded, and unmounted again, before it is attached.\<close>

theorem configure_vm_configured:
  assumes "configure_vm ans i calls = (calls', Inr ())"
  shows "configured ans i calls calls'"
proof -
  obtain mid where before: "setup_all [put_boot_source ans i, put_machine_config ans i,
      put_drive ans ''rootfs'' (vi_rootfs_path i) True,
      create_overlay_disk ans (vi_overlay_disk i) (vc_disk_size_mb (vi_vm_config i))] calls = (mid, Inr ())"
    and after: "setup_all [seed_overlay_disk ans i, put_drive ans ''overlay'' (vi_overlay_disk i) False,
      (case vi_block_device i of Some dev \<Rightarrow> put_drive ans ''data'' dev False | None \<Rightarrow> setup_ok),
      put_serial ans i, put_vsock ans i, put_net_iface ans i] mid = (calls', Inr ())"
    using assms unfolding configure_vm_def setup_all_Inr by blast
  obtain seeded_to where seed_run: "seed_overlay_disk ans i mid = (seeded_to, Inr ())"
    and rest: "setup_all [put_drive ans ''overlay'' (vi_overlay_disk i) False,
      (case vi_block_device i of Some dev \<Rightarrow> put_drive ans ''data'' dev False | None \<Rightarrow> setup_ok),
      put_serial ans i, put_vsock ans i, put_net_iface ans i] seeded_to = (calls', Inr ())"
    using after unfolding setup_all_Inr by blast
  obtain seed where seed: "seeded_to = mid @ seed" "seed_calls i seed" "worked ans mid seed"
    using seed_worked[OF seed_run] .
  have first: "mid = calls @ configure_head i" "worked ans calls (configure_head i)"
    using before
    by (auto simp: setup_all_Inr put_boot_source_def put_machine_config_def put_drive_def do_call_Inr
        create_overlay_disk_def configure_head_def)
  obtain cid net where "vi_guest_cid i = Some cid" "vi_net i = Some net"
    and last: "calls' = seeded_to @ configure_tail i cid net" "worked ans seeded_to (configure_tail i cid net)"
    using rest unfolding setup_all_Inr put_data_drive_Inr put_vsock_Inr put_net_iface_Inr
    by (auto simp: put_drive_def put_serial_def do_call_Inr configure_tail_def Let_def worked_append
        answered_worked)
  with first seed show ?thesis
    unfolding configured_def by (intro exI[of _ cid] exI[of _ net] exI[of _ seed]) (simp add: worked_append)
qed

section \<open>Names of mount units\<close>

lemma escape_path_char_prefix_free:
  assumes "c \<noteq> CHR 0x5C" "d \<noteq> CHR 0x5C" "escape_path_char c @ u = escape_path_char d @ v"
  shows "c = d \<and> u = v"
  using assms by (auto simp: escape_path_char_def split: if_splits)

lemma escape_path_injective:
  assumes "CHR 0x5C \<notin> set s" "CHR 0x5C \<notin> set t" "concat (map escape_path_char s) = concat (map escape_path_char t)"
  shows "s = t"
  using assms
proof (induction s arbitrary: t)
  case Nil
  then show ?case by (cases t) (auto simp: escape_path_char_def split: if_splits)
next
  case (Cons c s)
  show ?case
  proof (cases t)
    case Nil
    then show ?thesis using Cons.prems by (auto simp: escape_path_char_def split: if_splits)
  next
    case (Cons d t')
    then show ?thesis
      using Cons.IH[of t'] Cons.prems escape_path_char_prefix_free[of c d] by auto
  qed
qed

lemma escape_dot:
  assumes "CHR 0x5C \<notin> set s" "strip_prefix ''.'' (concat (map escape_path_char t)) = Some rest"
  shows "concat (map escape_path_char s) \<noteq> [CHR 0x5C] @ ''x2e'' @ rest"
  using assms(1) by (cases s) (auto simp: escape_path_char_def split: if_splits)

lemma set_trim_slashes: "set (trim_slashes s) \<subseteq> set s"
  unfolding trim_slashes_def by (auto dest!: set_dropWhileD)

text \<open>Two mount paths without a backslash get the same systemd unit name exactly when they are the
  same path up to leading and trailing slashes.\<close>

theorem unit_names_injective:
  assumes "CHR 0x5C \<notin> set p" "CHR 0x5C \<notin> set q"
  shows "systemd_escape_path p = systemd_escape_path q \<longleftrightarrow> trim_slashes p = trim_slashes q"
proof
  assume eq: "systemd_escape_path p = systemd_escape_path q"
  have p: "CHR 0x5C \<notin> set (trim_slashes p)" and q: "CHR 0x5C \<notin> set (trim_slashes q)"
    using assms set_trim_slashes by blast+
  have "concat (map escape_path_char (trim_slashes p)) = concat (map escape_path_char (trim_slashes q))"
    using eq escape_dot[OF p] escape_dot[OF q]
    by (auto simp: systemd_escape_path_def Let_def strip_prefix_Some split: option.splits dest!: sym[of "_ # _"])
  then show "trim_slashes p = trim_slashes q" using escape_path_injective[OF p q] by simp
qed (simp add: systemd_escape_path_def)

section \<open>The properties on a concrete VM\<close>

definition demo_seed_inst :: vm_instance where
  "demo_seed_inst = demo_inst\<lparr>vi_vm_config := demo_config\<lparr>vc_image := ''postgres-16''\<rparr>\<rparr>"

definition write_fails :: answers where
  "write_fails = (\<lambda>_ c. case c of WriteFile _ _ \<Rightarrow> Inl (Io ''no space left on device'') | _ \<Rightarrow> Inr ())"

lemma seed_write_fails:
  "seed_overlay_disk write_fails demo_seed_inst [] = (fst (seed_overlay_disk write_fails demo_seed_inst []), Inl (Io ''no space left on device''))"
  by (simp add: seed_overlay_disk_def demo_seed_inst_def Let_def setup_then_def do_call_def write_fails_def
      seed_pg_hba_def demo_inst_def demo_config_def setup_all_def vm_net_new_def)


lemma all_answered: "answered (\<lambda>_ _. Inr ()) calls new"
  by (induction new arbitrary: calls) auto

lemma configure_vm_configured_witness:
  "\<exists>calls'. configure_vm (\<lambda>_ _. Inr ()) demo_inst [] = (calls', Inr ()) \<and> configured (\<lambda>_ _. Inr ()) demo_inst [] calls'"
proof -
  have "configure_vm (\<lambda>_ _. Inr ()) demo_inst [] = (fst (configure_vm (\<lambda>_ _. Inr ()) demo_inst []), Inr ())"
    by (simp add: configure_vm_def setup_all_def setup_then_def do_call_def put_boot_source_def
        put_machine_config_def put_drive_def create_overlay_disk_def seed_overlay_disk_def Let_def
        setup_ok_def put_serial_def put_vsock_def put_net_iface_def demo_inst_def demo_config_def)
  then show ?thesis using configure_vm_configured by blast
qed

lemma unit_names_injective_witness:
  "systemd_escape_path ''/srv/a-b'' \<noteq> systemd_escape_path ''/srv/a/b'' \<and> systemd_escape_path ''/data'' = systemd_escape_path ''data/''"
  using unit_names_injective[of "''/srv/a-b''" "''/srv/a/b''"] unit_names_injective[of "''/data''" "''data/''"]
  by (simp add: trim_slashes_def)

end
