(* ===== verification/Background.thy ===== *)
theory Background
  imports VmmOps
begin

text \<open>
  The background tasks of the VMM: the auto-suspend detectors and their gate
  (\<open>hostd/src/vmm/firecracker/auto_suspend.rs\<close>) and the cron scheduler (\<open>schedule.rs\<close>).  Times are
  milliseconds.  The cron crate is a parameter: its parser, and the occurrences of a schedule.
\<close>

section \<open>The lifecycle calls as a whole\<close>

text \<open>\<open>snapshot_vm\<close> from its first step to its last, when no other task runs in between: \<open>outcome\<close> is
  Firecracker's answer to the pause and the snapshot request.\<close>

definition snapshot_vm :: "instant \<Rightarrow> unit result \<Rightarrow> vm_id \<Rightarrow> 'h vmm \<Rightarrow> 'h vmm \<times> unit result" where
  "snapshot_vm now outcome vm_id v =
     (case op_enter OpSnapshot vm_id v of
        (v1, Inl e) \<Rightarrow> (v1, Inl e)
      | (v1, Inr j) \<Rightarrow>
          (case outcome of
             Inl e \<Rightarrow> snapshot_failed e j v1
           | Inr _ \<Rightarrow>
               (case snapshot_stop now j v1 of
                  (v2, j') \<Rightarrow>
                    (case snapshot_finish j' v2 of
                       (v3, Inl e) \<Rightarrow> (v3, Inl e)
                     | (v3, Inr _) \<Rightarrow> (v3, Inr ())))))"

section \<open>Auto-suspend\<close>

definition HTTP_IDLE_POLL :: nat where
  "HTTP_IDLE_POLL = 10000"

definition entry_instance :: "vm_id \<Rightarrow> 'h vmm \<Rightarrow> (fc_entry \<times> vm_instance) option" where
  "entry_instance vm_id v =
     (case map_of (fm_vms v) vm_id of
        None \<Rightarrow> None
      | Some e \<Rightarrow> map_option (\<lambda>i. (e, i)) (inst v (fe_instance e)))"

definition http_idle_expired :: "instant \<Rightarrow> vm_id \<Rightarrow> 'h vmm \<Rightarrow> bool" where
  "http_idle_expired now vm_id v =
     (case entry_instance vm_id v of
        None \<Rightarrow> False
      | Some (e, i) \<Rightarrow>
          (case vc_auto_suspend (vi_vm_config i) of
             None \<Rightarrow> False
           | Some config \<Rightarrow>
               if exposed_ports (vc_network_config (vi_vm_config i)) = [] then False
               else
                 (let times = List.map_filter (\<lambda>t. t)
                        [last_activity (fm_activity v) vm_id, map_of (fm_wake_times v) vm_id]
                  in if times = [] then False
                     else asc_idle_timeout_secs config * 1000 \<le> now - Max (set times))))"

definition needs_arm :: "vm_id \<Rightarrow> 'h vmm \<Rightarrow> bool" where
  "needs_arm vm_id v =
     (case entry_instance vm_id v of
        None \<Rightarrow> False
      | Some (e, i) \<Rightarrow>
          (case vc_auto_suspend (vi_vm_config i) of
             None \<Rightarrow> False
           | Some c \<Rightarrow> asc_idle_check_cmd c \<noteq> []))"

definition arm_guest_detector :: "conn_env \<Rightarrow> ('h vmm \<Rightarrow> 'h vmm) \<Rightarrow> vm_id \<Rightarrow> 'h vmm \<Rightarrow> 'h vmm" where
  "arm_guest_detector env meanwhile vm_id v =
     (if needs_arm vm_id v then fst (guest_conn env meanwhile vm_id v) else v)"

definition auto_suspend_gate :: "instant \<Rightarrow> vm_id \<Rightarrow> 'h vmm \<Rightarrow> bool" where
  "auto_suspend_gate now vm_id v =
     (case entry_instance vm_id v of
        None \<Rightarrow> False
      | Some (e, i) \<Rightarrow>
          if list_ex (\<lambda>(_, w). is_active w) (fe_workloads e) then False
          else if vi_state i \<noteq> Started \<or> vc_mode (vi_vm_config i) \<noteq> Permanent then False
          else (case vc_auto_suspend (vi_vm_config i) of
                  None \<Rightarrow> False
                | Some config \<Rightarrow>
                    if 0 < in_flight (fm_activity v) vm_id then False
                    else (case map_of (fm_wake_times v) vm_id of
                            Some at \<Rightarrow> \<not> now - at < asc_idle_timeout_secs config * 1000
                          | None \<Rightarrow> True)))"

text \<open>The gate and the first step of the snapshot are two critical sections: \<open>meanwhile\<close> is what the
  other threads do between them.\<close>

definition maybe_auto_suspend ::
  "instant \<Rightarrow> unit result \<Rightarrow> ('h vmm \<Rightarrow> 'h vmm) \<Rightarrow> vm_id \<Rightarrow> 'h vmm \<Rightarrow> 'h vmm" where
  "maybe_auto_suspend now outcome meanwhile vm_id v =
     (if auto_suspend_gate now vm_id v then fst (snapshot_vm now outcome vm_id (meanwhile v)) else v)"

definition check_http_idle_vms ::
  "instant \<Rightarrow> (vm_id \<Rightarrow> unit result) \<Rightarrow> (vm_id \<Rightarrow> 'h vmm \<Rightarrow> 'h vmm) \<Rightarrow> 'h vmm \<Rightarrow> 'h vmm" where
  "check_http_idle_vms now outcome meanwhile v =
     foldl (\<lambda>v vm_id. if http_idle_expired now vm_id v
                      then maybe_auto_suspend now (outcome vm_id) (meanwhile vm_id) vm_id v else v)
       v (map fst (fm_vms v))"

section \<open>The cron scheduler\<close>

text \<open>\<open>split_whitespace().count()\<close>\<close>

fun count_words :: "bool \<Rightarrow> string \<Rightarrow> nat" where
  "count_words inside [] = 0"
| "count_words inside (c # s) =
     (if is_space c then count_words False s
      else (if inside then 0 else 1) + count_words True s)"

definition normalize_cron :: "string \<Rightarrow> string" where
  "normalize_cron expr =
     (let trimmed = trim_str expr in if count_words False trimmed = 5 then ''0 '' @ trimmed else trimmed)"

definition parse_cron_schedule :: "(string \<Rightarrow> string + 'c) \<Rightarrow> string \<Rightarrow> 'c result" where
  "parse_cron_schedule from_str expr =
     (case from_str (normalize_cron expr) of
        Inr s \<Rightarrow> Inr s
      | Inl e \<Rightarrow> Inl (error.Vmm (''invalid cron_schedule '' @ debug_str expr @ '': '' @ e)))"

text \<open>\<open>next_after s t\<close> is the first occurrence of \<open>s\<close> later than \<open>t\<close>.\<close>

definition cron_due ::
  "(string \<Rightarrow> string + 'c) \<Rightarrow> ('c \<Rightarrow> instant \<Rightarrow> instant option) \<Rightarrow> instant \<Rightarrow> instant \<Rightarrow> vm_instance \<Rightarrow> bool" where
  "cron_due from_str next_after last_tick now i =
     (if vc_mode (vi_vm_config i) \<noteq> ScheduleMode then False
      else case vc_cron_schedule (vi_vm_config i) of
        None \<Rightarrow> False
      | Some expr \<Rightarrow>
          (case parse_cron_schedule from_str expr of
             Inl _ \<Rightarrow> False
           | Inr s \<Rightarrow> (case next_after s last_tick of Some fire \<Rightarrow> fire \<le> now | None \<Rightarrow> False)))"

definition due_schedules ::
  "(string \<Rightarrow> string + 'c) \<Rightarrow> ('c \<Rightarrow> instant \<Rightarrow> instant option) \<Rightarrow> instant \<Rightarrow> instant \<Rightarrow> 'h vmm \<Rightarrow> vm_id list" where
  "due_schedules from_str next_after last_tick now v =
     map fst (filter (\<lambda>(vm_id, e). case inst v (fe_instance e) of
                        None \<Rightarrow> False | Some i \<Rightarrow> cron_due from_str next_after last_tick now i) (fm_vms v))"

text \<open>The run locks: a fire while the VM's lock is held is skipped.\<close>

definition spawn_scheduled_run :: "vm_id \<Rightarrow> 'h vmm \<Rightarrow> 'h vmm \<times> bool" where
  "spawn_scheduled_run vm_id v =
     (if map_of (fm_run_locks v) vm_id = Some True then (v, False)
      else (v\<lparr>fm_run_locks := AList.update vm_id True (fm_run_locks v)\<rparr>, True))"

definition scheduled_run_ended :: "vm_id \<Rightarrow> 'h vmm \<Rightarrow> 'h vmm" where
  "scheduled_run_ended vm_id v = v\<lparr>fm_run_locks := AList.map_entry vm_id (\<lambda>_. False) (fm_run_locks v)\<rparr>"

text \<open>One tick: the VMs whose cron fired, and of these the ones a run is launched for.\<close>

definition fire_due_schedules ::
  "(string \<Rightarrow> string + 'c) \<Rightarrow> ('c \<Rightarrow> instant \<Rightarrow> instant option) \<Rightarrow> instant \<Rightarrow> instant \<Rightarrow> 'h vmm \<Rightarrow> 'h vmm \<times> vm_id list" where
  "fire_due_schedules from_str next_after last_tick now v =
     foldl (\<lambda>(v, runs) vm_id. case spawn_scheduled_run vm_id v of
                (v', True) \<Rightarrow> (v', runs @ [vm_id]) | (v', False) \<Rightarrow> (v', runs))
       (v, []) (due_schedules from_str next_after last_tick now v)"

section \<open>A scheduled run\<close>

text \<open>The wait for a workload.  Poll \<open>k\<close> sees the VMM as \<open>obs k\<close>, \<open>clock k\<close> milliseconds after the wait
  began.  The result is the poll of the decision and what it is: the workload is over, it is gone
  (or its VM is), or the timeout was reached and the stop has to be sent.\<close>

datatype await_outcome = AwaitDone | AwaitError error | AwaitTimeout

definition await_poll ::
  "vm_id \<Rightarrow> workload_id \<Rightarrow> nat option \<Rightarrow> nat \<Rightarrow> 'h vmm \<Rightarrow> await_outcome option" where
  "await_poll vm_id wid timeout_secs elapsed v =
     (case get_workload vm_id wid v of
        Inl e \<Rightarrow> Some (AwaitError e)
      | Inr w \<Rightarrow>
          if \<not> is_active w then Some AwaitDone
          else (case timeout_secs of
                  None \<Rightarrow> None
                | Some t \<Rightarrow> if t * 1000 \<le> elapsed then Some AwaitTimeout else None))"

definition await_workload ::
  "vm_id \<Rightarrow> workload_id \<Rightarrow> nat option \<Rightarrow> (nat \<Rightarrow> 'h vmm) \<Rightarrow> (nat \<Rightarrow> nat) \<Rightarrow> (nat \<times> await_outcome) option" where
  "await_workload vm_id wid timeout_secs obs clock =
     poll_loop (\<lambda>k. await_poll vm_id wid timeout_secs (clock k) (obs k)) 0"

text \<open>The calls of a scheduled run on the VMM, each from start to end.\<close>

record 'h run_calls =
  rc_ensure_started :: "'h vmm \<Rightarrow> 'h vmm \<times> unit result"
  rc_start_vm :: "'h vmm \<Rightarrow> 'h vmm \<times> unit result"
  rc_start_workload :: "workload_spec \<Rightarrow> 'h vmm \<Rightarrow> 'h vmm \<times> workload result"
  rc_await_workload :: "workload_id \<Rightarrow> nat option \<Rightarrow> 'h vmm \<Rightarrow> 'h vmm \<times> unit result"
  rc_snapshot_vm :: "'h vmm \<Rightarrow> 'h vmm \<times> unit result"

definition run_wake :: "'h run_calls \<Rightarrow> vm_id \<Rightarrow> 'h vmm \<Rightarrow> 'h vmm \<times> unit result" where
  "run_wake calls vm_id v =
     (case vm_state_of vm_id v of
        Some Suspended \<Rightarrow> rc_ensure_started calls v
      | Some Created \<Rightarrow> rc_start_vm calls v
      | Some Started \<Rightarrow> (v, Inr ())
      | other \<Rightarrow> (v, Inl (error.Vmm (''vm '' @ vm_id @ '' is '' @ show_opt debug_vm_state other @
                                ''; cannot run scheduled cmd''))))"

definition run_scheduled_inner :: "'h run_calls \<Rightarrow> vm_id \<Rightarrow> 'h vmm \<Rightarrow> 'h vmm \<times> unit result" where
  "run_scheduled_inner calls vm_id v =
     (case run_wake calls vm_id v of
        (v1, Inl e) \<Rightarrow> (v1, Inl e)
      | (v1, Inr _) \<Rightarrow>
          (case entry_instance vm_id v1 of
             None \<Rightarrow> (v1, Inl (VmNotFound vm_id))
           | Some (e, i) \<Rightarrow>
               let c = vi_vm_config i
               in (case rc_start_workload calls \<lparr>ws_cmd = vc_cmd c, ws_env = vc_env c, ws_cwd = None\<rparr> v1 of
                     (v2, Inl e) \<Rightarrow> (v2, Inl e)
                   | (v2, Inr w) \<Rightarrow>
                       rc_await_workload calls (wl_id w) (vc_timeout_secs c)
                         (with_workload_mut vm_id (wl_id w) (\<lambda>w. w\<lparr>wl_origin := ScheduleOrigin\<rparr>) v2))))"

definition run_scheduled :: "'h run_calls \<Rightarrow> vm_id \<Rightarrow> 'h vmm \<Rightarrow> 'h vmm" where
  "run_scheduled calls vm_id v =
     (let v1 = fst (run_scheduled_inner calls vm_id v)
      in if vm_state_of vm_id v1 = Some Started then fst (rc_snapshot_vm calls v1) else v1)"

section \<open>Snapshots as a whole\<close>

lemma vm_state_of_entry: "vm_state_of vm v = map_option (\<lambda>(e, i). vi_state i) (entry_instance vm v)"
  by (auto simp: vm_state_of_def entry_instance_def option.map_comp comp_def split: option.split)

lemma entry_instance_Some:
  "entry_instance vm v = Some (e, i) \<longleftrightarrow> map_of (fm_vms v) vm = Some e \<and> inst v (fe_instance e) = Some i"
  by (auto simp: entry_instance_def split: option.split)

lemma fm_vms_set_inst [simp]: "fm_vms (set_inst r f v) = fm_vms v"
  by (simp add: set_inst_def)

lemma entry_instance_set_inst:
  "entry_instance vm v = Some (e, i) \<Longrightarrow> fe_instance e = r \<Longrightarrow>
     entry_instance vm (set_inst r f v) = Some (e, f i)"
  by (auto simp: entry_instance_Some inst_set_inst)

lemma entry_instance_set_entry:
  "entry_instance vm v = Some (e, i) \<Longrightarrow> fe_instance (f e) = fe_instance e \<Longrightarrow>
     entry_instance vm (set_entry vm f v) = Some (f e, i)"
  by (auto simp: entry_instance_Some) (simp add: set_entry_def map_simps)

lemma inst_transition_entry:
  assumes "entry_instance vm v = Some (e, i)" "can_transition_to (vi_state i) next"
  shows "\<exists>v'. inst_transition (fe_instance e) next v = (v', Inr ()) \<and>
    entry_instance vm v' = Some (e, i\<lparr>vi_state := next\<rparr>) \<and> fm_activity v' = fm_activity v"
  using assms entry_instance_set_inst[OF assms(1) refl, of "\<lambda>i. i\<lparr>vi_state := next\<rparr>"]
  by (auto simp: inst_transition_def entry_instance_Some transition_def set_inst_def)

lemma snapshot_vm_started:
  assumes "entry_instance vm v = Some (e, i)" "vi_state i = Started"
  shows "\<exists>v' e' i'. snapshot_vm now outcome vm v = (v', outcome) \<and> entry_instance vm v' = Some (e', i') \<and>
    fm_activity v' = fm_activity v \<and>
    (case outcome of
       Inl _ \<Rightarrow> vi_state i' = Started \<and> e' = e
     | Inr _ \<Rightarrow> vi_state i' = Suspended \<and> vi_snapshot i' \<noteq> None \<and> fe_fc e' = None)"
proof -
  let ?r = "fe_instance e"
  have "can_transition_to (vi_state i) Suspending" by (simp add: assms(2) can_transition_to.simps)
  from inst_transition_entry[OF assms(1) this] obtain v1 where
    v1: "inst_transition ?r Suspending v = (v1, Inr ())"
      "entry_instance vm v1 = Some (e, i\<lparr>vi_state := Suspending\<rparr>)" "fm_activity v1 = fm_activity v" by blast
  define j where "j = \<lparr>jb_vm = vm, jb_ref = ?r, jb_op = OpSnapshot, jb_snapshot = None, jb_stopped = False\<rparr>"
  have enter: "op_enter OpSnapshot vm v = (v1, Inr j)"
    using assms(1) by (simp add: op_enter_def entry_parts_def entry_instance_Some v1(1) j_def)
  show ?thesis
  proof (cases outcome)
    case (Inl err)
    have "can_transition_to (vi_state (i\<lparr>vi_state := Suspending\<rparr>)) Started" by (simp add: can_transition_to.simps)
    from inst_transition_entry[OF v1(2) this] Inl v1(3) show ?thesis
      by (auto simp: snapshot_vm_def enter snapshot_failed_def leave_def j_def)
  next
    case (Inr u)
    let ?i = "i\<lparr>vi_state := Suspending\<rparr>"
    let ?j = "j\<lparr>jb_snapshot := Some (new_snapshot now ?i), jb_stopped := True\<rparr>"
    let ?v2 = "set_entry vm (\<lambda>e. e\<lparr>fe_fc := None\<rparr>) v1"
    have stop: "snapshot_stop now j v1 = (?v2, ?j)"
      using v1(2) by (simp add: snapshot_stop_def j_def entry_instance_Some)
    have "entry_instance vm ?v2 = Some (e\<lparr>fe_fc := None\<rparr>, ?i)"
      by (rule entry_instance_set_entry[OF v1(2)]) simp
    then have e3: "entry_instance vm (set_inst ?r (\<lambda>i. i\<lparr>vi_snapshot := jb_snapshot ?j\<rparr>) ?v2) =
        Some (e\<lparr>fe_fc := None\<rparr>, ?i\<lparr>vi_snapshot := jb_snapshot ?j\<rparr>)"
      by (rule entry_instance_set_inst) simp
    have "can_transition_to (vi_state (?i\<lparr>vi_snapshot := jb_snapshot ?j\<rparr>)) Suspended"
      by (simp add: can_transition_to.simps)
    from inst_transition_entry[OF e3 this] obtain v4 where
      v4: "inst_transition ?r Suspended (set_inst ?r (\<lambda>i. i\<lparr>vi_snapshot := jb_snapshot ?j\<rparr>) ?v2) = (v4, Inr ())"
        "entry_instance vm v4 = Some (e\<lparr>fe_fc := None\<rparr>, ?i\<lparr>vi_snapshot := jb_snapshot ?j, vi_state := Suspended\<rparr>)"
        "fm_activity v4 = fm_activity v1"
      by (auto simp: set_inst_def set_entry_def)
    have "snapshot_finish ?j ?v2 = (v4, Inr (jb_snapshot ?j))"
      using v4(1) by (simp add: snapshot_finish_def j_def)
    then have "snapshot_vm now outcome vm v = (v4, Inr ())"
      by (simp add: snapshot_vm_def enter Inr stop)
    then show ?thesis using v4(2,3) v1(3) Inr by auto
  qed
qed

section \<open>What auto-suspend may do\<close>

lemma auto_suspend_gateE:
  assumes "auto_suspend_gate now vm v"
  obtains e i c where "entry_instance vm v = Some (e, i)" "vi_state i = Started"
    "vc_mode (vi_vm_config i) = Permanent" "vc_auto_suspend (vi_vm_config i) = Some c"
    "in_flight (fm_activity v) vm = 0" "\<not> list_ex (\<lambda>(_, w). is_active w) (fe_workloads e)"
    "\<forall>at. map_of (fm_wake_times v) vm = Some at \<longrightarrow> asc_idle_timeout_secs c * 1000 \<le> now - at"
proof -
  obtain e i where e: "entry_instance vm v = Some (e, i)"
    using assms by (cases "entry_instance vm v") (auto simp: auto_suspend_gate_def)
  obtain c where c: "vc_auto_suspend (vi_vm_config i) = Some c"
    using assms by (cases "vc_auto_suspend (vi_vm_config i)") (auto simp: auto_suspend_gate_def e split: if_splits)
  show thesis
  proof (rule that[OF e _ _ c])
    show "vi_state i = Started" "vc_mode (vi_vm_config i) = Permanent" "in_flight (fm_activity v) vm = 0"
      "\<not> list_ex (\<lambda>(_, w). is_active w) (fe_workloads e)"
      using assms by (simp_all add: auto_suspend_gate_def e c split: if_splits)
    show "\<forall>at. map_of (fm_wake_times v) vm = Some at \<longrightarrow> asc_idle_timeout_secs c * 1000 \<le> now - at"
      using assms by (cases "map_of (fm_wake_times v) vm")
        (simp_all add: auto_suspend_gate_def e c not_less split: if_splits)
  qed
qed


text \<open>C32: The gate does not hold its answer: when a proxied request begins between the gate and the first
  step of the snapshot, the VM is suspended with that request in flight.\<close>

theorem gate_race:
  assumes "auto_suspend_gate now vm v"
    and "meanwhile = (\<lambda>u. u\<lparr>fm_activity := track now vm (fm_activity u)\<rparr>)"
  shows "in_flight (fm_activity (maybe_auto_suspend now (Inr ()) meanwhile vm v)) vm = 1 \<and>
    vm_state_of vm (maybe_auto_suspend now (Inr ()) meanwhile vm v) = Some Suspended"
proof -
  obtain e i where g: "entry_instance vm v = Some (e, i)" "vi_state i = Started" "in_flight (fm_activity v) vm = 0"
    by (rule auto_suspend_gateE[OF assms(1)])
  have "entry_instance vm (meanwhile v) = Some (e, i)"
    using g(1) by (simp add: assms(2) entry_instance_Some inst_def)
  from snapshot_vm_started[OF this g(2), of now "Inr ()"] obtain v' e' i' where
    s: "snapshot_vm now (Inr ()) vm (meanwhile v) = (v', Inr ())" "entry_instance vm v' = Some (e', i')"
      "vi_state i' = Suspended" "fm_activity v' = fm_activity (meanwhile v)" by auto
  have "in_flight (track now vm (fm_activity v)) vm = 1"
    using g(3) by (auto simp: in_flight_def track_def activity_default_def Let_def map_simps split: option.splits)
  then show ?thesis using s assms by (simp add: maybe_auto_suspend_def vm_state_of_entry)
qed

section \<open>The scheduler sees every occurrence once\<close>

text \<open>What \<open>Schedule::after(t).next()\<close> is documented to return, for the occurrences \<open>occ\<close> of a schedule.\<close>

definition next_law :: "instant set \<Rightarrow> (instant \<Rightarrow> instant option) \<Rightarrow> bool" where
  "next_law occ f \<longleftrightarrow> (\<forall>t. case f t of
       None \<Rightarrow> \<forall>x \<in> occ. x \<le> t
     | Some x \<Rightarrow> x \<in> occ \<and> t < x \<and> (\<forall>y \<in> occ. t < y \<longrightarrow> x \<le> y))"

lemma next_law_due:
  assumes "next_law occ f"
  shows "(case f t of Some x \<Rightarrow> x \<le> now | None \<Rightarrow> False) \<longleftrightarrow> (\<exists>x \<in> occ. t < x \<and> x \<le> now)"
proof -
  have "case f t of None \<Rightarrow> \<forall>x \<in> occ. x \<le> t
     | Some x \<Rightarrow> x \<in> occ \<and> t < x \<and> (\<forall>y \<in> occ. t < y \<longrightarrow> x \<le> y)"
    using assms by (simp add: next_law_def)
  then show ?thesis by (cases "f t") (auto simp: not_less[symmetric] dest: le_trans)
qed

lemma window_unique:
  fixes tick :: "nat \<Rightarrow> nat"
  assumes "mono tick" "tick 0 < x" "x \<le> tick n"
  shows "\<exists>!k. k < n \<and> tick k < x \<and> x \<le> tick (k + 1)"
proof -
  define k where "k = (LEAST k. x \<le> tick k)"
  have le: "x \<le> tick k" "k \<le> n" unfolding k_def using LeastI[of "\<lambda>k. x \<le> tick k" n] Least_le[of "\<lambda>k. x \<le> tick k" n] assms(3) by simp_all
  have "k \<noteq> 0" using le(1) assms(2) by (metis not_less)
  then obtain m where m: "k = m + 1" by (metis Suc_eq_plus1 not0_implies_Suc)
  have lt: "tick m < x" using not_less_Least[of m "\<lambda>k. x \<le> tick k"] m by (simp add: k_def)
  have uniq: "j = m" if "tick j < x" "x \<le> tick (j + 1)" for j
  proof (rule ccontr)
    assume "j \<noteq> m"
    then consider "j + 1 \<le> m" | "m + 1 \<le> j" by linarith
    then show False
    proof cases
      case 1
      with monoD[OF assms(1) this] that(2) lt show False by linarith
    next
      case 2
      with monoD[OF assms(1) this] that(1) le(1) m show False by simp
    qed
  qed
  show ?thesis
  proof (rule ex1I[of _ m])
    show "m < n \<and> tick m < x \<and> x \<le> tick (m + 1)" using lt le m by simp
    show "j = m" if "j < n \<and> tick j < x \<and> x \<le> tick (j + 1)" for j using uniq that by blast
  qed
qed

text \<open>At every tick the scheduler picks exactly the schedule VMs whose cron has an occurrence since the
  tick before; and as the ticks go on, each occurrence falls into exactly one of these windows, so
  no fire is lost and none is seen twice, however late the ticks come.\<close>

theorem cron_fires_once:
  fixes tick :: "nat \<Rightarrow> instant"
  assumes "next_law occ (next_after s)" "parse_cron_schedule from_str expr = Inr s"
    and "vc_mode (vi_vm_config i) = ScheduleMode" "vc_cron_schedule (vi_vm_config i) = Some expr"
    and "mono tick"
  shows "(\<forall>k. cron_due from_str next_after (tick k) (tick (k + 1)) i \<longleftrightarrow>
       (\<exists>x \<in> occ. tick k < x \<and> x \<le> tick (k + 1))) \<and>
    (\<forall>x \<in> occ. \<forall>n. tick 0 < x \<and> x \<le> tick n \<longrightarrow> (\<exists>!k. k < n \<and> tick k < x \<and> x \<le> tick (k + 1)))"
proof
  show "\<forall>k. cron_due from_str next_after (tick k) (tick (k + 1)) i \<longleftrightarrow>
       (\<exists>x \<in> occ. tick k < x \<and> x \<le> tick (k + 1))"
    unfolding next_law_due[OF assms(1), symmetric] using assms(2-4)
    by (simp add: cron_due_def split: option.split)
  show "\<forall>x \<in> occ. \<forall>n. tick 0 < x \<and> x \<le> tick n \<longrightarrow> (\<exists>!k. k < n \<and> tick k < x \<and> x \<le> tick (k + 1))"
    using window_unique[OF assms(5)] by blast
qed

text \<open>A tick launches at most one run per VM, and none for a VM whose run is in progress.\<close>

lemma fire_fold:
  "foldl (\<lambda>(v, runs) vm_id. case spawn_scheduled_run vm_id v of
       (v', True) \<Rightarrow> (v', runs @ [vm_id]) | (v', False) \<Rightarrow> (v', runs)) (v, runs) due = (v', runs') \<Longrightarrow>
   (\<forall>vm \<in> set runs. map_of (fm_run_locks v) vm = Some True) \<Longrightarrow> distinct runs \<Longrightarrow>
   distinct runs' \<and> (\<forall>vm \<in> set runs'. map_of (fm_run_locks v') vm = Some True) \<and>
   (\<forall>vm \<in> set runs' - set runs. map_of (fm_run_locks v) vm \<noteq> Some True \<and> vm \<in> set due)"
proof (induction due arbitrary: v runs)
  case Nil
  then show ?case by simp
next
  case (Cons vm due)
  show ?case
  proof (cases "map_of (fm_run_locks v) vm = Some True")
    case True
    then show ?thesis using Cons.IH[of v runs] Cons.prems by (auto simp: spawn_scheduled_run_def)
  next
    case False
    let ?v = "v\<lparr>fm_run_locks := AList.update vm True (fm_run_locks v)\<rparr>"
    have new: "vm \<notin> set runs" using Cons.prems(2) False by blast
    have locks: "\<forall>u \<in> set (runs @ [vm]). map_of (fm_run_locks ?v) u = Some True"
      using Cons.prems(2) by (auto simp: map_simps)
    have "distinct runs' \<and> (\<forall>vm \<in> set runs'. map_of (fm_run_locks v') vm = Some True) \<and>
       (\<forall>u \<in> set runs' - set (runs @ [vm]). map_of (fm_run_locks ?v) u \<noteq> Some True \<and> u \<in> set due)"
      using Cons.prems(1,3) new False by (intro Cons.IH[OF _ locks]) (simp_all add: spawn_scheduled_run_def)
    then show ?thesis using False by (auto simp: map_simps split: if_splits)
  qed
qed

text \<open>One tick launches at most one run for a VM, only for a VM that is due and has no run in
  progress, and leaves the lock of every launched run held, so that runs of one VM never overlap.\<close>

theorem scheduled_runs_exclusive:
  assumes "fire_due_schedules from_str next_after last_tick now v = (v', runs)"
  shows "distinct runs \<and>
    (\<forall>vm \<in> set runs. vm \<in> set (due_schedules from_str next_after last_tick now v) \<and>
       map_of (fm_run_locks v) vm \<noteq> Some True \<and> map_of (fm_run_locks v') vm = Some True)"
  using fire_fold[OF assms[unfolded fire_due_schedules_def]] by auto

section \<open>A scheduled run ends\<close>

text \<open>However a scheduled run goes (its wake-up, its workload or its wait may fail at any point), it
  leaves the VM suspended, with a snapshot and no process, if its last snapshot works and the VM was
  still running; a VM in any other state is left as the run's calls left it.\<close>

theorem scheduled_run_suspends:
  assumes "rc_snapshot_vm calls = snapshot_vm now (Inr ()) vm"
    and "v1 = fst (run_scheduled_inner calls vm v)"
  shows "(if vm_state_of vm v1 = Some Started
    then \<exists>e i. entry_instance vm (run_scheduled calls vm v) = Some (e, i) \<and>
           vi_state i = Suspended \<and> vi_snapshot i \<noteq> None \<and> fe_fc e = None
    else run_scheduled calls vm v = v1)"
proof (cases "vm_state_of vm v1 = Some Started")
  case True
  then obtain e i where "entry_instance vm v1 = Some (e, i)" "vi_state i = Started"
    by (auto simp: vm_state_of_entry)
  from snapshot_vm_started[OF this, of now "Inr ()"] True show ?thesis
    by (auto simp: run_scheduled_def assms)
next
  case False
  then show ?thesis by (simp add: run_scheduled_def assms(2))
qed

text \<open>With polls at least two seconds apart, a scheduled run with a timeout decides after at most
  \<open>(timeout + 1) div 2\<close> sleeps, whatever the guest reports; a run without a timeout waits forever
  exactly when its workload is active at every poll.\<close>

theorem await_workload_ends:
  assumes "\<And>k. 2000 * k \<le> clock k"
  shows "case timeout of
      Some t \<Rightarrow> \<exists>k out. await_workload vm wid timeout obs clock = Some (k, out) \<and> k \<le> (t + 1) div 2 \<and>
        (out = AwaitDone \<longrightarrow> (\<exists>w. get_workload vm wid (obs k) = Inr w \<and> \<not> is_active w)) \<and>
        (out = AwaitTimeout \<longrightarrow> t * 1000 \<le> clock k)
    | None \<Rightarrow> await_workload vm wid timeout obs clock = None \<longleftrightarrow>
        (\<forall>k. \<exists>w. get_workload vm wid (obs k) = Inr w \<and> is_active w)"
proof -
  let ?poll = "\<lambda>k. await_poll vm wid timeout (clock k) (obs k)"
  show ?thesis
  proof (cases timeout)
    case None
    have "?poll k = None \<longleftrightarrow> (\<exists>w. get_workload vm wid (obs k) = Inr w \<and> is_active w)" for k
      by (auto simp: await_poll_def None split: sum.splits)
    then show ?thesis using poll_loop_None[of ?poll] by (simp add: None await_workload_def)
  next
    case (Some t)
    have "t * 1000 \<le> clock ((t + 1) div 2)"
      using assms[of "(t + 1) div 2"] by linarith
    then have "?poll ((t + 1) div 2) \<noteq> None" by (auto simp: await_poll_def Some split: sum.splits)
    from poll_loop_decides[where probe = ?poll, OF this] obtain k r where
      r: "await_workload vm wid timeout obs clock = Some (k, r)" "k \<le> (t + 1) div 2" "?poll k = Some r"
      unfolding await_workload_def by blast
    have "(r = AwaitDone \<longrightarrow> (\<exists>w. get_workload vm wid (obs k) = Inr w \<and> \<not> is_active w)) \<and>
        (r = AwaitTimeout \<longrightarrow> t * 1000 \<le> clock k)"
      using r(3) by (auto simp: await_poll_def Some split: sum.splits if_splits)
    with r(1,2) show ?thesis unfolding Some option.case by blast
  qed
qed

section \<open>The properties on a concrete VM\<close>

definition demo_idle_inst :: vm_instance where
  "demo_idle_inst = demo_inst\<lparr>vi_vm_config := demo_config\<lparr>vc_auto_suspend :=
     Some \<lparr>asc_idle_timeout_secs = 60, asc_idle_check_cmd = [], asc_check_interval_secs = 30\<rparr>\<rparr>\<rparr>"

definition demo_idle :: "unit vmm" where
  "demo_idle = demo_running\<lparr>fm_heap := [(0, demo_idle_inst)]\<rparr>"

definition demo_cron_inst :: vm_instance where
  "demo_cron_inst = demo_inst\<lparr>vi_vm_config := demo_config\<lparr>vc_mode := ScheduleMode,
     vc_cron_schedule := Some ''0 * * * *''\<rparr>\<rparr>"

definition demo_cron :: "unit vmm" where
  "demo_cron = demo_running\<lparr>fm_heap := [(0, demo_cron_inst)]\<rparr>"

text \<open>A schedule that fires at every multiple of its period.\<close>

definition every :: "nat \<Rightarrow> instant \<Rightarrow> instant option" where
  "every p t = Some ((t div p + 1) * p)"

lemma every_law: "0 < p \<Longrightarrow> next_law {x. p dvd x} (every p)"
proof -
  assume p: "0 < p"
  have "t < (t div p + 1) * p" for t using p by (metis add.commute dividend_less_times_div mult.commute mult_Suc_right Suc_eq_plus1)
  moreover have "(t div p + 1) * p \<le> y" if "p dvd y" "t < y" for t y
  proof -
    obtain k where k: "y = k * p" using \<open>p dvd y\<close> by (metis dvd_div_mult_self)
    then have "t div p < k" using that(2) p by (simp add: less_mult_imp_div_less)
    then show ?thesis using k by (metis Suc_eq_plus1 Suc_leI mult_le_mono1)
  qed
  ultimately show ?thesis by (simp add: next_law_def every_def)
qed

lemma demo_idle_entry: "\<exists>e. entry_instance ''vm-a'' demo_idle = Some (e, demo_idle_inst) \<and>
    fe_workloads e = [(''wl-'', demo_exited)]"
  by (simp add: entry_instance_def demo_idle_def demo_running_def inst_def fc_entry_new_def)

lemma demo_idle_gate: "auto_suspend_gate 99 ''vm-a'' demo_idle"
  using demo_idle_entry demo_wl_id(3)
  by (auto simp: auto_suspend_gate_def demo_idle_inst_def demo_inst_def demo_config_def demo_idle_def
      demo_running_def demo_vmm_def in_flight_def)


lemma gate_race_witness:
  "vm_state_of ''vm-a'' (maybe_auto_suspend 99 (Inr ())
     (\<lambda>u. u\<lparr>fm_activity := track 99 ''vm-a'' (fm_activity u)\<rparr>) ''vm-a'' demo_idle) = Some Suspended"
  using gate_race[OF demo_idle_gate refl] by blast

lemma demo_cron_parse: "parse_cron_schedule (\<lambda>_. Inr (3600000 :: nat)) ''0 * * * *'' = Inr 3600000"
  by (simp add: parse_cron_schedule_def)

lemma cron_fires_once_witness:
  "cron_due (\<lambda>_. Inr (3600000 :: nat)) every 3598000 3603000 demo_cron_inst \<and>
   \<not> cron_due (\<lambda>_. Inr (3600000 :: nat)) every 3603000 3608000 demo_cron_inst"
proof -
  let ?tick = "\<lambda>k. 3598000 + 5000 * k :: nat"
  have "mono ?tick" by (auto simp: mono_def)
  from cron_fires_once[where i = demo_cron_inst, OF every_law demo_cron_parse _ _ this]
  have *: "\<And>k. cron_due (\<lambda>_. Inr (3600000 :: nat)) every (?tick k) (?tick (k + 1)) demo_cron_inst \<longleftrightarrow>
      (\<exists>x \<in> {x. 3600000 dvd x}. ?tick k < x \<and> x \<le> ?tick (k + 1))"
    by (simp add: demo_cron_inst_def)
  have "\<exists>x \<in> {x. 3600000 dvd x}. 3598000 < x \<and> x \<le> (3603000 :: nat)" by (rule bexI[of _ 3600000]) simp_all
  moreover have "\<not> (\<exists>x \<in> {x. 3600000 dvd x}. 3603000 < x \<and> x \<le> (3608000 :: nat))"
  proof (clarsimp simp: dvd_def)
    fix k :: nat assume "1201 < 1200 * k" "450 * k \<le> 451"
    then have "1 < k" "k < 2" by linarith+
    then show False by simp
  qed
  ultimately show ?thesis using *[of 0] *[of 1] by simp
qed

lemma demo_cron_due:
  "due_schedules (\<lambda>_. Inr (3600000 :: nat)) every 3598000 3603000 demo_cron = [''vm-a'']"
  by (simp add: due_schedules_def demo_cron_def demo_running_def inst_def fc_entry_new_def cron_due_def
      demo_cron_inst_def parse_cron_schedule_def every_def)

lemma scheduled_runs_exclusive_witness:
  "\<exists>v'. fire_due_schedules (\<lambda>_. Inr (3600000 :: nat)) every 3598000 3603000 demo_cron = (v', [''vm-a'']) \<and>
     map_of (fm_run_locks v') ''vm-a'' = Some True"
proof -
  have "\<exists>v'. fire_due_schedules (\<lambda>_. Inr (3600000 :: nat)) every 3598000 3603000 demo_cron = (v', [''vm-a''])"
    unfolding fire_due_schedules_def demo_cron_due
    by (simp add: spawn_scheduled_run_def demo_cron_def demo_running_def demo_vmm_def)
  then obtain v' where v: "fire_due_schedules (\<lambda>_. Inr (3600000 :: nat)) every 3598000 3603000 demo_cron = (v', [''vm-a''])"
    by blast
  from scheduled_runs_exclusive[OF v] v show ?thesis by auto
qed

definition demo_calls :: "unit run_calls" where
  "demo_calls = \<lparr>rc_ensure_started = (\<lambda>v. (v, Inr ())), rc_start_vm = (\<lambda>v. (v, Inr ())),
     rc_start_workload = (\<lambda>spec v. (v, Inl (error.Vmm ''guest connection is closed''))),
     rc_await_workload = (\<lambda>wid t v. (v, Inr ())), rc_snapshot_vm = snapshot_vm 99 (Inr ()) ''vm-a''\<rparr>"

lemma scheduled_run_suspends_witness:
  "\<exists>e i. entry_instance ''vm-a'' (run_scheduled demo_calls ''vm-a'' demo_cron) = Some (e, i) \<and> vi_state i = Suspended"
proof -
  have entry: "\<exists>e. entry_instance ''vm-a'' demo_cron = Some (e, demo_cron_inst)"
    by (simp add: entry_instance_def demo_cron_def demo_running_def inst_def fc_entry_new_def)
  then have st: "vm_state_of ''vm-a'' demo_cron = Some Started"
    by (auto simp: vm_state_of_entry demo_cron_inst_def demo_inst_def)
  then have "fst (run_scheduled_inner demo_calls ''vm-a'' demo_cron) = demo_cron"
    using entry by (auto simp: run_scheduled_inner_def run_wake_def demo_calls_def Let_def)
  then show ?thesis
    using scheduled_run_suspends[of demo_calls 99 "''vm-a''", OF _ refl, of demo_cron] st
    by (auto simp: demo_calls_def)
qed

lemma await_workload_ends_witness:
  "\<exists>k out. await_workload ''vm-a'' ''wl-'' (Some 10) (\<lambda>_. demo_running) (\<lambda>k. 2500 * k) = Some (k, out) \<and> k \<le> 5"
  using await_workload_ends[where timeout = "Some 10" and clock = "\<lambda>k. 2500 * k" and vm = "''vm-a''" and
      wid = "''wl-''" and obs = "\<lambda>_. demo_running"] by auto

end
