(* ===== verification/Guestd.thy ===== *)
theory Guestd
  imports Guest Poll
begin

text \<open>
  The daemon in the guest, \<open>guestd/src\<close>: its protocol (\<open>proto.rs\<close>), the operations of the agent
  (\<open>agent.rs\<close>), the idle detector (\<open>monitor.rs\<close>) and the threads they start.  The model starts at the
  typed messages.  A writer is the identity of its \<open>Arc\<close>.  The functions here are the critical
  sections and straight-line parts of the code; \<open>GuestdSys\<close> interleaves them.
\<close>

section \<open>Messages\<close>

datatype gd_request =
    GdStart string "string list" "(string, string) amap" "string option"
  | GdStop string
  | GdList
  | GdConfigureAutoSuspend "string list" nat

datatype gd_stream = GdStdout | GdStderr

datatype gd_state = GdRunning | GdExited

type_synonym gd_status = "int option \<times> int option" \<comment> \<open>exit code and signal\<close>

record gd_info =
  gi_workload_id :: string
  gi_state :: gd_state
  gi_exit_code :: "int option"
  gi_signal :: "int option"

datatype gd_event =
    GdStartedEv string u32
  | GdOutputEv string gd_stream string
  | GdExitedEv string "int option" "int option"
  | GdErrorEv "string option" string
  | GdListEv "gd_info list"
  | GdIdleEv

section \<open>The agent\<close>

definition STOP_GRACE :: nat where
  "STOP_GRACE = 2"

definition OUTPUT_BUF_SIZE :: nat where
  "OUTPUT_BUF_SIZE = 8 * 1024"

record gd_entry =
  ge_pid :: u32
  ge_result :: "gd_status option"

record idle_check_config =
  ic_cmd :: "string list"
  ic_interval :: nat

record gd_agent =
  ga_workloads :: "(string, gd_entry) amap"
  ga_conn :: "nat option"
  ga_config :: "idle_check_config option"
  ga_started :: bool

definition gd_agent_new :: gd_agent where
  "gd_agent_new = \<lparr>ga_workloads = [], ga_conn = None, ga_config = None, ga_started = False\<rparr>"

definition set_conn :: "nat \<Rightarrow> gd_agent \<Rightarrow> gd_agent" where
  "set_conn writer a = a\<lparr>ga_conn := Some writer\<rparr>"

definition clear_conn :: "nat \<Rightarrow> gd_agent \<Rightarrow> gd_agent" where
  "clear_conn writer a = (if ga_conn a = Some writer then a\<lparr>ga_conn := None\<rparr> else a)"

text \<open>\<open>start\<close> up to the registration: the error to report, or the process.\<close>

definition gd_start ::
  "(string \<Rightarrow> string list \<Rightarrow> (string, string) amap \<Rightarrow> string option \<Rightarrow> string + u32) \<Rightarrow>
   string \<Rightarrow> string list \<Rightarrow> (string, string) amap \<Rightarrow> string option \<Rightarrow> gd_agent \<Rightarrow> gd_agent \<times> (gd_event + u32)" where
  "gd_start spawn workload_id cmd env cwd a =
     (case cmd of
        [] \<Rightarrow> (a, Inl (GdErrorEv (Some workload_id) ''cmd must not be empty''))
      | prog # args \<Rightarrow>
          (case spawn prog args env cwd of
             Inl e \<Rightarrow> (a, Inl (GdErrorEv (Some workload_id) (''spawn '' @ prog @ '': '' @ e)))
           | Inr pid \<Rightarrow>
               (a\<lparr>ga_workloads := AList.update workload_id \<lparr>ge_pid = pid, ge_result = None\<rparr> (ga_workloads a)\<rparr>,
                Inr pid)))"

text \<open>\<open>stop\<close> up to the signal: the event to report, if any, or the process to signal.\<close>

definition gd_stop :: "string \<Rightarrow> gd_agent \<Rightarrow> gd_event option + u32" where
  "gd_stop workload_id a =
     (case map_of (ga_workloads a) workload_id of
        Some entry \<Rightarrow> if ge_result entry = None then Inr (ge_pid entry) else Inl None
      | None \<Rightarrow> Inl (Some (GdErrorEv (Some workload_id) ''unknown workload'')))"

text \<open>A negative process id addresses the whole group.\<close>

definition pgid_of :: "u32 \<Rightarrow> int" where
  "pgid_of pid = - sint pid"

definition gd_info_of :: "string \<Rightarrow> gd_entry \<Rightarrow> gd_info" where
  "gd_info_of workload_id entry =
     \<lparr>gi_workload_id = workload_id,
      gi_state = (if ge_result entry \<noteq> None then GdExited else GdRunning),
      gi_exit_code = Option.bind (ge_result entry) fst,
      gi_signal = Option.bind (ge_result entry) snd\<rparr>"

definition gd_list :: "gd_agent \<Rightarrow> gd_event" where
  "gd_list a = GdListEv (map (\<lambda>(workload_id, entry). gd_info_of workload_id entry) (ga_workloads a))"

text \<open>\<open>reap\<close> after the wait.\<close>

definition gd_record :: "string \<Rightarrow> gd_status \<Rightarrow> gd_agent \<Rightarrow> gd_agent" where
  "gd_record workload_id result a =
     a\<lparr>ga_workloads := AList.map_entry workload_id (\<lambda>entry. entry\<lparr>ge_result := Some result\<rparr>) (ga_workloads a)\<rparr>"

definition gd_still_running :: "string \<Rightarrow> gd_agent \<Rightarrow> bool" where
  "gd_still_running workload_id a =
     (case map_of (ga_workloads a) workload_id of Some entry \<Rightarrow> ge_result entry = None | None \<Rightarrow> False)"

text \<open>One chunk of a pipe.\<close>

text \<open>\<open>forward_output\<close>: the reads of one pipe, in order, up to the end or an error.\<close>

definition gd_chunk :: "string \<Rightarrow> gd_stream \<Rightarrow> string \<Rightarrow> gd_event" where
  "gd_chunk workload_id stream buf = GdOutputEv workload_id stream (utf8_lossy buf)"

fun forward_output :: "string \<Rightarrow> gd_stream \<Rightarrow> (string + string) list \<Rightarrow> gd_event list" where
  "forward_output workload_id stream [] = []"
| "forward_output workload_id stream (Inl e # reads) = []"
| "forward_output workload_id stream (Inr buf # reads) =
     (if buf = [] then [] else gd_chunk workload_id stream buf # forward_output workload_id stream reads)"

fun output_data :: "gd_event list \<Rightarrow> string" where
  "output_data [] = []"
| "output_data (GdOutputEv w st data # evs) = data @ output_data evs"
| "output_data (_ # evs) = output_data evs"

lemma utf8_lossy_fixed: "utf8_lossy s = s \<longleftrightarrow> utf8_ok s"
  using utf8_lossy_ok utf8_lossy_wf by metis

lemma output_data_forward:
  "[] \<notin> set bufs \<Longrightarrow> output_data (forward_output wid st (map Inr bufs @ [Inr []])) = concat (map utf8_lossy bufs)"
  by (induction bufs) (auto simp: gd_chunk_def)

text \<open>Reads that end on character boundaries are forwarded byte for byte, and nothing else is sent.\<close>

theorem output_forwarded:
  assumes "[] \<notin> set bufs" "\<forall>buf \<in> set bufs. utf8_ok buf"
  shows "output_data (forward_output wid st (map Inr bufs @ [Inr []])) = concat bufs"
  using assms by (simp add: output_data_forward utf8_lossy_ok map_idI)

text \<open>Each read is decoded on its own, so a character that two reads share is lost, although the output
  as a whole is UTF-8.\<close>

lemma split_character_lost:
  "utf8_ok [CHR 0xC3, CHR 0xA9]"
  "output_data (forward_output wid st [Inr [CHR 0xC3], Inr [CHR 0xA9], Inr []]) = replacement @ replacement"
  by (simp_all add: utf8_ok.simps utf8_lossy.simps gd_chunk_def utf8_lead_def in_range_def)

section \<open>The idle detector\<close>

definition CHECK_TIMEOUT :: nat where
  "CHECK_TIMEOUT = 30"

text \<open>The new state, and whether the monitor's thread is started.\<close>

definition gd_configure :: "string list \<Rightarrow> nat \<Rightarrow> gd_agent \<Rightarrow> gd_agent \<times> bool" where
  "gd_configure cmd interval_secs a =
     (if cmd = [] then (a\<lparr>ga_config := None\<rparr>, False)
      else let a1 = a\<lparr>ga_config := Some \<lparr>ic_cmd = cmd, ic_interval = max interval_secs 1\<rparr>\<rparr>
           in if ga_started a1 then (a1, False) else (a1\<lparr>ga_started := True\<rparr>, True))"

text \<open>\<open>try_wait\<close> number \<open>k\<close> is made at \<open>clock k\<close> and gives an error, a status, or nothing.\<close>

datatype wait_outcome = WaitExited gd_status | WaitKilled | WaitFailed

definition wait_probe :: "(string + gd_status option) \<Rightarrow> nat \<Rightarrow> nat \<Rightarrow> wait_outcome option" where
  "wait_probe polled now deadline =
     (case polled of
        Inr (Some status) \<Rightarrow> Some (WaitExited status)
      | Inr None \<Rightarrow> if deadline \<le> now then Some WaitKilled else None
      | Inl _ \<Rightarrow> Some WaitFailed)"

definition wait_with_timeout ::
  "(nat \<Rightarrow> string + gd_status option) \<Rightarrow> (nat \<Rightarrow> nat) \<Rightarrow> nat \<Rightarrow> nat \<Rightarrow> (nat \<times> wait_outcome) option" where
  "wait_with_timeout try_wait clock began timeout_secs =
     poll_loop (\<lambda>k. wait_probe (try_wait k) (clock k) (began + timeout_secs * 1000)) 0"

text \<open>The verdict, and whether the check's process was killed.\<close>

definition is_idle ::
  "(string + unit) \<Rightarrow> (nat \<Rightarrow> string + gd_status option) \<Rightarrow> (nat \<Rightarrow> nat) \<Rightarrow> nat \<Rightarrow> (bool \<times> bool) option" where
  "is_idle spawn try_wait clock began =
     (case spawn of
        Inl _ \<Rightarrow> Some (False, False)
      | Inr _ \<Rightarrow>
          map_option (\<lambda>(k, out). case out of
              WaitExited status \<Rightarrow> (fst status = Some 0, False)
            | WaitKilled \<Rightarrow> (False, True)
            | WaitFailed \<Rightarrow> (False, False)) (wait_with_timeout try_wait clock began CHECK_TIMEOUT))"

text \<open>The idle check always decides when its polls are 100 ms apart: a program that ends in time decides by
  its exit status, of which only 0 means idle, at the first poll that sees it; and one that is still
  running after 30 s is killed and means not idle, whatever it would have answered later.\<close>

theorem idle_check_decides:
  assumes clock: "\<And>k. began + 100 * k \<le> clock k"
  shows "\<exists>k\<le>300. is_idle (Inr ()) try_wait clock began =
    Some (case try_wait k of
        Inr (Some status) \<Rightarrow> (fst status = Some 0, False)
      | Inr None \<Rightarrow> (False, True)
      | Inl _ \<Rightarrow> (False, False)) \<and>
    (\<forall>j<k. try_wait j = Inr None \<and> clock j < began + 30000) \<and>
    (try_wait k = Inr None \<longrightarrow> began + 30000 \<le> clock k)"
proof -
  let ?probe = "\<lambda>k. wait_probe (try_wait k) (clock k) (began + CHECK_TIMEOUT * 1000)"
  have "?probe 300 \<noteq> None"
    using clock[of 300] by (auto simp: wait_probe_def CHECK_TIMEOUT_def split: sum.split option.split)
  then obtain k out where run: "poll_loop ?probe 0 = Some (k, out)" and "k \<le> 300" and out: "?probe k = Some out"
    and before: "\<And>j. j < k \<Longrightarrow> ?probe j = None"
    by (rule poll_loop_decides) blast
  have idle: "is_idle (Inr ()) try_wait clock began =
      Some (case out of WaitExited status \<Rightarrow> (fst status = Some 0, False) | WaitKilled \<Rightarrow> (False, True) | WaitFailed \<Rightarrow> (False, False))"
    by (simp add: is_idle_def wait_with_timeout_def run)
  have "try_wait j = Inr None \<and> clock j < began + 30000" if "j < k" for j
    using before[OF that] by (auto simp: wait_probe_def CHECK_TIMEOUT_def split: sum.splits option.splits if_splits)
  moreover have "try_wait k = Inr None \<longrightarrow> began + 30000 \<le> clock k"
    using out by (auto simp: wait_probe_def CHECK_TIMEOUT_def split: if_splits)
  moreover have "is_idle (Inr ()) try_wait clock began =
    Some (case try_wait k of Inr (Some status) \<Rightarrow> (fst status = Some 0, False) | Inr None \<Rightarrow> (False, True) | Inl _ \<Rightarrow> (False, False))"
    using out unfolding idle by (auto simp: wait_probe_def split: sum.splits option.splits if_splits)
  ultimately show ?thesis using \<open>k \<le> 300\<close> by blast
qed

lemma idle_check_decides_witness:
  "\<exists>k\<le>300 :: nat. is_idle (Inr ()) (\<lambda>_. Inr None) (\<lambda>k. 100 * k) 0 = Some (False, True) \<and> 30000 \<le> 100 * k"
proof -
  obtain k :: nat where "k \<le> 300" "is_idle (Inr ()) (\<lambda>_. Inr None) (\<lambda>k. 100 * k) 0 = Some (False, True)"
    "30000 \<le> 100 * k"
    using idle_check_decides[of 0 "\<lambda>k. 100 * k" "\<lambda>_. Inr None"] by auto
  then show ?thesis by blast
qed

end
