(* ===== verification/Postgres.thy ===== *)
theory Postgres
  imports Utf8 Errors
begin

text \<open>
  The Postgres wire protocol as \<open>hostd/src/proxy/tcp.rs\<close> reads and writes it: the sniffing of the
  first bytes, the startup frames, the negotiation loop, the extraction of the proxy token from the
  startup parameters, and the error frame.  A client is the bytes it still sends before it closes
  and the bytes written to it; \<open>eof\<close> is the text of the error \<open>read_exact\<close> gives at the end, and
  \<open>werr\<close> says which write fails.
\<close>

definition TOKEN_PARAM :: string where "TOKEN_PARAM = ''tikovm_token''"
definition TOKEN_PARAM_EQ :: string where "TOKEN_PARAM_EQ = ''tikovm_token=''"

definition PROTOCOL_V3 :: u32 where "PROTOCOL_V3 = 196608"
definition SSL_REQUEST :: u32 where "SSL_REQUEST = 80877103"
definition GSSENC_REQUEST :: u32 where "GSSENC_REQUEST = 80877104"
definition CANCEL_REQUEST :: u32 where "CANCEL_REQUEST = 80877102"

definition MAX_STARTUP_FRAME :: nat where "MAX_STARTUP_FRAME = 16 * 1024"

lemmas pg_codes = PROTOCOL_V3_def SSL_REQUEST_def GSSENC_REQUEST_def CANCEL_REQUEST_def

definition looks_like_postgres :: "bytes \<Rightarrow> bool" where
  "looks_like_postgres pre =
     (if length pre < 8 then False
      else let len = unat (of_be32 (take 4 pre)) in
        if \<not> (8 \<le> len \<and> len \<le> MAX_STARTUP_FRAME) then False
        else of_be32 (take 4 (drop 4 pre)) \<in> {PROTOCOL_V3, SSL_REQUEST, GSSENC_REQUEST, CANCEL_REQUEST})"

section \<open>Frames\<close>

definition read_frame :: "string \<Rightarrow> bytes \<Rightarrow> string + (bytes \<times> bytes)" where
  "read_frame eof inp =
     (if length inp < 4 then Inl (''read frame length: '' @ eof)
      else let len = unat (of_be32 (take 4 inp)) in
        if \<not> (8 \<le> len \<and> len \<le> MAX_STARTUP_FRAME)
        then Inl (''implausible startup frame length '' @ dec len)
        else if length inp < len then Inl (''read frame body: '' @ eof)
        else Inr (take len inp, drop len inp))"

lemma read_frame_Inr:
  "read_frame eof inp = Inr (frame, rest) \<Longrightarrow>
     inp = frame @ rest \<and> 8 \<le> length frame \<and> length frame \<le> MAX_STARTUP_FRAME \<and>
     unat (of_be32 (take 4 frame)) = length frame"
  by (auto simp: read_frame_def Let_def min_def split: if_splits)

lemma read_frame_shorter: "read_frame eof inp = Inr (frame, rest) \<Longrightarrow> length rest < length inp"
  by (drule read_frame_Inr) auto

definition frame_code :: "bytes \<Rightarrow> u32" where
  "frame_code frame = of_be32 (take 4 (drop 4 frame))"

text \<open>The loop of \<open>run\<close> that waits for the real startup message.  The result has the bytes
  written to the client and those left to read.\<close>

function negotiate :: "string \<Rightarrow> (bytes \<Rightarrow> string option) \<Rightarrow> bytes \<Rightarrow> bytes \<Rightarrow>
    (string + bytes) \<times> bytes \<times> bytes" where
  "negotiate eof werr inp out =
     (case read_frame eof inp of
        Inl e \<Rightarrow> (Inl e, inp, out)
      | Inr (frame, rest) \<Rightarrow>
          let code = frame_code frame in
          if code = SSL_REQUEST \<or> code = GSSENC_REQUEST then
            (case werr out of
               Some e \<Rightarrow> (Inl (''write encryption refusal: '' @ e), rest, out)
             | None \<Rightarrow> negotiate eof werr rest (out @ str_bytes ''N''))
          else if code = CANCEL_REQUEST then
            (Inl ''cancel requests are not supported through the proxy'', rest, out)
          else if code = PROTOCOL_V3 then (Inr frame, rest, out)
          else (Inl (''unsupported postgres protocol code '' @ dec (unat code)), rest, out))"
  by auto
termination
  by (relation "measure (\<lambda>(_, _, inp, _). length inp)") (auto dest: read_frame_shorter)

declare negotiate.simps [simp del]

section \<open>The startup message\<close>

type_synonym params = "(string \<times> string) list"

function parse_params :: "params \<Rightarrow> bytes \<Rightarrow> params option" where
  "parse_params params rest =
     (case split_once 0 rest of
        None \<Rightarrow> None
      | Some (key, rest1) \<Rightarrow>
          if key = [] then Some params
          else
            (case split_once 0 rest1 of
               None \<Rightarrow> None
             | Some (val, rest2) \<Rightarrow>
                 parse_params (params @ [(utf8_lossy (bytes_str key), utf8_lossy (bytes_str val))]) rest2))"
  by auto
termination
  by (relation "measure (\<lambda>(_, rest). length rest)") (auto dest!: split_once_Some)

declare parse_params.simps [simp del]

text \<open>The frame has at least eight bytes (\<open>read_frame\<close>), so its slice from there exists.\<close>

definition parse_startup :: "bytes \<Rightarrow> params option" where
  "parse_startup frame = parse_params [] (drop 8 frame)"

definition startup_body :: "params \<Rightarrow> bytes" where
  "startup_body params =
     be32 PROTOCOL_V3 @
     concat (map (\<lambda>(key, val). str_bytes key @ [0] @ str_bytes val @ [0]) params) @ [0]"

definition build_startup :: "params \<Rightarrow> bytes" where
  "build_startup params =
     be32 (of_nat (length (startup_body params) + 4)) @ startup_body params"

text \<open>The strings a startup message can carry.\<close>

definition no_nul :: "string \<Rightarrow> bool" where
  "no_nul s \<longleftrightarrow> CHR 0x00 \<notin> set s"

definition param_ok :: "string \<times> string \<Rightarrow> bool" where
  "param_ok p \<longleftrightarrow> (case p of (key, val) \<Rightarrow>
     key \<noteq> [] \<and> no_nul key \<and> no_nul val \<and> utf8_ok key \<and> utf8_ok val)"

section \<open>Words of an options value\<close>

definition ascii_ws :: "char \<Rightarrow> bool" where
  "ascii_ws c \<longleftrightarrow> (of_char c :: nat) \<in> {9, 10, 12, 13, 32}"

function skip_ws :: "string \<Rightarrow> nat \<Rightarrow> nat" where
  "skip_ws s i = (if i < length s \<and> ascii_ws (s ! i) then skip_ws s (i + 1) else i)"
  by auto
termination
  by (relation "measure (\<lambda>(s, i). length s - i)") auto

function scan_word :: "string \<Rightarrow> nat \<Rightarrow> bool \<Rightarrow> bool \<Rightarrow> string \<Rightarrow> nat \<times> string" where
  "scan_word s i squote dquote word =
     (if length s \<le> i then (i, word)
      else if \<not> squote \<and> \<not> dquote \<and> ascii_ws (s ! i) then (i, word)
      else if s ! i = CHR 0x5C \<and> \<not> squote \<and> i + 1 < length s then
        scan_word s (i + 2) squote dquote (word @ [s ! (i + 1)])
      else if s ! i = CHR 0x27 \<and> \<not> dquote then scan_word s (i + 1) (\<not> squote) dquote word
      else if s ! i = CHR 0x22 \<and> \<not> squote then scan_word s (i + 1) squote (\<not> dquote) word
      else scan_word s (i + 1) squote dquote (word @ [s ! i]))"
  by auto
termination
  by (relation "measure (\<lambda>(s, i, _). length s - i)") auto

declare skip_ws.simps [simp del] scan_word.simps [simp del]

lemma skip_ws_unfold:
  "i < length s \<Longrightarrow> ascii_ws (s ! i) \<Longrightarrow> skip_ws s i = skip_ws s (i + 1)"
  "\<not> (i < length s \<and> ascii_ws (s ! i)) \<Longrightarrow> skip_ws s i = i"
  by (subst skip_ws.simps, simp)+

lemma skip_ws_spec:
  "i \<le> length s \<Longrightarrow> i \<le> skip_ws s i \<and> skip_ws s i \<le> length s \<and>
     (skip_ws s i < length s \<longrightarrow> \<not> ascii_ws (s ! skip_ws s i)) \<and>
     (\<forall>j. i \<le> j \<longrightarrow> j < skip_ws s i \<longrightarrow> ascii_ws (s ! j))"
proof (induction s i rule: skip_ws.induct)
  case (1 s i)
  show ?case
  proof (cases "i < length s \<and> ascii_ws (s ! i)")
    case True
    then have e: "skip_ws s i = skip_ws s (i + 1)" by (intro skip_ws_unfold(1)) simp_all
    have ih: "i + 1 \<le> skip_ws s (i + 1)" "skip_ws s (i + 1) \<le> length s"
        "skip_ws s (i + 1) < length s \<longrightarrow> \<not> ascii_ws (s ! skip_ws s (i + 1))"
        "\<forall>j. i + 1 \<le> j \<longrightarrow> j < skip_ws s (i + 1) \<longrightarrow> ascii_ws (s ! j)"
      using "1.IH"[OF True] True by simp_all
    have "ascii_ws (s ! j)" if "i \<le> j" "j < skip_ws s (i + 1)" for j
      using ih(4) True that by (cases "j = i") simp_all
    with ih show ?thesis unfolding e by simp
  next
    case False
    then have e: "skip_ws s i = i" by (rule skip_ws_unfold(2))
    show ?thesis unfolding e using False "1.prems" by auto
  qed
qed

text \<open>A scan goes forward, and stops at the end of the text or before white space.\<close>

lemma scan_word_spec:
  "i \<le> length s \<Longrightarrow> i \<le> fst (scan_word s i sq dq w) \<and> fst (scan_word s i sq dq w) \<le> length s \<and>
     (fst (scan_word s i sq dq w) < length s \<longrightarrow> ascii_ws (s ! fst (scan_word s i sq dq w)))"
proof (induction s i sq dq w rule: scan_word.induct)
  case (1 s i sq dq w)
  consider "length s \<le> i" | "i < length s" "\<not> sq \<and> \<not> dq \<and> ascii_ws (s ! i)"
    | "i < length s" "\<not> (\<not> sq \<and> \<not> dq \<and> ascii_ws (s ! i))"
    by linarith
  then show ?case
  proof cases
    case 1
    with "1.prems" show ?thesis unfolding scan_word.simps[of s i sq dq w] by simp
  next
    case 2
    then show ?thesis unfolding scan_word.simps[of s i sq dq w] by simp
  next
    case 3
    then have ih: "s ! i = CHR 0x5C \<and> \<not> sq \<and> i + 1 < length s \<Longrightarrow> ?thesis"
        "\<not> (s ! i = CHR 0x5C \<and> \<not> sq \<and> i + 1 < length s) \<Longrightarrow> s ! i = CHR 0x27 \<and> \<not> dq \<Longrightarrow> ?thesis"
        "\<not> (s ! i = CHR 0x5C \<and> \<not> sq \<and> i + 1 < length s) \<Longrightarrow> \<not> (s ! i = CHR 0x27 \<and> \<not> dq) \<Longrightarrow>
           s ! i = CHR 0x22 \<and> \<not> sq \<Longrightarrow> ?thesis"
        "\<not> (s ! i = CHR 0x5C \<and> \<not> sq \<and> i + 1 < length s) \<Longrightarrow> \<not> (s ! i = CHR 0x27 \<and> \<not> dq) \<Longrightarrow>
           \<not> (s ! i = CHR 0x22 \<and> \<not> sq) \<Longrightarrow> ?thesis"
      using "1.IH" unfolding scan_word.simps[of s i sq dq w] by (simp_all only: if_True if_False) simp_all
    show ?thesis using ih by blast
  qed
qed

lemma scan_word_progress:
  "i < length s \<Longrightarrow> \<not> ascii_ws (s ! i) \<Longrightarrow> i < fst (scan_word s i False False w)"
proof -
  assume i: "i < length s" "\<not> ascii_ws (s ! i)"
  have "i + 1 \<le> length s" using i by simp
  then have "i < fst (scan_word s (i + 1) sq dq v)" for sq dq v
    using scan_word_spec[of "i + 1" s sq dq v] by linarith
  moreover have "i < fst (scan_word s (i + 2) sq dq v)" if "i + 1 < length s" for sq dq v
    using scan_word_spec[of "i + 2" s sq dq v] that by linarith
  ultimately show ?thesis using i unfolding scan_word.simps[of s i False False w] by simp
qed

function split_opts_from :: "string \<Rightarrow> nat \<Rightarrow> (nat \<times> nat \<times> string) list" where
  "split_opts_from s i =
     (let start = skip_ws s i in
      if length s \<le> start then []
      else let (stop, word) = scan_word s start False False []
           in (start, stop, utf8_lossy word) # split_opts_from s stop)"
  by auto
termination
proof (relation "measure (\<lambda>(s, i). length s - i)")
  fix s :: string and i start x stop word
  assume a: "start = skip_ws s i" "\<not> length s \<le> start" "x = scan_word s start False False []" "(stop, word) = x"
  have i: "i < length s"
  proof (rule ccontr)
    assume "\<not> i < length s"
    with a(1) have "start = i" using skip_ws_unfold(2)[of i s] by simp
    with a(2) \<open>\<not> i < length s\<close> show False by simp
  qed
  have sp: "i \<le> start" "start < length s \<longrightarrow> \<not> ascii_ws (s ! start)"
    unfolding a(1) using skip_ws_spec[OF less_imp_le[OF i]] by blast+
  have "stop = fst (scan_word s start False False [])" using a(3,4) by (metis fst_conv)
  moreover have "start < fst (scan_word s start False False [])"
    using a(2) sp(2) by (intro scan_word_progress) simp_all
  ultimately show "((s, stop), (s, i)) \<in> measure (\<lambda>(s, i). length s - i)" using a(2) i sp(1) by simp
qed simp

declare split_opts_from.simps [simp del]

definition split_opts :: "string \<Rightarrow> (nat \<times> nat \<times> string) list" where
  "split_opts options = split_opts_from options 0"

section \<open>The token in the options\<close>

lemma step_down:
  "\<not> (n :: nat) \<le> i \<Longrightarrow> n - (i + 1) < n - i" "\<not> (n :: nat) \<le> i \<Longrightarrow> n - (i + 2) < n - i"
  by simp_all

text \<open>The loop of \<open>extract_from_options\<close>: the words' texts, the index, the token found so far and
  the indices dropped so far.\<close>

function find_token :: "string list \<Rightarrow> nat \<Rightarrow> string option \<Rightarrow> nat list \<Rightarrow> string option \<times> nat list" where
  "find_token ts i token dropped =
     (if length ts \<le> i then (token, dropped)
      else let text = ts ! i in
        case (if text = ''-c'' \<and> i + 1 < length ts then strip_prefix TOKEN_PARAM_EQ (ts ! (i + 1)) else None) of
          Some v \<Rightarrow>
            find_token ts (i + 2) (if token = None then Some v else token) (dropped @ [i, i + 1])
        | None \<Rightarrow>
            (case (case strip_prefix ''-c'' text of
                     None \<Rightarrow> None
                   | Some rest \<Rightarrow> if rest = [] then None else strip_prefix TOKEN_PARAM_EQ rest) of
               Some v \<Rightarrow> find_token ts (i + 1) (if token = None then Some v else token) (dropped @ [i])
             | None \<Rightarrow> find_token ts (i + 1) token dropped))"
  by auto
termination
  by (relation "measure (\<lambda>(ts, i, _). length ts - i)")
    (rule wf_measure, (simp only: in_measure case_prod_conv; erule step_down)+)

declare find_token.simps [simp del]

definition slice_str :: "string \<Rightarrow> nat \<Rightarrow> nat \<Rightarrow> string" where
  "slice_str s a b = take (b - a) (drop a s)"

definition extract_from_options :: "string \<Rightarrow> string option \<times> string" where
  "extract_from_options options =
     (let words = split_opts options;
          (token, dropped) = find_token (map (snd \<circ> snd) words) 0 None []
      in if dropped = [] then (None, options)
         else (token,
           join_with '' ''
             (map (\<lambda>i. slice_str options (fst (words ! i)) (fst (snd (words ! i))))
               (filter (\<lambda>i. i \<notin> set dropped) [0..<length words]))))"

text \<open>The loop of \<open>extract_token\<close> over the parameters.\<close>

fun extract_params :: "params \<Rightarrow> string option \<Rightarrow> params \<Rightarrow> string option \<times> params" where
  "extract_params [] token fwd = (token, fwd)"
| "extract_params ((key, val) # ps) token fwd =
     (if key = TOKEN_PARAM then extract_params ps (Some val) fwd
      else if key = ''options'' then
        (case extract_from_options val of
           (Some found, rest) \<Rightarrow>
             extract_params ps (Some found) (if rest = [] then fwd else fwd @ [(key, rest)])
         | (None, rest) \<Rightarrow> extract_params ps token (fwd @ [(key, val)]))
      else extract_params ps token (fwd @ [(key, val)]))"

definition extract_token :: "params \<Rightarrow> string + (string \<times> params)" where
  "extract_token params =
     (case extract_params params None [] of
        (None, fwd) \<Rightarrow> Inl (''missing proxy token (pass it as options='' @ [CHR 0x27] @ ''-c '' @
                         TOKEN_PARAM @ ''=<jwt>'' @ [CHR 0x27] @ '')'')
      | (Some token, fwd) \<Rightarrow> Inr (token, fwd))"

section \<open>The error frame\<close>

definition error_response :: "string \<Rightarrow> bytes" where
  "error_response message =
     (let body = concat (map (\<lambda>(code, val). str_bytes [code] @ str_bytes val @ [0])
                   [(CHR ''S'', ''FATAL''), (CHR ''V'', ''FATAL''), (CHR ''C'', ''28000''), (CHR ''M'', message)])
                 @ [0]
      in str_bytes ''E'' @ be32 (of_nat (length body + 4)) @ body)"

section \<open>Startup frames are read back\<close>

lemma str_bytes_nul: "no_nul s \<Longrightarrow> 0 \<notin> set (str_bytes s)"
proof
  assume n: "no_nul s" and "0 \<in> set (str_bytes s)"
  then obtain c where c: "c \<in> set s" and z: "(of_nat (of_char c) :: u8) = 0" by (auto simp: str_bytes_def)
  have "unat (of_nat (of_char c) :: u8) = of_char c" by (simp add: unat_of_nat take_bit_eq_mod)
  with z have "of_char c = (0 :: nat)" by simp
  then have "char_of (of_char c :: nat) = CHR 0x00" unfolding char_of_def by simp
  then have "c = CHR 0x00" by simp
  with n c show False by (simp add: no_nul_def)
qed

lemma parse_params_body:
  "\<forall>p \<in> set ps. param_ok p \<Longrightarrow>
     parse_params acc (concat (map (\<lambda>(key, val). str_bytes key @ [0] @ str_bytes val @ [0]) ps) @ [0]) =
     Some (acc @ ps)"
proof (induction ps arbitrary: acc)
  case Nil
  show ?case by (subst parse_params.simps) simp
next
  case (Cons p ps)
  obtain k v where p: "p = (k, v)" by (cases p)
  then have ok: "k \<noteq> []" "no_nul k" "no_nul v" "utf8_ok k" "utf8_ok v"
    using Cons.prems by (simp_all add: param_ok_def)
  have "str_bytes k \<noteq> []" using ok(1) by (simp add: str_bytes_def)
  then show ?case
    using Cons.IH[of "acc @ [p]"] Cons.prems ok
    by (subst parse_params.simps) (simp add: p str_bytes_nul utf8_lossy_ok)
qed

lemma build_startup_drop: "drop 8 (build_startup ps) = drop 4 (startup_body ps)"
  by (simp add: build_startup_def)

lemma build_startup_length: "length (build_startup ps) = length (startup_body ps) + 4"
  by (simp add: build_startup_def)

lemma parse_build: "\<forall>p \<in> set ps. param_ok p \<Longrightarrow> parse_startup (build_startup ps) = Some ps"
  unfolding parse_startup_def build_startup_drop
  using parse_params_body[of ps "[]"] by (simp add: startup_body_def)

text \<open>A startup message hostd builds from sendable parameters, when it is no longer than the
  largest frame, is sniffed as Postgres, read back as one frame whatever follows it, carries the
  protocol code, and parses to exactly the parameters it was built from.\<close>

theorem startup_roundtrip:
  assumes "\<forall>p \<in> set ps. param_ok p" "length (build_startup ps) \<le> MAX_STARTUP_FRAME"
  shows "looks_like_postgres (take 8 (build_startup ps @ rest)) \<and>
         read_frame eof (build_startup ps @ rest) = Inr (build_startup ps, rest) \<and>
         frame_code (build_startup ps) = PROTOCOL_V3 \<and>
         parse_startup (build_startup ps) = Some ps"
proof -
  let ?f = "build_startup ps" and ?n = "length (build_startup ps)"
  have n: "?n = length (startup_body ps) + 4" and body: "startup_body ps = be32 PROTOCOL_V3 @ drop 4 (startup_body ps)"
    and l8: "8 \<le> ?n" by (simp_all add: build_startup_length startup_body_def)
  have h: "take 4 ?f = be32 (of_nat ?n)" and c: "take 4 (drop 4 ?f) = be32 PROTOCOL_V3"
    by (simp_all add: build_startup_def startup_body_def)
  have "?n < 2 ^ 32" using assms(2) by (simp add: MAX_STARTUP_FRAME_def)
  then have u: "unat (of_nat ?n :: u32) = ?n" by (simp add: unat_of_nat take_bit_nat_eq_self)
  have t: "take 4 (take 8 (?f @ rest)) = take 4 ?f" "take 4 (drop 4 (take 8 (?f @ rest))) = take 4 (drop 4 ?f)"
    "take 4 (?f @ rest) = take 4 ?f" "drop 4 (take 8 ?f) = take 4 (drop 4 ?f)"
    using l8 by (simp_all add: drop_take)
  show ?thesis
    using assms l8 u parse_build[of ps]
    by (simp add: looks_like_postgres_def read_frame_def frame_code_def t h c Let_def)
qed

definition demo_params :: params where
  "demo_params = [(''user'', ''postgres'')]"

lemma demo_params_ok: "\<forall>p \<in> set demo_params. param_ok p" "length (build_startup demo_params) = 23"
  by (simp_all add: demo_params_def param_ok_def no_nul_def utf8_ok_ascii build_startup_def startup_body_def)

lemma startup_roundtrip_witness:
  "parse_startup (build_startup demo_params) = Some demo_params"
  using startup_roundtrip[of demo_params "[]" "''''"] demo_params_ok by (simp add: MAX_STARTUP_FRAME_def)

section \<open>Negotiation\<close>

definition frame_ok :: "bytes \<Rightarrow> bool" where
  "frame_ok f \<longleftrightarrow> 8 \<le> length f \<and> length f \<le> MAX_STARTUP_FRAME \<and> unat (of_be32 (take 4 f)) = length f"

definition refused :: "bytes \<Rightarrow> bool" where
  "refused f \<longleftrightarrow> frame_code f = SSL_REQUEST \<or> frame_code f = GSSENC_REQUEST"

lemma read_frame_iff: "read_frame eof inp = Inr (f, rest) \<longleftrightarrow> inp = f @ rest \<and> frame_ok f"
proof
  assume "inp = f @ rest \<and> frame_ok f"
  then show "read_frame eof inp = Inr (f, rest)" by (auto simp: read_frame_def frame_ok_def Let_def)
qed (auto dest!: read_frame_Inr simp: frame_ok_def)

lemma negotiate_frame:
  assumes "frame_ok f"
  shows "negotiate eof werr (f @ rest) out =
     (if refused f then
        (case werr out of
           Some e \<Rightarrow> (Inl (''write encryption refusal: '' @ e), rest, out)
         | None \<Rightarrow> negotiate eof werr rest (out @ str_bytes ''N''))
      else if frame_code f = CANCEL_REQUEST then
        (Inl ''cancel requests are not supported through the proxy'', rest, out)
      else if frame_code f = PROTOCOL_V3 then (Inr f, rest, out)
      else (Inl (''unsupported postgres protocol code '' @ dec (unat (frame_code f))), rest, out))"
proof -
  have "read_frame eof (f @ rest) = Inr (f, rest)" using assms by (simp add: read_frame_iff)
  then show ?thesis by (subst negotiate.simps) (simp add: refused_def Let_def)
qed

lemma negotiate_sound:
  "negotiate eof werr inp out = (Inr f, rest, out') \<Longrightarrow>
     \<exists>rs. inp = concat rs @ f @ rest \<and> (\<forall>r \<in> set rs. frame_ok r \<and> refused r) \<and>
       frame_ok f \<and> frame_code f = PROTOCOL_V3 \<and> out' = out @ concat (replicate (length rs) (str_bytes ''N''))"
proof (induction eof werr inp out rule: negotiate.induct)
  case (1 eof werr inp out)
  show ?case
  proof (cases "read_frame eof inp")
    case (Inl e)
    with "1.prems" show ?thesis by (simp add: negotiate.simps[of eof werr inp])
  next
    case (Inr p)
    then obtain g tl where p: "p = (g, tl)" and inp: "inp = g @ tl" and g: "frame_ok g"
      using read_frame_iff by (cases p) blast
    show ?thesis
    proof (cases "refused g")
      case True
      then have w: "werr out = None" and n: "negotiate eof werr tl (out @ str_bytes ''N'') = (Inr f, rest, out')"
        using "1.prems" by (auto simp: inp negotiate_frame[OF g] split: option.splits)
      have "\<exists>rs. tl = concat rs @ f @ rest \<and> (\<forall>r \<in> set rs. frame_ok r \<and> refused r) \<and>
          frame_ok f \<and> frame_code f = PROTOCOL_V3 \<and>
          out' = (out @ str_bytes ''N'') @ concat (replicate (length rs) (str_bytes ''N''))"
        using "1.IH"[OF Inr p[symmetric] refl _ w n] True unfolding refused_def by simp
      then obtain rs where "tl = concat rs @ f @ rest" "\<forall>r \<in> set rs. frame_ok r \<and> refused r"
          "frame_ok f" "frame_code f = PROTOCOL_V3"
          "out' = (out @ str_bytes ''N'') @ concat (replicate (length rs) (str_bytes ''N''))" by blast
      then show ?thesis using g True by (intro exI[of _ "g # rs"]) (simp add: inp)
    next
      case False
      then have "g = f" "tl = rest" "out' = out" "frame_code g = PROTOCOL_V3"
        using "1.prems" by (auto simp: inp negotiate_frame[OF g] split: if_splits)
      then show ?thesis using g by (intro exI[of _ "[]"]) (simp add: inp)
    qed
  qed
qed

lemma negotiate_complete:
  "\<forall>r \<in> set rs. frame_ok r \<and> refused r \<Longrightarrow> frame_ok f \<Longrightarrow> frame_code f = PROTOCOL_V3 \<Longrightarrow>
     negotiate eof (\<lambda>_. None) (concat rs @ f @ rest) out =
       (Inr f, rest, out @ concat (replicate (length rs) (str_bytes ''N'')))"
proof (induction rs arbitrary: out)
  case Nil
  then have "\<not> refused f" "frame_code f \<noteq> CANCEL_REQUEST" by (simp_all add: refused_def pg_codes)
  with Nil show ?case by (simp add: negotiate_frame)
next
  case (Cons r rs)
  then show ?case by (simp add: negotiate_frame)
qed

text \<open>While writes to the client work, the negotiation ends with a startup message exactly when
  the client sent a row of well-formed encryption requests and then that message: each request is
  answered by one \<open>N\<close>, nothing else is written, and the bytes after the message are left for the
  splice.\<close>

theorem negotiate_accepts:
  "negotiate eof (\<lambda>_. None) inp out = (Inr f, rest, out') \<longleftrightarrow>
     (\<exists>rs. inp = concat rs @ f @ rest \<and> (\<forall>r \<in> set rs. frame_ok r \<and> refused r) \<and>
       frame_ok f \<and> frame_code f = PROTOCOL_V3 \<and> out' = out @ concat (replicate (length rs) (str_bytes ''N'')))"
  using negotiate_sound[of eof "\<lambda>_. None" inp out f rest out'] negotiate_complete by metis

text \<open>An encryption request, then the startup message.\<close>

lemma negotiate_accepts_witness:
  "negotiate ''early eof'' (\<lambda>_. None)
     ((be32 8 @ be32 SSL_REQUEST) @ build_startup demo_params @ str_bytes ''rest'') [] =
     (Inr (build_startup demo_params), str_bytes ''rest'', str_bytes ''N'')"
proof -
  let ?r = "be32 8 @ be32 SSL_REQUEST"
  have "frame_ok ?r \<and> refused ?r"
    by (simp add: frame_ok_def refused_def frame_code_def MAX_STARTUP_FRAME_def)
  moreover have "frame_ok (build_startup demo_params)" "frame_code (build_startup demo_params) = PROTOCOL_V3"
    by (simp_all add: frame_ok_def frame_code_def MAX_STARTUP_FRAME_def demo_params_ok)
      (simp_all add: build_startup_def startup_body_def demo_params_def)
  ultimately show ?thesis
    by (subst negotiate_accepts) (intro exI[of _ "[?r]"], simp)
qed

lemma of_be32_high: "unat (of_be32 [a, b, c, d]) < 2 ^ 24 \<Longrightarrow> a = 0"
proof -
  let ?w = "of_be32 [a, b, c, d]"
  assume small: "unat ?w < 2 ^ 24"
  have z: "drop_bit 24 ?w = 0"
    using small by (simp add: drop_bit_eq_div word_arith_nat_div flip: word_unat_eq_iff del: of_be32.simps)
  have out: "\<not> bit x (8 + n)" "\<not> bit x (16 + n)" "\<not> bit x (24 + n)" for x :: u8 and n
    using bit_imp_le_length[of x "8 + n"] bit_imp_le_length[of x "16 + n"] bit_imp_le_length[of x "24 + n"] by auto
  have "ucast (drop_bit 24 ?w) = a"
    by (rule bit_word_eqI) (auto simp: bit_simps out)
  with z show ?thesis by (metis unsigned_0)
qed

text \<open>The sniffing never takes an HTTP request for Postgres, as the first byte of what it takes is
  zero and no method starts so; and it takes every well-formed first frame with a known code,
  whatever follows it.\<close>

theorem sniff_exact:
  "(looks_like_postgres pre \<longrightarrow> hd pre = 0) \<and>
   (frame_ok f \<and> frame_code f \<in> {PROTOCOL_V3, SSL_REQUEST, GSSENC_REQUEST, CANCEL_REQUEST} \<longrightarrow>
      looks_like_postgres (take 8 (f @ rest)))"
proof (intro conjI impI)
  assume l: "looks_like_postgres pre"
  then have "8 \<le> length pre" "unat (of_be32 (take 4 pre)) < 2 ^ 24"
    by (auto simp: looks_like_postgres_def Let_def MAX_STARTUP_FRAME_def split: if_splits)
  moreover from this(1) obtain a b c d r where "pre = a # b # c # d # r"
    by (auto simp: numeral_eq_Suc Suc_le_length_iff)
  ultimately show "hd pre = 0" using of_be32_high[of a b c d] by simp
next
  assume f: "frame_ok f \<and> frame_code f \<in> {PROTOCOL_V3, SSL_REQUEST, GSSENC_REQUEST, CANCEL_REQUEST}"
  then have l: "8 \<le> length f" by (simp add: frame_ok_def)
  then have "take 4 (take 8 (f @ rest)) = take 4 f" "take 4 (drop 4 (take 8 (f @ rest))) = take 4 (drop 4 f)"
    "length (take 8 (f @ rest)) = 8"
    by (simp_all add: drop_take)
  then show "looks_like_postgres (take 8 (f @ rest))"
    using f by (simp add: looks_like_postgres_def frame_ok_def frame_code_def Let_def)
qed

lemma sniff_exact_witness:
  "\<not> looks_like_postgres (str_bytes ''GET / HT'') \<and>
   looks_like_postgres (take 8 ((be32 8 @ be32 SSL_REQUEST) @ []))"
proof -
  have "hd (str_bytes ''GET / HT'') \<noteq> 0" by (simp add: str_bytes_def)
  moreover have "frame_ok (be32 8 @ be32 SSL_REQUEST)" "frame_code (be32 8 @ be32 SSL_REQUEST) = SSL_REQUEST"
    by (simp_all add: frame_ok_def frame_code_def MAX_STARTUP_FRAME_def)
  ultimately show ?thesis using sniff_exact by fast
qed

section \<open>Error frames\<close>

text \<open>
  How a client reads an \<open>ErrorResponse\<close>, by the protocol's description of the message: the tag, the length of
  what follows it, then fields of a type byte and a zero-terminated value, up to a zero type byte that ends
  the message.
\<close>

function error_fields :: "bytes \<Rightarrow> (u8 \<times> bytes) list option" where
  "error_fields inp =
     (case inp of
        [] \<Rightarrow> None
      | code # rest \<Rightarrow>
          if code = 0 then (if rest = [] then Some [] else None)
          else (case split_once 0 rest of
                  None \<Rightarrow> None
                | Some (val, rest') \<Rightarrow> map_option ((#) (code, val)) (error_fields rest')))"
  by auto
termination
  by (relation "measure length") (auto dest!: split_once_Some)

declare error_fields.simps [simp del]

definition read_error :: "bytes \<Rightarrow> ((u8 \<times> bytes) list \<times> bytes) option" where
  "read_error inp =
     (if length inp < 5 \<or> take 1 inp \<noteq> str_bytes ''E'' then None
      else let len = unat (of_be32 (take 4 (drop 1 inp)))
           in if len < 4 \<or> length inp < len + 1 then None
              else map_option (\<lambda>fields. (fields, drop (len + 1) inp)) (error_fields (take (len - 4) (drop 5 inp))))"

lemma error_field:
  "0 \<notin> set val \<Longrightarrow> code \<noteq> 0 \<Longrightarrow> error_fields (code # val @ 0 # rest) = map_option ((#) (code, val)) (error_fields rest)"
  by (subst error_fields.simps) simp

definition field_ok :: "char \<times> string \<Rightarrow> bool" where
  "field_ok f \<longleftrightarrow> no_nul [fst f] \<and> no_nul (snd f)"

lemma error_body:
  "\<forall>f \<in> set fs. field_ok f \<Longrightarrow>
     error_fields (concat (map (\<lambda>(code, val). str_bytes [code] @ str_bytes val @ [0]) fs) @ [0]) =
     Some (map (\<lambda>(code, val). (hd (str_bytes [code]), str_bytes val)) fs)"
proof (induction fs)
  case Nil
  show ?case by (subst error_fields.simps) simp
next
  case (Cons f fs)
  obtain code val where f: "f = (code, val)" by (cases f)
  then have ok: "no_nul [code]" "no_nul val" using Cons.prems by (simp_all add: field_ok_def)
  obtain w where w: "str_bytes [code] = [w]" by (simp add: str_bytes_def)
  have "w \<noteq> 0" using str_bytes_nul[OF ok(1)] by (simp add: w)
  then show ?case
    using Cons.IH Cons.prems by (simp add: f w error_field str_bytes_nul[OF ok(2)])
qed

text \<open>C36: A client that reads the error frame gets back exactly the four fields with the message it was made
  from, and is left with what follows the frame, for every message without a zero byte and below the
  range of the length field.\<close>

theorem error_response_framed:
  assumes "no_nul message" "length message < 2 ^ 31"
  shows "read_error (error_response message @ rest) =
    Some (map (\<lambda>(code, val). (hd (str_bytes [code]), str_bytes val))
      [(CHR ''S'', ''FATAL''), (CHR ''V'', ''FATAL''), (CHR ''C'', ''28000''), (CHR ''M'', message)], rest)"
proof -
  define body where "body = concat (map (\<lambda>(code, val). str_bytes [code] @ str_bytes val @ [0])
      [(CHR ''S'', ''FATAL''), (CHR ''V'', ''FATAL''), (CHR ''C'', ''28000''), (CHR ''M'', message)]) @ [0]"
  have e: "error_response message = str_bytes ''E'' @ be32 (of_nat (length body + 4)) @ body"
    by (simp add: error_response_def body_def)
  have "length body + 4 < 2 ^ 32" using assms(2) by (simp add: body_def str_bytes_def)
  then have u: "unat (of_nat (length body + 4) :: u32) = length body + 4" by (simp add: unat_of_nat take_bit_nat_eq_self del: of_nat_add)
  have t: "take 1 (error_response message @ rest) = str_bytes ''E''"
    "take 4 (drop 1 (error_response message @ rest)) = be32 (of_nat (length body + 4))"
    "drop 5 (error_response message @ rest) = body @ rest"
    "length (error_response message @ rest) = length body + 5 + length rest"
    by (simp_all add: e str_bytes_def)
  have "length (error_response message) = length body + 4 + 1" by (simp add: e str_bytes_def)
  then have d: "drop (length body + 4 + 1) (error_response message @ rest) = rest"
    by (metis append_eq_conv_conj)
  have "read_error (error_response message @ rest) = map_option (\<lambda>fields. (fields, rest)) (error_fields body)"
    unfolding read_error_def t of_be32_be32 u Let_def d by simp
  moreover have "\<forall>f \<in> set [(CHR ''S'', ''FATAL''), (CHR ''V'', ''FATAL''), (CHR ''C'', ''28000''), (CHR ''M'', message)]. field_ok f"
    using assms(1) by (simp add: field_ok_def no_nul_def)
  ultimately show ?thesis by (simp only: body_def error_body option.map)
qed

lemma error_response_framed_witness:
  "map_option snd (read_error (error_response ''nope'' @ [1, 2])) = Some [1, 2]"
  using error_response_framed[of "''nope''" "[1, 2]"] by (simp add: no_nul_def)

end
