(* ===== verification/PgRewrite.thy ===== *)
theory PgRewrite
  imports Postgres
begin

text \<open>
  What \<open>hostd/src/proxy/tcp.rs\<close> forwards to the guest: the specification of the options rewriting,
  and the proof that the rewritten startup message is well-formed and carries no token parameter.
\<close>

section \<open>What the extraction removes\<close>

text \<open>The setting, read off the words directly: the tokens of all its occurrences, and the words
  that stay.\<close>

definition glued_token :: "string \<Rightarrow> string option" where
  "glued_token text =
     (case strip_prefix ''-c'' text of
        None \<Rightarrow> None
      | Some rest \<Rightarrow> if rest = [] then None else strip_prefix TOKEN_PARAM_EQ rest)"

definition next_token :: "string \<Rightarrow> (string \<times> 'a) list \<Rightarrow> string option" where
  "next_token text ws =
     (if text = ''-c'' \<and> ws \<noteq> [] then strip_prefix TOKEN_PARAM_EQ (fst (hd ws)) else None)"

function token_words :: "(string \<times> 'a) list \<Rightarrow> string list \<times> 'a list" where
  "token_words [] = ([], [])"
| "token_words ((text, x) # ws) =
     (case next_token text ws of
        Some v \<Rightarrow> (let (vs, kept) = token_words (tl ws) in (v # vs, kept))
      | None \<Rightarrow>
          (case glued_token text of
             Some v \<Rightarrow> (let (vs, kept) = token_words ws in (v # vs, kept))
           | None \<Rightarrow> (let (vs, kept) = token_words ws in (vs, x # kept))))"
  by pat_completeness auto
termination
  by (relation "measure length") (auto simp: less_Suc_eq_le)

lemma next_token_map [simp]: "next_token text (map (\<lambda>(t, x). (t, f x)) ws) = next_token text ws"
  by (cases ws) (auto simp: next_token_def)

lemma token_words_map:
  "token_words (map (\<lambda>(t, x). (t, f x)) ws) = (fst (token_words ws), map f (snd (token_words ws)))"
proof (induction ws rule: token_words.induct)
  case (2 t x ws)
  then show ?case
    by (auto split: option.splits prod.splits simp flip: map_tl)
qed simp

lemma token_words_sub: "set (snd (token_words ws)) \<subseteq> snd ` set ws"
proof (induction ws rule: token_words.induct)
  case (2 t x ws)
  then show ?case
    by (cases ws) (fastforce simp: next_token_def split: option.splits prod.splits if_splits)+
qed simp

declare token_words.simps(2) [simp del]

definition first_of :: "'a list \<Rightarrow> 'a option" where
  "first_of vs = (case vs of [] \<Rightarrow> None | v # _ \<Rightarrow> Some v)"

text \<open>The indexed loop computes this from any index on.\<close>

definition words_from :: "string list \<Rightarrow> nat \<Rightarrow> (string \<times> nat) list" where
  "words_from ts i = zip (drop i ts) [i..<length ts]"

lemma words_from_step: "i < length ts \<Longrightarrow> words_from ts i = (ts ! i, i) # words_from ts (Suc i)"
  by (simp add: words_from_def Cons_nth_drop_Suc[symmetric] upt_conv_Cons)

lemma words_from_done: "length ts \<le> i \<Longrightarrow> words_from ts i = []"
  by (simp add: words_from_def)

lemma words_from_next:
  "next_token text (words_from ts (Suc i)) =
     (if text = ''-c'' \<and> Suc i < length ts then strip_prefix TOKEN_PARAM_EQ (ts ! (Suc i)) else None)"
  by (cases "Suc i < length ts") (simp_all add: next_token_def words_from_step words_from_done)

lemma words_from_snd: "snd ` set (words_from ts i) = {i..<length ts}"
proof -
  have "map snd (words_from ts i) = [i..<length ts]" by (simp add: words_from_def)
  then have "set (map snd (words_from ts i)) = {i..<length ts}" by simp
  then show ?thesis by simp
qed

lemma find_token_done: "length ts \<le> i \<Longrightarrow> find_token ts i tok dr = (tok, dr)"
  by (subst find_token.simps) simp

lemma find_token_step:
  "i < length ts \<Longrightarrow>
     find_token ts i tok dr =
       (case next_token (ts ! i) (words_from ts (Suc i)) of
          Some v \<Rightarrow> find_token ts (Suc (Suc i)) (if tok = None then Some v else tok) (dr @ [i, Suc i])
        | None \<Rightarrow>
            (case glued_token (ts ! i) of
               Some v \<Rightarrow> find_token ts (Suc i) (if tok = None then Some v else tok) (dr @ [i])
             | None \<Rightarrow> find_token ts (Suc i) tok dr))"
proof -
  assume i: "i < length ts"
  have s: "i + 1 = Suc i" "i + 2 = Suc (Suc i)" by simp_all
  show ?thesis unfolding words_from_next glued_token_def find_token.simps[of ts i tok dr] s Let_def using i by simp
qed

text \<open>The state of the loop, against the words read from index \<open>i\<close>.\<close>

lemma token_words_Cons:
  "next_token t ws = Some v \<Longrightarrow> token_words ((t, x) # ws) = (v # fst (token_words (tl ws)), snd (token_words (tl ws)))"
  "next_token t ws = None \<Longrightarrow> glued_token t = Some v \<Longrightarrow>
     token_words ((t, x) # ws) = (v # fst (token_words ws), snd (token_words ws))"
  "next_token t ws = None \<Longrightarrow> glued_token t = None \<Longrightarrow>
     token_words ((t, x) # ws) = (fst (token_words ws), x # snd (token_words ws))"
  by (simp_all add: token_words.simps(2) case_prod_unfold Let_def)

definition found :: "string list \<Rightarrow> nat \<Rightarrow> string option \<Rightarrow> nat list \<Rightarrow> string option \<times> nat list \<Rightarrow> bool" where
  "found ts i tok dr r \<longleftrightarrow>
     (case token_words (words_from ts i) of (vs, kept) \<Rightarrow>
      fst r = (if tok = None then first_of vs else tok) \<and>
      set (snd r) = set dr \<union> ({i..<length ts} - set kept) \<and>
      (snd r = [] \<longleftrightarrow> dr = [] \<and> vs = []) \<and>
      set kept \<subseteq> {i..<length ts} \<and>
      sorted_wrt (<) kept)"

lemma kept_sub: "token_words (words_from ts i) = (vs, kept) \<Longrightarrow> set kept \<subseteq> {i..<length ts}"
  using token_words_sub[of "words_from ts i"] by (simp add: words_from_snd)

lemma find_token_spec: "found ts i tok dr (find_token ts i tok dr)"
proof (induction "length ts - i" arbitrary: i tok dr rule: less_induct)
  case less
  show ?case
  proof (cases "i < length ts")
    case False
    then show ?thesis by (simp add: found_def find_token_done words_from_done first_of_def)
  next
    case True
    note step = find_token_step[OF True, of tok dr] words_from_step[OF True]
    show ?thesis
    proof (cases "next_token (ts ! i) (words_from ts (Suc i))")
      case (Some v)
      then have i2: "Suc i < length ts" unfolding words_from_next by (auto split: if_splits)
      then have tl: "tl (words_from ts (Suc i)) = words_from ts (Suc (Suc i))" by (simp add: words_from_step)
      obtain vs kept where tw: "token_words (words_from ts (Suc (Suc i))) = (vs, kept)" by fastforce
      have "found ts (Suc (Suc i)) (if tok = None then Some v else tok) (dr @ [i, Suc i]) (find_token ts i tok dr)"
        unfolding step(1) Some option.case by (rule less) (use True in simp)
      moreover have "{i..<length ts} = {i, Suc i} \<union> {Suc (Suc i)..<length ts}" using i2 by auto
      ultimately show ?thesis
        using kept_sub[OF tw]
        by (auto simp: found_def step(2) token_words_Cons(1)[OF Some] tl tw first_of_def)
    next
      case None
      obtain vs kept where tw: "token_words (words_from ts (Suc i)) = (vs, kept)" by fastforce
      have r: "{i..<length ts} = insert i {Suc i..<length ts}" using True by auto
      show ?thesis
      proof (cases "glued_token (ts ! i)")
        case (Some v)
        have "found ts (Suc i) (if tok = None then Some v else tok) (dr @ [i]) (find_token ts i tok dr)"
          unfolding step(1) None Some option.case by (rule less) (use True in simp)
        then show ?thesis
          using kept_sub[OF tw]
          by (auto simp: found_def step(2) token_words_Cons(2)[OF None Some] tw first_of_def r)
      next
        case n2: None
        have f: "found ts (Suc i) tok dr (find_token ts i tok dr)"
          unfolding step(1) None n2 option.case by (rule less) (use True in simp)
        then show ?thesis using kept_sub[OF tw]
          by (auto simp: found_def step(2) token_words_Cons(3)[OF None n2] tw r)
      qed
    qed
  qed
qed

lemma kept_indices:
  assumes "found ts 0 None [] (tok, dr)"
  shows "snd (token_words (words_from ts 0)) = filter (\<lambda>i. i \<notin> set dr) [0..<length ts]"
proof -
  obtain vs kept where tw: "token_words (words_from ts 0) = (vs, kept)" by fastforce
  have d: "set dr = {0..<length ts} - set kept" and s: "sorted_wrt (<) kept" and k: "set kept \<subseteq> {0..<length ts}"
    using assms by (auto simp: found_def tw)
  have "kept = filter (\<lambda>i. i \<notin> set dr) [0..<length ts]"
  proof (rule sorted_distinct_set_unique)
    show "sorted kept" "distinct kept" using s by (simp_all add: strict_sorted_iff)
    show "sorted (filter (\<lambda>i. i \<notin> set dr) [0..<length ts])" by (rule sorted_wrt_filter) simp
    show "set kept = set (filter (\<lambda>i. i \<notin> set dr) [0..<length ts])" using d k by auto
  qed simp
  then show ?thesis by (simp add: tw)
qed

text \<open>The indexed loop over the words of an options value computes its specification: the token of
  the first setting, and the source text of the words that no setting takes, in their order and
  joined by single spaces; a value without the setting is returned as it is.\<close>

theorem extract_from_options_spec:
  "extract_from_options options =
     (case token_words (map (\<lambda>(a, b, t). (t, slice_str options a b)) (split_opts options)) of
        ([], kept) \<Rightarrow> (None, options)
      | (v # vs, kept) \<Rightarrow> (Some v, join_with '' '' kept))"
proof -
  let ?words = "split_opts options"
  let ?ts = "map (snd \<circ> snd) ?words"
  let ?f = "\<lambda>i. slice_str options (fst (?words ! i)) (fst (snd (?words ! i)))"
  obtain tok dr where f: "find_token ?ts 0 None [] = (tok, dr)" by fastforce
  have fo: "found ?ts 0 None [] (tok, dr)" using find_token_spec[of ?ts 0 None "[]"] by (simp add: f)
  obtain vs kept where tw: "token_words (words_from ?ts 0) = (vs, kept)" by fastforce
  have "map (\<lambda>(a, b, t). (t, slice_str options a b)) ?words = map (\<lambda>(t, i). (t, ?f i)) (words_from ?ts 0)"
    by (rule nth_equalityI) (auto simp: words_from_def case_prod_unfold)
  then have m: "token_words (map (\<lambda>(a, b, t). (t, slice_str options a b)) ?words) = (vs, map ?f kept)"
    by (simp add: token_words_map tw)
  have kept: "kept = filter (\<lambda>i. i \<notin> set dr) [0..<length ?words]"
    using kept_indices[OF fo] by (simp add: tw)
  have "dr = [] \<longleftrightarrow> vs = []" "tok = first_of vs" using fo by (auto simp: found_def tw)
  moreover have "extract_from_options options = (if dr = [] then (None, options) else (tok, join_with '' '' (map ?f kept)))"
    unfolding extract_from_options_def Let_def f kept by simp
  ultimately show ?thesis by (cases vs) (simp_all add: m first_of_def)
qed

text \<open>A setting that stands between a word \<open>-c\<close> and a token word is taken out once: what it leaves
  is a setting again.\<close>

lemma residual_setting:
  "token_words [(''-c'', 0 :: nat), (''-ctikovm_token=a'', 1), (''tikovm_token=b'', 2)] = ([''a''], [0, 2])"
  by (simp add: token_words.simps(2) next_token_def glued_token_def strip_prefix_def TOKEN_PARAM_EQ_def)

section \<open>Words and characters\<close>

definition span_ok :: "string \<Rightarrow> nat \<Rightarrow> nat \<Rightarrow> bool" where
  "span_ok s a b \<longleftrightarrow> a < b \<and> b \<le> length s \<and> (b < length s \<longrightarrow> ascii_ws (s ! b)) \<and>
     (0 < a \<longrightarrow> ascii_ws (s ! (a - 1)))"

lemma split_opts_from_spans:
  "i \<le> length s \<Longrightarrow> i = 0 \<or> i = length s \<or> ascii_ws (s ! i) \<Longrightarrow> (a, b, t) \<in> set (split_opts_from s i) \<Longrightarrow>
     span_ok s a b"
proof (induction s i rule: split_opts_from.induct)
  case (1 s i)
  let ?start = "skip_ws s i"
  obtain stop word where sw: "scan_word s ?start False False [] = (stop, word)" by fastforce
  have lt: "\<not> length s \<le> ?start"
    using "1.prems"(3) by (auto simp: split_opts_from.simps[of s i] Let_def split: if_splits)
  have sk: "i \<le> ?start" "\<not> ascii_ws (s ! ?start)" "\<forall>j. i \<le> j \<longrightarrow> j < ?start \<longrightarrow> ascii_ws (s ! j)"
    using skip_ws_spec[OF "1.prems"(1)] lt by auto
  have st: "?start < stop" "stop \<le> length s" "stop < length s \<longrightarrow> ascii_ws (s ! stop)"
    using scan_word_progress[of ?start s "[]"] scan_word_spec[of ?start s False False "[]"] lt sk(2)
    by (simp_all add: sw)
  have "0 < ?start \<longrightarrow> ascii_ws (s ! (?start - 1))"
  proof (cases "?start = i")
    case True
    then have "?start = 0" using "1.prems"(2) sk(2) lt by auto
    then show ?thesis by simp
  next
    case False
    then have "i \<le> ?start - 1" "?start - 1 < ?start" using sk(1) by auto
    then show ?thesis using sk(3) by blast
  qed
  then have hd: "span_ok s ?start stop" using st by (simp add: span_ok_def)
  have "(a, b, t) = (?start, stop, utf8_lossy word) \<or> (a, b, t) \<in> set (split_opts_from s stop)"
    using "1.prems"(3) lt by (simp add: split_opts_from.simps[of s i] Let_def sw)
  then show ?case
  proof
    assume "(a, b, t) = (?start, stop, utf8_lossy word)"
    then show ?thesis using hd by simp
  next
    assume "(a, b, t) \<in> set (split_opts_from s stop)"
    moreover have "stop = 0 \<or> stop = length s \<or> ascii_ws (s ! stop)" using st by linarith
    ultimately show ?thesis using "1.IH"[OF refl lt refl sw[symmetric] st(2)] by blast
  qed
qed

lemma split_opts_spans: "(a, b, t) \<in> set (split_opts s) \<Longrightarrow> span_ok s a b"
  by (rule split_opts_from_spans) (simp_all add: split_opts_def)

lemma ascii_ws_ascii: "ascii_ws c \<Longrightarrow> of_char c < (128 :: nat)"
  by (auto simp: ascii_ws_def)

lemma slice_ok: "utf8_ok s \<Longrightarrow> span_ok s a b \<Longrightarrow> utf8_ok (slice_str s a b)"
proof -
  assume s: "utf8_ok s" and sp: "span_ok s a b"
  have t: "utf8_ok (take b s)"
  proof (cases "b < length s")
    case True
    then have "utf8_ok (take b s @ s ! b # drop (Suc b) s)"
      by (subst id_take_nth_drop[OF True, symmetric]) (rule s)
    moreover have "ascii_ws (s ! b)" using sp True by (simp add: span_ok_def)
    ultimately show ?thesis using utf8_ok_cut[OF _ ascii_ws_ascii] by blast
  qed (use s in simp)
  show ?thesis
  proof (cases "a = 0")
    case True
    then show ?thesis using t by (simp add: slice_str_def)
  next
    case False
    have l: "a - 1 < length (take b s)" "(take b s) ! (a - 1) = s ! (a - 1)" "Suc (a - 1) = a"
      using sp False by (auto simp: span_ok_def)
    have "utf8_ok (take (a - 1) (take b s) @ (take b s) ! (a - 1) # drop (Suc (a - 1)) (take b s))"
      by (subst id_take_nth_drop[OF l(1), symmetric]) (rule t)
    moreover have "ascii_ws (take b s ! (a - 1))" using sp False l(2) by (simp add: span_ok_def)
    ultimately have "utf8_ok (drop a (take b s))"
      using utf8_ok_cut[OF _ ascii_ws_ascii] l(3) by metis
    then show ?thesis by (simp add: slice_str_def drop_take)
  qed
qed

lemma slice_nul: "no_nul s \<Longrightarrow> no_nul (slice_str s a b)"
  by (auto simp: no_nul_def slice_str_def dest: in_set_takeD in_set_dropD)

lemma join_ok:
  "\<forall>s \<in> set ss. utf8_ok s \<and> no_nul s \<Longrightarrow> utf8_ok (join_with '' '' ss) \<and> no_nul (join_with '' '' ss)"
proof (induction ss)
  case (Cons s ss)
  note ih = Cons.IH and prems = Cons.prems
  show ?case
  proof (cases ss)
    case Nil
    with prems show ?thesis by simp
  next
    case (Cons u us)
    have "utf8_ok (s @ ('' '' @ join_with '' '' ss))"
      using ih prems by (intro utf8_ok_append) (simp_all add: utf8_ok_ascii)
    then show ?thesis using ih prems by (simp add: Cons no_nul_def)
  qed
qed (simp add: no_nul_def)

lemma extract_from_options_ok:
  assumes "utf8_ok options" "no_nul options" "extract_from_options options = (Some v, rest)"
  shows "utf8_ok rest \<and> no_nul rest"
proof -
  let ?ws = "map (\<lambda>(a, b, t). (t, slice_str options a b)) (split_opts options)"
  have rest: "rest = join_with '' '' (snd (token_words ?ws))"
    using assms(3) by (simp add: extract_from_options_spec split: prod.splits list.splits)
  have "utf8_ok w \<and> no_nul w" if "w \<in> set (snd (token_words ?ws))" for w
  proof -
    have "w \<in> snd ` set ?ws" using that token_words_sub[of ?ws] by blast
    then obtain a b t where "(a, b, t) \<in> set (split_opts options)" "w = slice_str options a b" by force
    then show ?thesis using split_opts_spans slice_ok[OF assms(1)] slice_nul[OF assms(2)] by blast
  qed
  then show ?thesis unfolding rest by (intro join_ok) blast
qed

lemma utf8_lossy_Nil: "utf8_lossy s = [] \<longleftrightarrow> s = []"
  using utf8_head_pos[of s] by (subst utf8_lossy.simps) (auto simp: replacement_def split: prod.splits)

lemma bytes_str_nul: "0 \<notin> set bs \<Longrightarrow> no_nul (bytes_str bs)"
proof -
  assume z: "0 \<notin> set bs"
  have "char_of (unat b) \<noteq> CHR 0x00" if "b \<in> set bs" for b :: u8
  proof
    assume "char_of (unat b) = CHR 0x00"
    then have "of_char (char_of (unat b) :: char) = (0 :: nat)" by simp
    moreover have "of_char (char_of (unat b) :: char) = unat b"
      using unsigned_less[of b, where ?'a = nat] by (simp add: of_char_of)
    ultimately show False using z that by (simp add: unsigned_eq_0_iff)
  qed
  then have "CHR 0x00 \<notin> (\<lambda>b. char_of (unat b)) ` set bs" by (metis imageE)
  then show ?thesis unfolding no_nul_def bytes_str_def set_map .
qed

lemma parse_params_ok:
  "parse_params acc bs = Some ps \<Longrightarrow> \<forall>p \<in> set acc. param_ok p \<Longrightarrow> \<forall>p \<in> set ps. param_ok p"
proof (induction acc bs rule: parse_params.induct)
  case (1 acc bs)
  note eq = "1.prems"(1)[unfolded parse_params.simps[of acc bs]]
  show ?case
  proof (cases "split_once 0 bs")
    case None
    with eq show ?thesis by simp
  next
    case s1: (Some p)
    obtain key bs1 where p: "p = (key, bs1)" by (cases p)
    show ?thesis
    proof (cases "key = []")
      case True
      with eq "1.prems"(2) show ?thesis by (simp add: s1 p)
    next
      case False
      have "split_once 0 bs1 \<noteq> None"
      proof
        assume "split_once 0 bs1 = None"
        with eq False show False by (simp add: s1 p)
      qed
      then obtain val bs2 where s2: "split_once 0 bs1 = Some (val, bs2)" by fastforce
      have "0 \<notin> set key" "0 \<notin> set val"
        using split_once_Some[OF s1[unfolded p]] split_once_Some[OF s2] by simp_all
      then have "no_nul (utf8_lossy (bytes_str key))" "no_nul (utf8_lossy (bytes_str val))"
        using utf8_lossy_nul bytes_str_nul unfolding no_nul_def by blast+
      moreover have "bytes_str key \<noteq> []" using False by (simp add: bytes_str_def)
      ultimately have "param_ok (utf8_lossy (bytes_str key), utf8_lossy (bytes_str val))"
        unfolding param_ok_def prod.case utf8_lossy_Nil using utf8_lossy_wf by blast
      then show ?thesis
        using "1.IH"[OF s1 p[symmetric] False s2 refl] "1.prems"(2) eq False by (simp add: s1 s2 p)
    qed
  qed
qed

text \<open>What the forwarded parameters keep: every parameter that is neither the token nor the
  options, in order.\<close>

definition other :: "string \<times> string \<Rightarrow> bool" where
  "other p \<longleftrightarrow> fst p \<noteq> TOKEN_PARAM \<and> fst p \<noteq> ''options''"

lemma options_not_token: "TOKEN_PARAM \<noteq> ''options''"
  by (simp add: TOKEN_PARAM_def)

lemma extract_params_fwd:
  "extract_params ps tok fwd = (tok', fwd') \<Longrightarrow>
     \<forall>p \<in> set ps. param_ok p \<Longrightarrow> \<forall>p \<in> set fwd. param_ok p \<and> fst p \<noteq> TOKEN_PARAM \<Longrightarrow>
     (\<forall>p \<in> set fwd'. param_ok p \<and> fst p \<noteq> TOKEN_PARAM) \<and> filter other fwd' = filter other fwd @ filter other ps"
proof (induction ps tok fwd rule: extract_params.induct)
  case (2 key val ps tok fwd)
  consider "key = TOKEN_PARAM" | "key \<noteq> TOKEN_PARAM" "key = ''options''"
    | "key \<noteq> TOKEN_PARAM" "key \<noteq> ''options''" by blast
  then show ?case
  proof cases
    case 1
    then have "extract_params ps (Some val) fwd = (tok', fwd')" using "2.prems"(1) by simp
    then show ?thesis using "2.IH"(1)[OF 1] "2.prems"(2,3) 1 by (simp add: other_def)
  next
    case o: 2
    have ok: "param_ok (key, val)" using "2.prems"(2) by simp
    obtain r rest where x: "extract_from_options val = (r, rest)" by fastforce
    show ?thesis
    proof (cases r)
      case None
      then show ?thesis using "2.IH"(2)[OF o x[symmetric] None] "2.prems" o x by (simp add: other_def)
    next
      case (Some v)
      have "rest \<noteq> [] \<Longrightarrow> param_ok (key, rest)"
        using ok extract_from_options_ok[of val v rest] x Some by (simp add: param_ok_def)
      then show ?thesis
        using "2.IH"(3)[OF o x[symmetric] Some] "2.prems" o x Some
        by (cases "rest = []") (simp_all add: other_def)
    qed
  next
    case 3
    then have "extract_params ps tok (fwd @ [(key, val)]) = (tok', fwd')" using "2.prems"(1) by simp
    then show ?thesis using "2.IH"(4)[OF 3] "2.prems"(2,3) 3 by (simp add: other_def)
  qed
qed simp

text \<open>The proxy token does not reach the guest as a startup parameter: whatever startup message
  the client sends, the parameters hostd forwards have no token parameter, keep every other
  parameter but the options in order, and are read by the guest exactly as they were forwarded.\<close>

theorem forwarded_startup:
  assumes "parse_startup frame = Some ps" "extract_token ps = Inr (token, fwd)"
  shows "parse_startup (build_startup fwd) = Some fwd \<and>
         (\<forall>p \<in> set fwd. fst p \<noteq> TOKEN_PARAM) \<and> filter other fwd = filter other ps"
proof -
  have ok: "\<forall>p \<in> set ps. param_ok p"
    using assms(1) parse_params_ok[of "[]"] by (simp add: parse_startup_def)
  have "extract_params ps None [] = (Some token, fwd)"
    using assms(2) by (auto simp: extract_token_def split: prod.splits option.splits)
  from extract_params_fwd[OF this ok]
  have "(\<forall>p \<in> set fwd. param_ok p \<and> fst p \<noteq> TOKEN_PARAM) \<and> filter other fwd = filter other ps" by simp
  then show ?thesis using parse_build[of fwd] by blast
qed

definition demo_token_params :: params where
  "demo_token_params = [(''user'', ''postgres''), (''tikovm_token'', ''jwt'')]"

lemma forwarded_startup_witness:
  "parse_startup (build_startup demo_token_params) = Some demo_token_params \<and>
   extract_token demo_token_params = Inr (''jwt'', demo_params) \<and>
   parse_startup (build_startup demo_params) = Some demo_params"
proof -
  have p: "parse_startup (build_startup demo_token_params) = Some demo_token_params"
    by (rule parse_build) (simp add: demo_token_params_def param_ok_def no_nul_def utf8_ok_ascii)
  have x: "extract_token demo_token_params = Inr (''jwt'', demo_params)"
    by (simp add: demo_token_params_def demo_params_def extract_token_def TOKEN_PARAM_def)
  show ?thesis using p x forwarded_startup[OF p x] by simp
qed

end
