(* ===== verification/Proxy.thy ===== *)
theory Proxy
  imports VmmOps PgRewrite Json
begin

text \<open>
  The proxy's two modes: tokens (\<open>hostd/src/proxy/token.rs\<close>), target resolution (\<open>target.rs\<close>), HTTP
  forwarding (\<open>http.rs\<close>), the dispatch of a connection (\<open>server.rs\<close>), and the Postgres session
  (\<open>tcp.rs\<close>, \<open>run\<close>).  The jsonwebtoken crate is a parameter (\<open>encode\<close>, \<open>decode\<close>), as are the answers
  of the guest.  Times are milliseconds since the epoch.
\<close>

section \<open>Tokens\<close>

definition DEFAULT_TTL_SECS :: nat where
  "DEFAULT_TTL_SECS = 15 * 60"

definition MAX_TTL_SECS :: nat where
  "MAX_TTL_SECS = 24 * 60 * 60"

datatype proto = ProtoHttp | ProtoTcp

record claims =
  cl_vm_id :: string
  cl_port :: u16
  cl_proto :: proto
  cl_iat :: nat
  cl_exp :: nat

datatype jwt_error = ExpiredSignature | OtherJwt string

definition mint ::
  "('k \<Rightarrow> claims \<Rightarrow> string + string) \<Rightarrow> 'k \<Rightarrow> vm_id \<Rightarrow> u16 \<Rightarrow> proto \<Rightarrow> nat \<Rightarrow> instant \<Rightarrow> (string \<times> instant) result" where
  "mint encode secret vm_id port proto ttl_secs now =
     (let ttl = min (max ttl_secs 1) MAX_TTL_SECS;
          expires_at = now + ttl * 1000;
          claims = \<lparr>cl_vm_id = vm_id, cl_port = port, cl_proto = proto,
                    cl_iat = now div 1000, cl_exp = expires_at div 1000\<rparr>
      in case encode secret claims of
           Inl e \<Rightarrow> Inl (ProxyToken e)
         | Inr token \<Rightarrow> Inr (token, expires_at))"

definition verify :: "('k \<Rightarrow> string \<Rightarrow> instant \<Rightarrow> jwt_error + claims) \<Rightarrow> 'k \<Rightarrow> string \<Rightarrow> instant \<Rightarrow> claims result" where
  "verify decode secret token now =
     (case decode secret token now of
        Inr c \<Rightarrow> Inr c
      | Inl ExpiredSignature \<Rightarrow> Inl (ProxyToken ''token expired'')
      | Inl (OtherJwt e) \<Rightarrow> Inl (ProxyToken (''invalid token: '' @ e)))"

section \<open>The target of a request\<close>

record proxy_error =
  pe_status :: nat
  pe_message :: string

definition proxy_error_new :: "nat \<Rightarrow> string \<Rightarrow> proxy_error" where
  "proxy_error_new status message = \<lparr>pe_status = status, pe_message = message\<rparr>"

text \<open>The check against the live instance, under its lock.\<close>

definition validate_target :: "inst_ref \<Rightarrow> u16 \<Rightarrow> 'h vmm \<Rightarrow> proxy_error + u32" where
  "validate_target r port v =
     (case inst v r of
        None \<Rightarrow> Inl (proxy_error_new 500 ''lock error'')
      | Some i \<Rightarrow>
          if vi_state i \<noteq> Started
          then Inl (proxy_error_new 409 (''vm is not running (state: '' @ debug_vm_state (vi_state i) @ '')''))
          else if \<not> list_ex (\<lambda>p. ep_port p = port) (exposed_ports (vc_network_config (vi_vm_config i)))
          then Inl (proxy_error_new 403 (''port '' @ dec (unat port) @ '' is no longer exposed on this vm''))
          else (case vi_net i of
                  None \<Rightarrow> Inl (proxy_error_new 503 ''vm has no guest ip'')
                | Some net \<Rightarrow> Inr (vn_guest_ip net)))"

text \<open>The probing of a port after a wake-up: attempt \<open>k\<close> is made at \<open>clock k\<close>, 200 ms apart.\<close>

definition wait_for_port ::
  "(nat \<Rightarrow> string + unit) \<Rightarrow> (nat \<Rightarrow> instant) \<Rightarrow> instant \<Rightarrow> u16 \<Rightarrow> (nat \<times> (proxy_error + unit)) option" where
  "wait_for_port connect clock began port = poll_loop (\<lambda>k.
     case connect k of
       Inr _ \<Rightarrow> Some (Inr ())
     | Inl e \<Rightarrow>
         if clock k < began + 10000 then None
         else Some (Inl (proxy_error_new 502
                (''guest port '' @ dec (unat port) @ '' did not come up after wake: '' @ e)))) 0"

text \<open>\<open>wake\<close> is the whole of \<open>ensure_started\<close>, \<open>ready\<close> the outcome of \<open>wait_for_port\<close>.\<close>

definition resolve_target ::
  "('h vmm \<Rightarrow> 'h vmm \<times> unit result) \<Rightarrow> (proxy_error + unit) \<Rightarrow> claims \<Rightarrow> 'h vmm \<Rightarrow> 'h vmm \<times> (proxy_error + u32)" where
  "resolve_target wake ready claims v =
     (let vm_id = cl_vm_id claims in
      case get_vm vm_id v of
        None \<Rightarrow> (v, Inl (proxy_error_new 404 ''vm not found''))
      | Some r \<Rightarrow>
          (case inst v r of
             None \<Rightarrow> (v, Inl (proxy_error_new 500 ''lock error''))
           | Some i \<Rightarrow>
               let state = vi_state i;
                   woken = (if state = Suspended \<or> state = Suspending \<or> state = Restoring then wake v else (v, Inr ()))
               in (case woken of
                     (v1, Inl e) \<Rightarrow> (v1, Inl (proxy_error_new 409 (error_display e)))
                   | (v1, Inr _) \<Rightarrow>
                       (case validate_target r (cl_port claims) v1 of
                          Inl e \<Rightarrow> (v1, Inl e)
                        | Inr ip \<Rightarrow>
                            if state \<noteq> Started
                            then (v1, (case ready of Inl e \<Rightarrow> Inl e | Inr _ \<Rightarrow> Inr ip))
                            else (v1, Inr ip)))))"

section \<open>HTTP\<close>

text \<open>Headers are pairs of a lower-case name and a value, in the order of the header map.\<close>

type_synonym headers = "(string \<times> string) list"

text \<open>\<open>HeaderValue::to_str\<close> refuses a value with a character outside visible ASCII and the tab.\<close>

definition header_text :: "string \<Rightarrow> string option" where
  "header_text s =
     (if list_all (\<lambda>c. (of_char c :: nat) = 9 \<or> (32 \<le> (of_char c :: nat) \<and> (of_char c :: nat) < 127)) s
      then Some s else None)"

definition bearer_token :: "headers \<Rightarrow> string option" where
  "bearer_token headers =
     Option.bind (map_of headers ''authorization'') (\<lambda>value.
     Option.bind (header_text value) (strip_prefix ''Bearer ''))"

definition STRIPPED_REQUEST_HEADERS :: "string list" where
  "STRIPPED_REQUEST_HEADERS =
     [''host'', ''authorization'', ''connection'', ''keep-alive'', ''proxy-authenticate'',
      ''proxy-authorization'', ''te'', ''trailer'', ''transfer-encoding'', ''upgrade'']"

definition STRIPPED_RESPONSE_HEADERS :: "string list" where
  "STRIPPED_RESPONSE_HEADERS =
     [''connection'', ''keep-alive'', ''proxy-authenticate'', ''proxy-authorization'', ''te'',
      ''trailer'', ''transfer-encoding'', ''upgrade'']"

record http_request =
  rq_method :: string
  rq_path_and_query :: "string option"
  rq_headers :: headers
  rq_body :: bytes

record upstream_request =
  up_method :: string
  up_uri :: string
  up_headers :: headers
  up_body :: bytes

record http_response =
  rs_status :: nat
  rs_headers :: headers
  rs_body :: bytes

definition authenticate ::
  "('k \<Rightarrow> string \<Rightarrow> instant \<Rightarrow> jwt_error + claims) \<Rightarrow> 'k \<Rightarrow> instant \<Rightarrow> http_request \<Rightarrow> proxy_error + claims" where
  "authenticate decode secret now req =
     (case bearer_token (rq_headers req) of
        None \<Rightarrow> Inl (proxy_error_new 401 ''missing bearer token'')
      | Some token \<Rightarrow>
          (case verify decode secret token now of
             Inl e \<Rightarrow> Inl (proxy_error_new 401 (error_display e))
           | Inr claims \<Rightarrow>
               if cl_proto claims \<noteq> ProtoHttp
               then Inl (proxy_error_new 400 ''token is not valid for HTTP proxying'')
               else Inr claims))"

definition upstream_of :: "u32 \<Rightarrow> u16 \<Rightarrow> http_request \<Rightarrow> upstream_request" where
  "upstream_of guest_ip port req =
     (let authority = ipv4_display guest_ip @ '':'' @ dec (unat port);
          path_and_query = (case rq_path_and_query req of None \<Rightarrow> ''/'' | Some pq \<Rightarrow> pq)
      in \<lparr>up_method = rq_method req, up_uri = ''http://'' @ authority @ path_and_query,
          up_headers = filter (\<lambda>(name, _). name \<notin> set STRIPPED_REQUEST_HEADERS) (rq_headers req)
                       @ [(''host'', authority)],
          up_body = rq_body req\<rparr>)"

definition response_of :: "http_response \<Rightarrow> http_response" where
  "response_of resp =
     resp\<lparr>rs_headers := filter (\<lambda>(name, _). name \<notin> set STRIPPED_RESPONSE_HEADERS) (rs_headers resp)\<rparr>"

definition http_error_response :: "proxy_error \<Rightarrow> http_response" where
  "http_error_response err =
     \<lparr>rs_status = pe_status err, rs_headers = [(''content-type'', ''application/json'')],
      rs_body = str_bytes (json_text (JObj [(''error'',
        JObj [(''code'', JNum (int (pe_status err))), (''message'', JStr (pe_message err))])]))\<rparr>"

text \<open>What the outside does during one request: the clock when it arrives and when it ends, the wake-up,
  the readiness of the port, and the guest's answer.\<close>

record 'h proxy_env =
  px_now :: instant
  px_end :: instant
  px_wake :: "'h vmm \<Rightarrow> 'h vmm \<times> unit result"
  px_ready :: "proxy_error + unit"
  px_upstream :: "upstream_request \<Rightarrow> string + http_response"

definition with_activity :: "(tracker \<Rightarrow> tracker) \<Rightarrow> 'h vmm \<Rightarrow> 'h vmm" where
  "with_activity f v = v\<lparr>fm_activity := f (fm_activity v)\<rparr>"

text \<open>\<open>forward\<close>: the third component is the request that reached the guest, if one did.  On an error the
  guard is dropped; otherwise it lives in the response's body.\<close>

definition forward ::
  "('k \<Rightarrow> string \<Rightarrow> instant \<Rightarrow> jwt_error + claims) \<Rightarrow> 'k \<Rightarrow> 'h proxy_env \<Rightarrow> http_request \<Rightarrow> 'h vmm \<Rightarrow>
   'h vmm \<times> (proxy_error + http_response) \<times> upstream_request option" where
  "forward decode secret env req v =
     (case authenticate decode secret (px_now env) req of
        Inl e \<Rightarrow> (v, Inl e, None)
      | Inr claims \<Rightarrow>
          let v1 = with_activity (track (px_now env) (cl_vm_id claims)) v;
              give_up = with_activity (guard_drop (px_end env) (cl_vm_id claims))
          in (case resolve_target (px_wake env) (px_ready env) claims v1 of
                (v2, Inl e) \<Rightarrow> (give_up v2, Inl e, None)
              | (v2, Inr guest_ip) \<Rightarrow>
                  let up = upstream_of guest_ip (cl_port claims) req
                  in (case px_upstream env up of
                        Inl e \<Rightarrow> (give_up v2, Inl (proxy_error_new 502
                                   (''failed to reach guest port '' @ dec (unat (cl_port claims)) @ '': '' @ e)), Some up)
                      | Inr resp \<Rightarrow> (v2, Inr (response_of resp), Some up))))"

definition http_handle ::
  "('k \<Rightarrow> string \<Rightarrow> instant \<Rightarrow> jwt_error + claims) \<Rightarrow> 'k \<Rightarrow> 'h proxy_env \<Rightarrow> http_request \<Rightarrow> 'h vmm \<Rightarrow>
   'h vmm \<times> http_response \<times> upstream_request option" where
  "http_handle decode secret env req v =
     (case forward decode secret env req v of
        (v', Inl e, up) \<Rightarrow> (v', http_error_response e, up)
      | (v', Inr resp, up) \<Rightarrow> (v', resp, up))"

section \<open>The Postgres session\<close>

text \<open>\<open>run\<close>: the bytes that reached the guest before the splice are the third component.\<close>

definition pg_run ::
  "('k \<Rightarrow> string \<Rightarrow> instant \<Rightarrow> jwt_error + claims) \<Rightarrow> 'k \<Rightarrow> 'h proxy_env \<Rightarrow> string \<Rightarrow> (bytes \<Rightarrow> string option) \<Rightarrow>
   (u32 \<Rightarrow> u16 \<Rightarrow> string + unit) \<Rightarrow> (string option) \<Rightarrow> bytes \<Rightarrow> 'h vmm \<Rightarrow> 'h vmm \<times> (string + unit) \<times> (u32 \<times> bytes) option" where
  "pg_run decode secret env eof werr connect forward_err inp v =
     (case negotiate eof werr inp [] of
        (Inl e, _, _) \<Rightarrow> (v, Inl e, None)
      | (Inr frame, _, _) \<Rightarrow>
          (case parse_startup frame of
             None \<Rightarrow> (v, Inl ''malformed startup message'', None)
           | Some params \<Rightarrow>
          (case extract_token params of
             Inl e \<Rightarrow> (v, Inl e, None)
           | Inr (token, forwarded) \<Rightarrow>
          (case verify decode secret token (px_now env) of
             Inl e \<Rightarrow> (v, Inl (error_display e), None)
           | Inr claims \<Rightarrow>
               if cl_proto claims \<noteq> ProtoTcp then (v, Inl ''token is not valid for TCP proxying'', None)
               else
                 let v1 = with_activity (track (px_now env) (cl_vm_id claims)) v;
                     finish = with_activity (guard_drop (px_end env) (cl_vm_id claims))
                 in (case resolve_target (px_wake env) (px_ready env) claims v1 of
                       (v2, Inl e) \<Rightarrow> (finish v2, Inl (pe_message e), None)
                     | (v2, Inr guest_ip) \<Rightarrow>
                         (case connect guest_ip (cl_port claims) of
                            Inl e \<Rightarrow> (finish v2, Inl (''failed to reach guest port '' @ dec (unat (cl_port claims)) @
                                       '': '' @ e), None)
                          | Inr _ \<Rightarrow>
                              (case forward_err of
                                 Some e \<Rightarrow> (finish v2, Inl (''forward startup message: '' @ e), None)
                               | None \<Rightarrow> (finish v2, Inr (), Some (guest_ip, build_startup forwarded)))))))))"

text \<open>\<open>handle\<close>: what is written to the client when the session is refused.\<close>

definition pg_reply :: "string + unit \<Rightarrow> bytes" where
  "pg_reply r = (case r of Inl message \<Rightarrow> error_response message | Inr _ \<Rightarrow> [])"

section \<open>Dispatch\<close>

text \<open>One \<open>peek\<close> after another: each gives the bytes that have arrived, at most eight.\<close>

definition sniff_poll :: "string + bytes \<Rightarrow> (string + bytes) option" where
  "sniff_poll peeked =
     (case peeked of
        Inl e \<Rightarrow> Some (Inl e)
      | Inr bs \<Rightarrow>
          if bs = [] then Some (Inl ''peer closed'')
          else if 8 \<le> length bs then Some (Inr (take 8 bs))
          else None)"

definition sniff_prefix :: "(nat \<Rightarrow> string + bytes) \<Rightarrow> (nat \<times> (string + bytes)) option" where
  "sniff_prefix peek = poll_loop (\<lambda>k. sniff_poll (peek k)) 0"

datatype mode = PostgresMode | HttpMode | NoMode

definition dispatch :: "(nat \<Rightarrow> string + bytes) \<Rightarrow> mode option" where
  "dispatch peek =
     map_option (\<lambda>(k, r). case r of
         Inr prefix \<Rightarrow> if looks_like_postgres prefix then PostgresMode else HttpMode
       | Inl _ \<Rightarrow> NoMode) (sniff_prefix peek)"

section \<open>Tokens: what is minted verifies until it expires\<close>

text \<open>The documented behaviour of \<open>jsonwebtoken\<close> with no leeway: under the same key a token decodes to the
  claims it was made from, until the second after its expiry.\<close>

definition jwt_law :: "('k \<Rightarrow> claims \<Rightarrow> string + string) \<Rightarrow> ('k \<Rightarrow> string \<Rightarrow> instant \<Rightarrow> jwt_error + claims) \<Rightarrow> bool" where
  "jwt_law encode decode \<longleftrightarrow> (\<forall>k c t now. encode k c = Inr t \<longrightarrow>
     decode k t now = (if cl_exp c < now div 1000 then Inl ExpiredSignature else Inr c))"

text \<open>A minted token verifies to the VM, port and protocol it was minted for, from then on until its
  expiry and not a second longer; its lifetime is what was asked for, brought into the range of one
  second to a day.\<close>

theorem minted_token_verifies:
  assumes "jwt_law encode decode" "mint encode secret vm port pr ttl now = Inr (token, expires_at)"
  shows "\<exists>c. cl_vm_id c = vm \<and> cl_port c = port \<and> cl_proto c = pr \<and>
    cl_exp c = cl_iat c + min (max ttl 1) MAX_TTL_SECS \<and> expires_at div 1000 = cl_exp c \<and>
    (\<forall>later. verify decode secret token later =
       (if later div 1000 \<le> cl_exp c then Inr c else Inl (ProxyToken ''token expired'')))"
proof -
  let ?ttl = "min (max ttl 1) MAX_TTL_SECS"
  let ?c = "\<lparr>cl_vm_id = vm, cl_port = port, cl_proto = pr, cl_iat = now div 1000, cl_exp = (now + ?ttl * 1000) div 1000\<rparr>"
  have enc: "encode secret ?c = Inr token" "expires_at = now + ?ttl * 1000"
    using assms(2) by (auto simp: mint_def Let_def split: sum.splits)
  have "verify decode secret token later =
      (if later div 1000 \<le> cl_exp ?c then Inr ?c else Inl (ProxyToken ''token expired''))" for later
    using assms(1)[unfolded jwt_law_def] enc(1) by (auto simp: verify_def simp del: claims.simps)
  then show ?thesis using enc(2) by (intro exI[of _ ?c]) simp
qed

section \<open>Only live targets\<close>

lemma validate_target_Inr:
  "validate_target r port v = Inr ip \<longleftrightarrow> (\<exists>i net. inst v r = Some i \<and> vi_state i = Started \<and>
     port_exposed (vc_network_config (vi_vm_config i)) port \<and> vi_net i = Some net \<and> ip = vn_guest_ip net)"
  by (auto simp: validate_target_def port_exposed_def split: option.splits)

lemma resolve_target_Inr:
  assumes "resolve_target wake ready c v = (v', Inr ip)"
  shows "\<exists>r i net. get_vm (cl_vm_id c) v = Some r \<and> inst v' r = Some i \<and> vi_state i = Started \<and>
    port_exposed (vc_network_config (vi_vm_config i)) (cl_port c) \<and> vi_net i = Some net \<and> ip = vn_guest_ip net"
proof -
  obtain r i where r: "get_vm (cl_vm_id c) v = Some r" "inst v r = Some i"
    using assms by (auto simp: resolve_target_def Let_def split: option.splits)
  obtain v1 w where w: "(if vi_state i = Suspended \<or> vi_state i = Suspending \<or> vi_state i = Restoring
      then wake v else (v, Inr ())) = (v1, w)" by (meson surj_pair)
  from assms have "validate_target r (cl_port c) v1 = Inr ip \<and> v' = v1"
    unfolding resolve_target_def Let_def r option.case w
    by (auto split: sum.splits if_splits)
  then show ?thesis using r(1) by (auto simp: validate_target_Inr)
qed

text \<open>C10: A request reaches a guest only with a bearer token that verifies and is meant for HTTP, and only
  the guest of the VM and port the token names, while that VM is started and still exposes that port;
  otherwise nothing is sent to any guest.\<close>

theorem http_forward_authorized:
  assumes "forward decode secret env req v = (v', r, Some up)"
  shows "\<exists>token c ref i net u. bearer_token (rq_headers req) = Some token \<and>
    verify decode secret token (px_now env) = Inr c \<and> cl_proto c = ProtoHttp \<and>
    get_vm (cl_vm_id c) v = Some ref \<and> inst u ref = Some i \<and> vi_state i = Started \<and>
    port_exposed (vc_network_config (vi_vm_config i)) (cl_port c) \<and> vi_net i = Some net \<and>
    (v' = u \<or> v' = with_activity (guard_drop (px_end env) (cl_vm_id c)) u) \<and>
    up = upstream_of (vn_guest_ip net) (cl_port c) req"
proof -
  obtain c where c: "authenticate decode secret (px_now env) req = Inr c"
    using assms by (auto simp: forward_def split: sum.splits)
  let ?v1 = "with_activity (track (px_now env) (cl_vm_id c)) v"
  obtain u ip where t: "resolve_target (px_wake env) (px_ready env) c ?v1 = (u, Inr ip)"
      and up: "up = upstream_of ip (cl_port c) req"
      and v': "v' = u \<or> v' = with_activity (guard_drop (px_end env) (cl_vm_id c)) u"
    using assms by (auto simp: forward_def c Let_def split: prod.splits sum.splits)
  have get: "get_vm vm ?v1 = get_vm vm v" for vm by (simp add: get_vm_def with_activity_def)
  obtain token where "bearer_token (rq_headers req) = Some token"
      "verify decode secret token (px_now env) = Inr c" "cl_proto c = ProtoHttp"
    using c by (auto simp: authenticate_def split: option.splits sum.splits if_splits)
  with resolve_target_Inr[OF t] v' up show ?thesis unfolding get by blast
qed


text \<open>Whatever headers the client sends, what reaches the guest has no credential and no hop-by-hop
  header, exactly one \<open>host\<close> header, the guest's own, and every other header as the client sent it, in
  its order.\<close>

theorem upstream_headers_clean:
  "filter (\<lambda>(name, _). name = ''host'') (up_headers (upstream_of ip port req)) =
     [(''host'', ipv4_display ip @ '':'' @ dec (unat port))] \<and>
   filter (\<lambda>(name, _). name \<noteq> ''host'' \<and> name \<in> set STRIPPED_REQUEST_HEADERS) (up_headers (upstream_of ip port req)) = [] \<and>
   filter (\<lambda>(name, _). name \<notin> set STRIPPED_REQUEST_HEADERS) (up_headers (upstream_of ip port req)) =
     filter (\<lambda>(name, _). name \<notin> set STRIPPED_REQUEST_HEADERS) (rq_headers req)"
proof (intro conjI)
  let ?kept = "filter (\<lambda>(name, _). name \<notin> set STRIPPED_REQUEST_HEADERS) (rq_headers req)"
  have up: "up_headers (upstream_of ip port req) = ?kept @ [(''host'', ipv4_display ip @ '':'' @ dec (unat port))]"
    by (simp add: upstream_of_def Let_def)
  have host: "''host'' \<in> set STRIPPED_REQUEST_HEADERS" by (simp add: STRIPPED_REQUEST_HEADERS_def)
  have kept: "filter (\<lambda>(name, _). P name) ?kept = []" if "\<And>name. P name \<Longrightarrow> name \<in> set STRIPPED_REQUEST_HEADERS" for P
    using that by (auto simp: filter_empty_conv)
  show "filter (\<lambda>(name, _). name = ''host'') (up_headers (upstream_of ip port req)) =
     [(''host'', ipv4_display ip @ '':'' @ dec (unat port))]"
    using kept[of "\<lambda>n. n = ''host''"] host by (simp add: up)
  show "filter (\<lambda>(name, _). name \<noteq> ''host'' \<and> name \<in> set STRIPPED_REQUEST_HEADERS) (up_headers (upstream_of ip port req)) = []"
    using kept[of "\<lambda>n. n \<noteq> ''host'' \<and> n \<in> set STRIPPED_REQUEST_HEADERS"] by (simp add: up)
  show "filter (\<lambda>(name, _). name \<notin> set STRIPPED_REQUEST_HEADERS) (up_headers (upstream_of ip port req)) = ?kept"
    using host by (auto simp: up case_prod_beta intro!: filter_cong)
qed

section \<open>Guards\<close>

lemma in_flight_track: "in_flight (track now vm t) u = in_flight t u + (if u = vm then 1 else 0)"
  by (auto simp: in_flight_def track_def activity_default_def Let_def map_simps split: option.splits)

lemma in_flight_drop: "in_flight (guard_drop now vm t) u = in_flight t u - (if u = vm then 1 else 0)"
  by (auto simp: in_flight_def guard_drop_def map_simps split: option.splits)

lemma resolve_target_activity:
  assumes "resolve_target wake ready c v = (v', r)" "\<And>u. fm_activity (fst (wake u)) = fm_activity u"
  shows "fm_activity v' = fm_activity v"
proof -
  have w: "fm_activity v1 = fm_activity v" if "wake v = (v1, x)" for v1 x
    using that assms(2)[of v] by simp
  show ?thesis using assms(1) unfolding resolve_target_def Let_def
    by (auto split: option.splits prod.splits sum.splits if_splits dest: w)
qed

text \<open>A request counts as in flight exactly while it is served: after an error the count is what it
  was before the request, after a response it is one higher until the body is dropped.\<close>

theorem request_guard_balanced:
  assumes "forward decode secret env req v = (v', r, up)"
    and "\<And>u. fm_activity (fst (px_wake env u)) = fm_activity u"
  shows "case r of
      Inl _ \<Rightarrow> in_flight (fm_activity v') u = in_flight (fm_activity v) u
    | Inr _ \<Rightarrow> \<exists>c. authenticate decode secret (px_now env) req = Inr c \<and>
        in_flight (fm_activity v') u = in_flight (fm_activity v) u + (if u = cl_vm_id c then 1 else 0) \<and>
        in_flight (guard_drop later (cl_vm_id c) (fm_activity v')) u = in_flight (fm_activity v) u"
proof (cases "authenticate decode secret (px_now env) req")
  case (Inl e)
  then show ?thesis using assms(1) by (auto simp: forward_def)
next
  case (Inr c)
  let ?v1 = "with_activity (track (px_now env) (cl_vm_id c)) v"
  obtain v2 t where t: "resolve_target (px_wake env) (px_ready env) c ?v1 = (v2, t)" by (meson surj_pair)
  have act: "fm_activity v2 = track (px_now env) (cl_vm_id c) (fm_activity v)"
    using resolve_target_activity[OF t assms(2)] by (simp add: with_activity_def)
  have "(\<exists>e. r = Inl e \<and> v' = with_activity (guard_drop (px_end env) (cl_vm_id c)) v2) \<or> (\<exists>x. r = Inr x \<and> v' = v2)"
    using assms(1) by (auto simp: forward_def Inr t Let_def split: sum.splits)
  then show ?thesis using Inr
    by (auto simp: with_activity_def act in_flight_track in_flight_drop)
qed

section \<open>Revocation\<close>

text \<open>Removing an exposed port revokes the tokens for it at once: as long as the port is not added
  again, whatever else happens to the VM's registry, a request with such a token for the running VM
  is answered 403, and the guest's address is not given out.\<close>

theorem revoked_port_rejected:
  assumes "get_vm (cl_vm_id c) v = Some ref" "inst v ref = Some i" "vi_state i = Started"
    and "ports_ok cfg" "\<forall>p. Inl p \<in> set ops \<longrightarrow> ep_port p \<noteq> cl_port c"
    and "vc_network_config (vi_vm_config i) =
      run_registry (\<lambda>cfg. add_exposed_port cfg (cl_vm_id c)) (\<lambda>cfg. remove_exposed_port cfg (cl_vm_id c)) cfg
        (Inr (cl_port c) # ops)"
  shows "resolve_target wake ready c v =
    (v, Inl (proxy_error_new 403 (''port '' @ dec (unat (cl_port c)) @ '' is no longer exposed on this vm'')))"
proof -
  have "\<not> port_exposed (vc_network_config (vi_vm_config i)) (cl_port c)"
    unfolding assms(6) by (rule ports.revoked[OF assms(4,5)])
  then show ?thesis using assms(1-3)
    by (simp add: resolve_target_def validate_target_def port_exposed_def Let_def)
qed

section \<open>Sniffing\<close>

lemma sniff_poll_None: "sniff_poll r = None \<longleftrightarrow> (\<exists>bs. r = Inr bs \<and> bs \<noteq> [] \<and> length bs < 8)"
  by (auto simp: sniff_poll_def not_le split: sum.split)

text \<open>The probing of a port ends within ten seconds, give or take one sleep of 200 ms.\<close>

lemma wait_for_port_ends:
  assumes "\<And>k. began + 200 * k \<le> clock k"
  shows "\<exists>k r. wait_for_port connect clock began port = Some (k, r) \<and> k \<le> 50"
proof -
  let ?probe = "\<lambda>k. case connect k of
       Inr _ \<Rightarrow> Some (Inr ())
     | Inl e \<Rightarrow>
         if clock k < began + 10000 then None
         else Some (Inl (proxy_error_new 502 (''guest port '' @ dec (unat port) @ '' did not come up after wake: '' @ e)))"
  have "?probe 50 \<noteq> None" using assms[of 50] by (auto split: sum.split)
  then show ?thesis unfolding wait_for_port_def by (rule poll_loop_decides[where probe = ?probe]) blast
qed

text \<open>C37: A connection is given to one of the two modes as soon as eight bytes have arrived, and never
  when fewer have: as a peek consumes nothing, it keeps finding the first bytes, and a client that
  sends between one and seven bytes, even one that then closes, is peeked at forever.\<close>

theorem sniffing_stuck_iff:
  "dispatch peek = None \<longleftrightarrow> (\<forall>k. \<exists>bs. peek k = Inr bs \<and> bs \<noteq> [] \<and> length bs < 8)"
  unfolding dispatch_def sniff_prefix_def sniff_poll_None[symmetric] poll_loop_None[symmetric] by simp

section \<open>The properties on a concrete request\<close>

text \<open>A token format that satisfies the law: the claims in decimal, checked against a key.\<close>

definition demo_claims :: claims where
  "demo_claims = \<lparr>cl_vm_id = ''vm-a'', cl_port = 8080, cl_proto = ProtoHttp, cl_iat = 100, cl_exp = 160\<rparr>"

definition demo_encode :: "nat \<Rightarrow> claims \<Rightarrow> string + string" where
  "demo_encode k c = (if c = demo_claims then Inr ''t'' else Inl ''unsupported'')"

definition demo_decode :: "nat \<Rightarrow> string \<Rightarrow> instant \<Rightarrow> jwt_error + claims" where
  "demo_decode k t now =
     (if t \<noteq> ''t'' then Inl (OtherJwt ''InvalidToken'')
      else if cl_exp demo_claims < now div 1000 then Inl ExpiredSignature else Inr demo_claims)"

lemma demo_jwt_law: "jwt_law demo_encode demo_decode"
  by (auto simp: jwt_law_def demo_encode_def demo_decode_def split: if_splits)

lemma minted_token_verifies_witness:
  "\<exists>c. cl_exp c = cl_iat c + 60 \<and> verify demo_decode 0 ''t'' 160999 = Inr c \<and>
     verify demo_decode 0 ''t'' 161000 = Inl (ProxyToken ''token expired'')"
proof -
  have "mint demo_encode 0 ''vm-a'' 8080 ProtoHttp 60 100000 = Inr (''t'', 160000)"
    by (simp add: mint_def demo_encode_def demo_claims_def MAX_TTL_SECS_def Let_def)
  from minted_token_verifies[OF demo_jwt_law this] obtain c where c: "cl_exp c = cl_iat c + min (max 60 1) MAX_TTL_SECS"
    "160000 div 1000 = cl_exp c" "\<forall>later. verify demo_decode 0 ''t'' later =
       (if later div 1000 \<le> cl_exp c then Inr c else Inl (ProxyToken ''token expired''))" by blast
  then show ?thesis by (intro exI[of _ c]) (simp add: MAX_TTL_SECS_def)
qed

definition demo_port_inst :: vm_instance where
  "demo_port_inst = demo_inst\<lparr>vi_vm_config := demo_config\<lparr>vc_network_config :=
     (vc_network_config demo_config)\<lparr>exposed_ports := [\<lparr>ep_port = 8080, ep_label = ''web''\<rparr>]\<rparr>\<rparr>\<rparr>"

definition demo_exposed :: "unit vmm" where
  "demo_exposed = demo_running\<lparr>fm_heap := [(0, demo_port_inst)]\<rparr>"

definition demo_env_http :: "unit proxy_env" where
  "demo_env_http = \<lparr>px_now = 120000, px_end = 121000, px_wake = (\<lambda>v. (v, Inr ())), px_ready = Inr (),
     px_upstream = (\<lambda>_. Inr \<lparr>rs_status = 200, rs_headers = [], rs_body = []\<rparr>)\<rparr>"

definition demo_req :: http_request where
  "demo_req = \<lparr>rq_method = ''GET'', rq_path_and_query = Some ''/'', rq_headers = [(''authorization'', ''Bearer t'')],
     rq_body = []\<rparr>"

lemma demo_authenticated: "authenticate demo_decode 0 120000 demo_req = Inr demo_claims"
proof -
  have "bearer_token [(''authorization'', ''Bearer t'')] = Some ''t''"
    by (simp add: bearer_token_def header_text_def strip_prefix_def)
  then show ?thesis by (simp add: authenticate_def demo_req_def verify_def demo_decode_def demo_claims_def)
qed

lemma demo_forwarded:
  "\<exists>v' r. forward demo_decode 0 demo_env_http demo_req demo_exposed = (v', Inr r, Some (upstream_of 0x0A000002 8080 demo_req))"
  using demo_authenticated
  by (simp add: forward_def demo_env_http_def Let_def resolve_target_def demo_claims_def get_vm_def with_activity_def
      demo_exposed_def demo_running_def inst_def fc_entry_new_def demo_port_inst_def demo_inst_def validate_target_def
      vm_net_new_def)

lemma http_forward_authorized_witness:
  "\<exists>v' r c. forward demo_decode 0 demo_env_http demo_req demo_exposed = (v', Inr r, Some (upstream_of 0x0A000002 8080 demo_req))
     \<and> verify demo_decode 0 ''t'' 120000 = Inr c \<and> cl_proto c = ProtoHttp"
proof -
  obtain v' r where f: "forward demo_decode 0 demo_env_http demo_req demo_exposed =
      (v', Inr r, Some (upstream_of 0x0A000002 8080 demo_req))" using demo_forwarded by blast
  have "bearer_token (rq_headers demo_req) = Some ''t''"
    by (simp add: demo_req_def bearer_token_def header_text_def strip_prefix_def)
  with http_forward_authorized[OF f] f show ?thesis by (auto simp: demo_env_http_def)
qed

definition demo_tcp_claims :: claims where
  "demo_tcp_claims = \<lparr>cl_vm_id = ''vm-a'', cl_port = 8080, cl_proto = ProtoTcp, cl_iat = 100, cl_exp = 160\<rparr>"


lemma request_guard_balanced_witness:
  "\<exists>v' r up. forward demo_decode 0 demo_env_http demo_req demo_exposed = (v', Inr r, up) \<and>
     in_flight (fm_activity v') ''vm-a'' = 1 \<and> in_flight (guard_drop 5 ''vm-a'' (fm_activity v')) ''vm-a'' = 0"
proof -
  obtain v' r where f: "forward demo_decode 0 demo_env_http demo_req demo_exposed =
      (v', Inr r, Some (upstream_of 0x0A000002 8080 demo_req))" using demo_forwarded by blast
  have "\<And>u. fm_activity (fst (px_wake demo_env_http u)) = fm_activity u" by (simp add: demo_env_http_def)
  from request_guard_balanced[OF f this, of "''vm-a''" 5] obtain c where
    c: "authenticate demo_decode 0 120000 demo_req = Inr c"
      "in_flight (fm_activity v') ''vm-a'' = in_flight (fm_activity demo_exposed) ''vm-a'' + (if ''vm-a'' = cl_vm_id c then 1 else 0)"
      "in_flight (guard_drop 5 (cl_vm_id c) (fm_activity v')) ''vm-a'' = in_flight (fm_activity demo_exposed) ''vm-a''"
    by (auto simp: demo_env_http_def)
  have "c = demo_claims" using c(1) demo_authenticated by simp
  moreover have "in_flight (fm_activity demo_exposed) ''vm-a'' = 0"
    by (simp add: demo_exposed_def demo_running_def demo_vmm_def in_flight_def)
  ultimately show ?thesis using c(2,3) f by (simp add: demo_claims_def)
qed

lemma revoked_port_rejected_witness:
  "resolve_target (\<lambda>v. (v, Inr ())) (Inr ()) demo_claims demo_running =
     (demo_running, Inl (proxy_error_new 403 (''port '' @ dec (unat (8080 :: u16)) @ '' is no longer exposed on this vm'')))"
proof -
  let ?cfg = "vc_network_config (vi_vm_config demo_port_inst)"
  have get: "get_vm (cl_vm_id demo_claims) demo_running = Some 0"
    by (simp add: get_vm_def demo_claims_def demo_running_def fc_entry_new_def)
  have inst: "inst demo_running 0 = Some demo_inst" by (simp add: inst_def demo_running_def)
  have st: "vi_state demo_inst = Started" by (simp add: demo_inst_def)
  have ok: "ports_ok ?cfg" by (simp add: ports_ok_def demo_port_inst_def)
  have hist: "vc_network_config (vi_vm_config demo_inst) =
      run_registry (\<lambda>cfg. add_exposed_port cfg (cl_vm_id demo_claims)) (\<lambda>cfg. remove_exposed_port cfg (cl_vm_id demo_claims))
        ?cfg (Inr (cl_port demo_claims) # [])"
    by (simp add: demo_inst_def demo_port_inst_def demo_config_def remove_exposed_port_def demo_claims_def)
  from revoked_port_rejected[OF get inst st ok _ hist, of "\<lambda>v. (v, Inr ())" "Inr ()"]
  show ?thesis by (simp add: demo_claims_def)
qed

lemma sniffing_stuck_iff_witness:
  "dispatch (\<lambda>_. Inr (str_bytes ''GET'')) = None \<and> dispatch (\<lambda>_. Inr []) \<noteq> None"
  unfolding sniffing_stuck_iff by (auto simp: str_bytes_def)

end
