(* ===== verification/Api.thy ===== *)
theory Api
  imports Proxy
begin

unbundle bit_operations_syntax

text \<open>
  The management API (\<open>hostd/src/api\<close>): the bearer token every request needs (\<open>server.rs\<close>), the
  status of an error (\<open>error.rs\<close>), and the handlers of the routes (\<open>routes/*.rs\<close>).  The route
  tables and the texts of the answers are in \<open>Routes\<close>; a handler is a function of the decoded arguments
  and of the calls it makes on the \<open>Vmm\<close> trait (\<open>vmm/mod.rs\<close>), each from start to end.
\<close>

section \<open>Errors\<close>

record api_error =
  ar_status :: nat
  ar_message :: string

definition api_error_new :: "nat \<Rightarrow> string \<Rightarrow> api_error" where
  "api_error_new status message = \<lparr>ar_status = status, ar_message = message\<rparr>"

definition api_internal :: "string \<Rightarrow> api_error" where
  "api_internal message = api_error_new 500 message"

fun api_error_of :: "error \<Rightarrow> api_error" where
  "api_error_of (VmNotFound v) = api_error_new 404 (error_display (VmNotFound v))"
| "api_error_of (WorkloadNotFound w) = api_error_new 404 (error_display (WorkloadNotFound w))"
| "api_error_of (PortNotExposed v p) = api_error_new 404 (error_display (PortNotExposed v p))"
| "api_error_of (PortAlreadyExposed v p) = api_error_new 409 (error_display (PortAlreadyExposed v p))"
| "api_error_of (InvalidStateTransition a b) = api_error_new 409 (error_display (InvalidStateTransition a b))"
| "api_error_of (InvalidPort p) = api_error_new 400 (error_display (InvalidPort p))"
| "api_error_of (InvalidImage i) = api_error_new 400 (error_display (InvalidImage i))"
| "api_error_of err = api_internal (error_display err)"

type_synonym 'a api_result = "api_error + 'a"

definition api_try :: "'a result \<Rightarrow> 'a api_result" where
  "api_try r = (case r of Inl e \<Rightarrow> Inl (api_error_of e) | Inr x \<Rightarrow> Inr x)"

definition api_into_response :: "api_error \<Rightarrow> nat \<times> string" where
  "api_into_response e =
     (ar_status e, json_text (JObj [(''error'',
        JObj [(''code'', JNum (int (ar_status e))), (''message'', JStr (ar_message e))])]))"

section \<open>Authorization\<close>

definition padded :: "bytes \<Rightarrow> nat \<Rightarrow> bytes" where
  "padded s len = take len (s @ replicate len 0)"

definition constant_time_eq :: "bytes \<Rightarrow> bytes \<Rightarrow> bool" where
  "constant_time_eq a b =
     (let len = max (length a) (length b);
          diff = (if length a \<noteq> length b then 1 else 0 :: u8)
      in foldl (\<lambda>diff (x, y). diff OR (x XOR y)) diff (zip (padded a len) (padded b len)) = 0)"

text \<open>\<open>ApiServer::new\<close>: the token is read from the environment and must not be empty.\<close>

definition api_token :: "string option \<Rightarrow> string result" where
  "api_token env_var =
     (case env_var of
        None \<Rightarrow> Inl MissingApiToken
      | Some t \<Rightarrow> if t = [] then Inl MissingApiToken else Inr t)"

definition require_bearer_token :: "string \<Rightarrow> headers \<Rightarrow> (unit \<Rightarrow> 'a api_result) \<Rightarrow> 'a api_result" where
  "require_bearer_token expected headers handler =
     (let authorized = (case bearer_token headers of
            None \<Rightarrow> False
          | Some token \<Rightarrow> constant_time_eq (str_bytes token) (str_bytes expected))
      in if \<not> authorized then Inl (api_error_new 401 ''missing or invalid bearer token'') else handler ())"

section \<open>The routes\<close>

record 'h vmm_trait =
  vt_create_vm :: "vm_config \<Rightarrow> 'h vmm \<Rightarrow> 'h vmm \<times> vm_id result"
  vt_start_vm :: "vm_id \<Rightarrow> 'h vmm \<Rightarrow> 'h vmm \<times> unit result"
  vt_pause_vm :: "vm_id \<Rightarrow> 'h vmm \<Rightarrow> 'h vmm \<times> unit result"
  vt_resume_vm :: "vm_id \<Rightarrow> 'h vmm \<Rightarrow> 'h vmm \<times> unit result"
  vt_snapshot_vm :: "vm_id \<Rightarrow> 'h vmm \<Rightarrow> 'h vmm \<times> vm_snapshot result"
  vt_restore_vm :: "vm_id \<Rightarrow> 'h vmm \<Rightarrow> 'h vmm \<times> unit result"
  vt_destroy_vm :: "vm_id \<Rightarrow> 'h vmm \<Rightarrow> 'h vmm \<times> unit result"
  vt_ensure_started :: "vm_id \<Rightarrow> 'h vmm \<Rightarrow> 'h vmm \<times> unit result"
  vt_start_workload :: "vm_id \<Rightarrow> workload_spec \<Rightarrow> 'h vmm \<Rightarrow> 'h vmm \<times> workload result"
  vt_stop_workload :: "vm_id \<Rightarrow> workload_id \<Rightarrow> 'h vmm \<Rightarrow> 'h vmm \<times> workload result"
  vt_workload_logs :: "vm_id \<Rightarrow> workload_id \<Rightarrow> 'h vmm \<Rightarrow> workload_log_entry list result"

text \<open>Status and value of a successful answer.\<close>

definition api_create_vm :: "'h vmm_trait \<Rightarrow> vm_config \<Rightarrow> 'h vmm \<Rightarrow> 'h vmm \<times> (nat \<times> vm_id) api_result" where
  "api_create_vm vt payload v =
     (case vt_create_vm vt payload v of
        (v1, Inl e) \<Rightarrow> (v1, Inl (api_error_of e))
      | (v1, Inr vm_id) \<Rightarrow>
          if vc_mode payload \<noteq> ScheduleMode then
            (case vt_start_vm vt vm_id v1 of
               (v2, Inl e) \<Rightarrow> (v2, Inl (api_error_of e))
             | (v2, Inr _) \<Rightarrow> (v2, Inr (201, vm_id)))
          else (v1, Inr (201, vm_id)))"

definition api_get_vm :: "vm_id \<Rightarrow> 'h vmm \<Rightarrow> vm_instance api_result" where
  "api_get_vm vm_id v = api_try (ok_or (VmNotFound vm_id) (Option.bind (get_vm vm_id v) (inst v)))"

definition api_list_vms :: "'h vmm \<Rightarrow> vm_instance list" where
  "api_list_vms v = List.map_filter (inst v) (list_vms v)"

text \<open>Pause, resume and restore: the call, then the instance as it is now.\<close>

definition api_then_get ::
  "(vm_id \<Rightarrow> 'h vmm \<Rightarrow> 'h vmm \<times> unit result) \<Rightarrow> vm_id \<Rightarrow> 'h vmm \<Rightarrow> 'h vmm \<times> vm_instance api_result" where
  "api_then_get call vm_id v =
     (case call vm_id v of
        (v1, Inl e) \<Rightarrow> (v1, Inl (api_error_of e))
      | (v1, Inr _) \<Rightarrow> (v1, api_get_vm vm_id v1))"

definition api_snapshot_vm :: "'h vmm_trait \<Rightarrow> vm_id \<Rightarrow> 'h vmm \<Rightarrow> 'h vmm \<times> vm_snapshot api_result" where
  "api_snapshot_vm vt vm_id v = (case vt_snapshot_vm vt vm_id v of (v1, r) \<Rightarrow> (v1, api_try r))"

definition api_delete_vm :: "'h vmm_trait \<Rightarrow> vm_id \<Rightarrow> 'h vmm \<Rightarrow> 'h vmm \<times> nat api_result" where
  "api_delete_vm vt vm_id v =
     (case vt_destroy_vm vt vm_id v of (v1, Inl e) \<Rightarrow> (v1, Inl (api_error_of e)) | (v1, Inr _) \<Rightarrow> (v1, Inr 204))"

definition api_get_network :: "vm_id \<Rightarrow> 'h vmm \<Rightarrow> network_config api_result" where
  "api_get_network vm_id v =
     api_try (ok_or (VmNotFound vm_id)
       (map_option (\<lambda>i. vc_network_config (vi_vm_config i)) (Option.bind (get_vm vm_id v) (inst v))))"

definition api_add_port :: "vm_id \<Rightarrow> exposed_port \<Rightarrow> 'h vmm \<Rightarrow> 'h vmm \<times> (nat \<times> exposed_port) api_result" where
  "api_add_port vm_id port v =
     (case vmm_add_exposed_port vm_id port v of
        (v1, Inl e) \<Rightarrow> (v1, Inl (api_error_of e)) | (v1, Inr p) \<Rightarrow> (v1, Inr (201, p)))"

definition api_remove_port :: "vm_id \<Rightarrow> u16 \<Rightarrow> 'h vmm \<Rightarrow> 'h vmm \<times> nat api_result" where
  "api_remove_port vm_id port v =
     (case vmm_remove_exposed_port vm_id port v of
        (v1, Inl e) \<Rightarrow> (v1, Inl (api_error_of e)) | (v1, Inr _) \<Rightarrow> (v1, Inr 204))"

record mint_token_request =
  mr_ttl_secs :: "nat option"
  mr_proto :: "proto option"

definition mint_port_token ::
  "('k \<Rightarrow> claims \<Rightarrow> string + string) \<Rightarrow> 'k \<Rightarrow> instant \<Rightarrow> vm_id \<Rightarrow> u16 \<Rightarrow> mint_token_request \<Rightarrow> 'h vmm \<Rightarrow>
   (nat \<times> string \<times> instant) api_result" where
  "mint_port_token encode secret now vm_id port body v =
     (case list_exposed_ports vm_id v of
        Inl e \<Rightarrow> Inl (api_error_of e)
      | Inr ports \<Rightarrow>
          if \<not> list_ex (\<lambda>p. ep_port p = port) ports then Inl (api_error_of (PortNotExposed vm_id port))
          else (case mint encode secret vm_id port
                       (case mr_proto body of None \<Rightarrow> ProtoHttp | Some p \<Rightarrow> p)
                       (case mr_ttl_secs body of None \<Rightarrow> DEFAULT_TTL_SECS | Some t \<Rightarrow> t) now of
                  Inl e \<Rightarrow> Inl (api_error_of e)
                | Inr (token, expires_at) \<Rightarrow> Inr (201, token, expires_at)))"

definition api_start_workload ::
  "'h vmm_trait \<Rightarrow> vm_id \<Rightarrow> workload_spec \<Rightarrow> 'h vmm \<Rightarrow> 'h vmm \<times> (nat \<times> workload) api_result" where
  "api_start_workload vt vm_id spec v =
     (case vt_start_workload vt vm_id spec v of
        (v1, Inl e) \<Rightarrow> (v1, Inl (api_error_of e)) | (v1, Inr w) \<Rightarrow> (v1, Inr (201, w)))"

definition api_stop_workload ::
  "'h vmm_trait \<Rightarrow> vm_id \<Rightarrow> workload_id \<Rightarrow> 'h vmm \<Rightarrow> 'h vmm \<times> workload api_result" where
  "api_stop_workload vt vm_id wid v = (case vt_stop_workload vt vm_id wid v of (v1, r) \<Rightarrow> (v1, api_try r))"

section \<open>Exec\<close>

definition EXEC_TIMEOUT :: nat where
  "EXEC_TIMEOUT = 5 * 60"

definition EXEC_POLL_INTERVAL :: nat where
  "EXEC_POLL_INTERVAL = 500"

datatype exec_decision = ExecDone workload | ExecError error | ExecTimeout

definition exec_poll :: "vm_id \<Rightarrow> workload_id \<Rightarrow> nat \<Rightarrow> 'h vmm \<Rightarrow> exec_decision option" where
  "exec_poll vm_id wid elapsed v =
     (case get_workload vm_id wid v of
        Inl e \<Rightarrow> Some (ExecError e)
      | Inr w \<Rightarrow>
          if \<not> is_active w then Some (ExecDone w)
          else if EXEC_TIMEOUT * 1000 \<le> elapsed then Some ExecTimeout
          else None)"

text \<open>Poll \<open>k\<close> sees the VMM as \<open>obs k\<close>, \<open>clock k\<close> milliseconds after the workload was started.  The result
  is the VMM, and the finished workload with its logs; no result means the handler never answers.\<close>

definition exec_command ::
  "'h vmm_trait \<Rightarrow> (nat \<Rightarrow> 'h vmm) \<Rightarrow> (nat \<Rightarrow> nat) \<Rightarrow> vm_id \<Rightarrow> workload_spec \<Rightarrow> 'h vmm \<Rightarrow>
   ('h vmm \<times> (workload \<times> workload_log_entry list) api_result) option" where
  "exec_command vt obs clock vm_id spec v =
     (case vt_ensure_started vt vm_id v of
        (v1, Inl e) \<Rightarrow> Some (v1, Inl (api_error_of e))
      | (v1, Inr _) \<Rightarrow>
          (case vt_start_workload vt vm_id spec v1 of
             (v2, Inl e) \<Rightarrow> Some (v2, Inl (api_error_of e))
           | (v2, Inr w) \<Rightarrow>
               (case poll_loop (\<lambda>k. exec_poll vm_id (wl_id w) (clock k) (obs k)) 0 of
                  None \<Rightarrow> None
                | Some (k, ExecError e) \<Rightarrow> Some (obs k, Inl (api_error_of e))
                | Some (k, ExecTimeout) \<Rightarrow>
                    Some (fst (vt_stop_workload vt vm_id (wl_id w) (obs k)),
                          Inl (api_error_of (error.Vmm (''exec of workload '' @ wl_id w @ '' timed out after '' @
                                               dec EXEC_TIMEOUT @ ''s''))))
                | Some (k, ExecDone w') \<Rightarrow>
                    Some (obs k, (case vt_workload_logs vt vm_id (wl_id w) (obs k) of
                       Inl e \<Rightarrow> Inl (api_error_of e)
                     | Inr logs \<Rightarrow> Inr (w', logs))))))"

section \<open>Only the right token is let in\<close>

lemma or_xor_zero: "d OR (x XOR y) = 0 \<longleftrightarrow> d = 0 \<and> x = (y :: u8)"
  by (auto simp: bit_eq_iff bit_or_iff bit_xor_iff)

lemma diff_fold_zero:
  "foldl (\<lambda>diff (x, y). diff OR (x XOR y)) d ps = 0 \<longleftrightarrow> d = 0 \<and> (\<forall>(x, y) \<in> set ps. x = (y :: u8))"
  by (induction ps arbitrary: d) (auto simp: or_xor_zero)

lemma padded_same: "length s = len \<Longrightarrow> padded s len = s"
  by (simp add: padded_def)

lemma zip_all_eq: "length a = length b \<Longrightarrow> (\<forall>(x, y) \<in> set (zip a b). x = y) \<longleftrightarrow> a = b"
  by (induction a b rule: list_induct2) auto

lemma constant_time_eq_iff: "constant_time_eq a b \<longleftrightarrow> a = b"
proof (cases "length a = length b")
  case True
  then show ?thesis by (simp add: constant_time_eq_def Let_def diff_fold_zero padded_same zip_all_eq)
next
  case False
  then show ?thesis by (auto simp: constant_time_eq_def Let_def diff_fold_zero)
qed

lemma str_bytes_inj: "str_bytes a = str_bytes b \<longleftrightarrow> a = b"
  by (metis bytes_str_bytes)

text \<open>C17: A request reaches its handler exactly when its first authorization header is \<open>Bearer\<close> and the
  configured token, byte for byte: the comparison in constant time, over the padded bytes, is
  equality.  Every other request is answered 401 without calling the handler.\<close>

theorem api_authorized_iff:
  "require_bearer_token expected headers handler =
     (if bearer_token headers = Some expected then handler ()
      else Inl (api_error_new 401 ''missing or invalid bearer token''))"
  by (auto simp: require_bearer_token_def constant_time_eq_iff str_bytes_inj split: option.split)

section \<open>Exec answers\<close>

text \<open>With polls at least half a second apart, \<open>exec\<close> always answers, whatever the guest reports; and
  when it answers with a workload, that workload is over.\<close>

theorem exec_answers:
  assumes "\<And>k. 500 * k \<le> clock k"
  shows "\<exists>v' r. exec_command vt obs clock vm spec v = Some (v', r) \<and>
    (case r of Inl _ \<Rightarrow> True | Inr (w, logs) \<Rightarrow> \<not> is_active w)"
proof -
  have poll: "\<exists>k r. poll_loop (\<lambda>k. exec_poll vm wid (clock k) (obs k)) 0 = Some (k, r) \<and> exec_poll vm wid (clock k) (obs k) = Some r"
    for wid
  proof -
    have "exec_poll vm wid (clock 600) (obs 600) \<noteq> None"
      using assms[of 600] by (auto simp: exec_poll_def EXEC_TIMEOUT_def split: sum.split)
    then show ?thesis
      by (rule poll_loop_decides[where probe = "\<lambda>k. exec_poll vm wid (clock k) (obs k)"]) blast
  qed
  have over: "exec_poll vm wid e u = Some (ExecDone w) \<Longrightarrow> \<not> is_active w" for wid e u w
    by (auto simp: exec_poll_def split: sum.splits if_splits)
  obtain v1 r1 where e: "vt_ensure_started vt vm v = (v1, r1)" by (meson surj_pair)
  obtain v2 r2 where s: "vt_start_workload vt vm spec v1 = (v2, r2)" by (meson surj_pair)
  show ?thesis
  proof (cases "(\<exists>x. r1 = Inl x) \<or> (\<exists>x. r2 = Inl x)")
    case True
    then show ?thesis by (auto simp: exec_command_def e s split: sum.split)
  next
    case False
    then obtain w where w: "r1 = Inr ()" "r2 = Inr w" by (metis old.unit.exhaust sum.exhaust)
    obtain k d where d: "poll_loop (\<lambda>k. exec_poll vm (wl_id w) (clock k) (obs k)) 0 = Some (k, d)"
      "exec_poll vm (wl_id w) (clock k) (obs k) = Some d" using poll by blast
    show ?thesis using over d(2) by (cases d) (auto simp: exec_command_def e s w d(1) split: sum.split)
  qed
qed

text \<open>When the VM was made but could not be started, the client gets an error and no id, and the VM stays.\<close>

lemma create_then_start_fails:
  assumes "vt_create_vm vt payload v = (v1, Inr vm)" "vt_start_vm vt vm v1 = (v2, Inl e)" "vc_mode payload \<noteq> ScheduleMode"
  shows "api_create_vm vt payload v = (v2, Inl (api_error_of e))"
  using assms by (simp add: api_create_vm_def)

text \<open>A token is minted only for a port the VM exposes at that moment, and it is a token for exactly
  that VM and port: resolving it right away, with the VM started and addressed, finds the guest.\<close>

theorem minted_token_resolves:
  assumes "mint_port_token encode secret now vm port body v = Inr (st, token, exp)" "jwt_law encode decode"
    and "get_vm vm v = Some ref" "inst v ref = Some i" "vi_state i = Started" "vi_net i = Some net"
  shows "\<exists>c. verify decode secret token now = Inr c \<and> st = 201 \<and>
    resolve_target wake ready c v = (v, Inr (vn_guest_ip net))"
proof -
  obtain ports where p: "list_exposed_ports vm v = Inr ports" "list_ex (\<lambda>p. ep_port p = port) ports"
    using assms(1) by (auto simp: mint_port_token_def split: sum.splits if_splits)
  have ports: "ports = exposed_ports (vc_network_config (vi_vm_config i))"
    using p(1) assms(3,4) by (auto simp: list_exposed_ports_def entry_parts_def get_vm_def split: option.splits)
  obtain pr ttl where m: "mint encode secret vm port pr ttl now = Inr (token, exp)" and st: "st = 201"
    using assms(1) p by (auto simp: mint_port_token_def split: sum.splits if_splits)
  define c where "c = \<lparr>cl_vm_id = vm, cl_port = port, cl_proto = pr, cl_iat = now div 1000,
      cl_exp = (now + min (max ttl 1) MAX_TTL_SECS * 1000) div 1000\<rparr>"
  have "encode secret c = Inr token" using m by (auto simp: mint_def Let_def c_def split: sum.splits)
  moreover have "now div 1000 \<le> cl_exp c" by (simp add: c_def div_le_mono)
  ultimately have "verify decode secret token now = Inr c"
    using assms(2) unfolding jwt_law_def verify_def by auto
  moreover have "resolve_target wake ready c v = (v, Inr (vn_guest_ip net))"
    using p(2) assms(3-6) by (simp add: resolve_target_def validate_target_def c_def ports Let_def)
  ultimately show ?thesis using st by blast
qed

section \<open>The properties on a concrete VM\<close>

definition demo_vt :: "unit vmm_trait" where
  "demo_vt = \<lparr>vt_create_vm = (\<lambda>c v. (v, Inr ''vm-a'')), vt_start_vm = (\<lambda>_ v. (v, Inr ())),
     vt_pause_vm = (\<lambda>_ v. (v, Inr ())), vt_resume_vm = (\<lambda>_ v. (v, Inr ())),
     vt_snapshot_vm = (\<lambda>_ v. (v, Inl (error.Vmm ''busy''))), vt_restore_vm = (\<lambda>_ v. (v, Inr ())),
     vt_destroy_vm = (\<lambda>_ v. (v, Inr ())), vt_ensure_started = (\<lambda>_ v. (v, Inr ())),
     vt_start_workload = (\<lambda>_ spec v. (v, Inr demo_exited)), vt_stop_workload = (\<lambda>_ _ v. (v, Inr demo_exited)),
     vt_workload_logs = (\<lambda>_ _ _. Inr [])\<rparr>"

lemma exec_answers_witness:
  "\<exists>v'. exec_command demo_vt (\<lambda>_. demo_running) (\<lambda>k. 500 * k) ''vm-a'' demo_spec demo_running =
     Some (v', Inr (demo_exited, [])) \<and> \<not> is_active demo_exited"
proof -
  have "get_workload ''vm-a'' ''wl-'' demo_running = Inr demo_exited"
    by (simp add: get_workload_def demo_running_def)
  then have "poll_loop (\<lambda>k. exec_poll ''vm-a'' ''wl-'' (500 * k) demo_running) 0 = Some (0, ExecDone demo_exited)"
    by (subst poll_loop.simps) (simp add: exec_poll_def demo_wl_id)
  then have "exec_command demo_vt (\<lambda>_. demo_running) (\<lambda>k. 500 * k) ''vm-a'' demo_spec demo_running =
      Some (demo_running, Inr (demo_exited, []))"
    by (simp add: exec_command_def demo_vt_def demo_wl_id)
  with exec_answers[of "\<lambda>k. 500 * k" demo_vt "\<lambda>_. demo_running" "''vm-a''" demo_spec demo_running]
  show ?thesis by auto
qed

lemma minted_token_resolves_witness:
  "\<exists>c. verify demo_decode 0 ''t'' 100000 = Inr c \<and>
     resolve_target (\<lambda>v. (v, Inr ())) (Inr ()) c demo_exposed = (demo_exposed, Inr 0x0A000002)"
proof -
  have get: "get_vm ''vm-a'' demo_exposed = Some 0"
    by (simp add: get_vm_def demo_exposed_def demo_running_def fc_entry_new_def)
  have inst: "inst demo_exposed 0 = Some demo_port_inst" by (simp add: inst_def demo_exposed_def)
  have "list_exposed_ports ''vm-a'' demo_exposed = Inr [\<lparr>ep_port = 8080, ep_label = ''web''\<rparr>]"
    using get inst by (auto simp: list_exposed_ports_def entry_parts_def get_vm_def demo_port_inst_def split: option.splits)
  then have mint: "mint_port_token demo_encode 0 100000 ''vm-a'' 8080 \<lparr>mr_ttl_secs = Some 60, mr_proto = None\<rparr> demo_exposed =
      Inr (201, ''t'', 160000)"
    by (simp add: mint_port_token_def mint_def demo_encode_def demo_claims_def MAX_TTL_SECS_def Let_def)
  have st: "vi_state demo_port_inst = Started"
    and net: "vi_net demo_port_inst = Some (vm_net_new ''tap-7-a'' 0x0A000002 0x0A000001 demo_net)"
    by (simp_all add: demo_port_inst_def demo_inst_def)
  from minted_token_resolves[OF mint demo_jwt_law get inst st net, of "\<lambda>v. (v, Inr ())" "Inr ()"]
  show ?thesis by (auto simp: vm_net_new_def)
qed

end
