(* ===== verification/GuestdSys.thy ===== *)
theory GuestdSys
  imports Guestd Api
begin

text \<open>
  The threads of guestd together: connections handing over requests, one thread per started process
  (announce, wait, record, report) and one per pipe, the threads that escalate a stop, the idle
  monitor; and around them the processes of the guest, whose ids are reused once they are reaped.
  \<open>gd_step\<close> interleaves them; a step is a critical section or a system call of \<open>agent.rs\<close> or
  \<open>monitor.rs\<close>.
\<close>

section \<open>The state\<close>

text \<open>Where the thread of a started process is: registered, announced and waiting, reaped with a
  status, status recorded, exit reported.\<close>

datatype child_pc = Registered | Waiting | Reaped gd_status | Recorded gd_status | Reported gd_status

record gd_child =
  ch_workload_id :: string
  ch_pid :: u32
  ch_pc :: child_pc
  ch_status :: "gd_status option" \<comment> \<open>of the process: \<open>None\<close> while it runs\<close>
  ch_pipe :: "gd_stream \<Rightarrow> string" \<comment> \<open>written and not yet read\<close>

datatype stop_pc = StopFound | StopTermed | StopExpired

datatype monitor_pc = MonitorReads | MonitorChecks "string list"

text \<open>A signal: its number, the process id, and the workload it is meant for.\<close>

record gd_sys =
  gs_agent :: gd_agent
  gs_children :: "gd_child list"
  gs_others :: "u32 set" \<comment> \<open>processes that are not guestd's\<close>
  gs_stops :: "(string \<times> u32 \<times> stop_pc) list"
  gs_monitor :: "monitor_pc option"
  gs_emitted :: "(nat option \<times> gd_event) list"
  gs_signals :: "(nat \<times> u32 \<times> string) list"

definition gd_sys_init :: gd_sys where
  "gd_sys_init = \<lparr>gs_agent = gd_agent_new, gs_children = [], gs_others = {}, gs_stops = [],
     gs_monitor = None, gs_emitted = [], gs_signals = []\<rparr>"

text \<open>\<open>send_event\<close>: to the connection there is, if there is one.\<close>

definition gd_send :: "gd_event \<Rightarrow> gd_sys \<Rightarrow> gd_sys" where
  "gd_send ev s = s\<lparr>gs_emitted := gs_emitted s @ [(ga_conn (gs_agent s), ev)]\<rparr>"

definition reaped :: "gd_child \<Rightarrow> bool" where
  "reaped c \<longleftrightarrow> ch_pc c \<noteq> Registered \<and> ch_pc c \<noteq> Waiting"

text \<open>A process id is in use until its process is reaped.\<close>

definition pids_in_use :: "gd_sys \<Rightarrow> u32 set" where
  "pids_in_use s = ch_pid ` {c \<in> set (gs_children s). \<not> reaped c} \<union> gs_others s"

definition upd_child :: "nat \<Rightarrow> (gd_child \<Rightarrow> gd_child) \<Rightarrow> gd_sys \<Rightarrow> gd_sys" where
  "upd_child n f s = s\<lparr>gs_children := (gs_children s)[n := f (gs_children s ! n)]\<rparr>"

definition upd_agent :: "(gd_agent \<Rightarrow> gd_agent) \<Rightarrow> gd_sys \<Rightarrow> gd_sys" where
  "upd_agent f s = s\<lparr>gs_agent := f (gs_agent s)\<rparr>"

definition new_child :: "string \<Rightarrow> u32 \<Rightarrow> gd_child" where
  "new_child wid pid = \<lparr>ch_workload_id = wid, ch_pid = pid, ch_pc = Registered, ch_status = None, ch_pipe = (\<lambda>_. [])\<rparr>"

section \<open>The steps\<close>

text \<open>What the thread of child \<open>n\<close> does next.\<close>

fun child_turn :: "nat \<Rightarrow> gd_sys \<Rightarrow> gd_sys option" where
  "child_turn n s =
     (let c = gs_children s ! n; goto = (\<lambda>pc. upd_child n (\<lambda>c. c\<lparr>ch_pc := pc\<rparr>))
      in if length (gs_children s) \<le> n then None
         else case ch_pc c of
           Registered \<Rightarrow> Some (goto Waiting (gd_send (GdStartedEv (ch_workload_id c) (ch_pid c)) s))
         | Waiting \<Rightarrow> map_option (\<lambda>st. goto (Reaped st) s) (ch_status c)
         | Reaped st \<Rightarrow> Some (goto (Recorded st) (upd_agent (gd_record (ch_workload_id c) st) s))
         | Recorded st \<Rightarrow> Some (goto (Reported st) (gd_send (GdExitedEv (ch_workload_id c) (fst st) (snd st)) s))
         | Reported st \<Rightarrow> None)"

text \<open>The next step of a thread that stops a workload, and the signal it sends.\<close>

definition stop_turn :: "gd_agent \<Rightarrow> string \<times> u32 \<times> stop_pc \<Rightarrow>
    (string \<times> u32 \<times> stop_pc) list \<times> (nat \<times> u32 \<times> string) list" where
  "stop_turn a t =
     (case t of (wid, pid, pc) \<Rightarrow>
        (case pc of
           StopFound \<Rightarrow> ([(wid, pid, StopTermed)], [(15, pid, wid)])
         | StopTermed \<Rightarrow> (if gd_still_running wid a then [(wid, pid, StopExpired)] else [], [])
         | StopExpired \<Rightarrow> ([], [(9, pid, wid)])))"

definition monitor_turn :: "bool \<Rightarrow> gd_sys \<Rightarrow> gd_sys option" where
  "monitor_turn idle s =
     (case gs_monitor s of
        None \<Rightarrow> None
      | Some MonitorReads \<Rightarrow>
          Some (case ga_config (gs_agent s) of None \<Rightarrow> s | Some cfg \<Rightarrow> s\<lparr>gs_monitor := Some (MonitorChecks (ic_cmd cfg))\<rparr>)
      | Some (MonitorChecks _) \<Rightarrow>
          Some (let s1 = s\<lparr>gs_monitor := Some MonitorReads\<rparr> in if idle then gd_send GdIdleEv s1 else s1))"

inductive gd_step :: "gd_sys \<Rightarrow> gd_sys \<Rightarrow> bool" where
  connect: "gd_step s (upd_agent (set_conn w) s)"
| disconnect: "gd_step s (upd_agent (clear_conn w) s)"
| start_refused: "gd_start spawn wid cmd env cwd (gs_agent s) = (a, Inl ev) \<Longrightarrow> gd_step s (gd_send ev (s\<lparr>gs_agent := a\<rparr>))"
| start: "gd_start spawn wid cmd env cwd (gs_agent s) = (a, Inr pid) \<Longrightarrow> pid \<notin> pids_in_use s \<Longrightarrow>
    gd_step s (s\<lparr>gs_agent := a, gs_children := gs_children s @ [new_child wid pid]\<rparr>)"
| stop_refused: "gd_stop wid (gs_agent s) = Inl (Some ev) \<Longrightarrow> gd_step s (gd_send ev s)"
| stop: "gd_stop wid (gs_agent s) = Inr pid \<Longrightarrow> gd_step s (s\<lparr>gs_stops := gs_stops s @ [(wid, pid, StopFound)]\<rparr>)"
| list: "gd_step s (gd_send (gd_list (gs_agent s)) s)"
| configure: "gd_configure cmd secs (gs_agent s) = (a, fresh) \<Longrightarrow>
    gd_step s (s\<lparr>gs_agent := a, gs_monitor := (if fresh then Some MonitorReads else gs_monitor s)\<rparr>)"
| child: "child_turn n s = Some s' \<Longrightarrow> gd_step s s'"
| stopping: "gs_stops s = ts @ t # us \<Longrightarrow> stop_turn (gs_agent s) t = (t', sigs) \<Longrightarrow>
    gd_step s (s\<lparr>gs_stops := ts @ t' @ us, gs_signals := gs_signals s @ sigs\<rparr>)"
| monitor: "monitor_turn idle s = Some s' \<Longrightarrow> gd_step s s'"
| forward: "n < length (gs_children s) \<Longrightarrow> ch_pc (gs_children s ! n) \<noteq> Registered \<Longrightarrow>
    ch_pipe (gs_children s ! n) st = buf @ rest \<Longrightarrow> buf \<noteq> [] \<Longrightarrow> length buf \<le> OUTPUT_BUF_SIZE \<Longrightarrow>
    gd_step s (upd_child n (\<lambda>c. c\<lparr>ch_pipe := (ch_pipe c)(st := rest)\<rparr>)
                (gd_send (gd_chunk (ch_workload_id (gs_children s ! n)) st buf) s))"
| writes: "n < length (gs_children s) \<Longrightarrow> ch_status (gs_children s ! n) = None \<Longrightarrow>
    gd_step s (upd_child n (\<lambda>c. c\<lparr>ch_pipe := (ch_pipe c)(st := ch_pipe c st @ data)\<rparr>) s)"
| exits: "n < length (gs_children s) \<Longrightarrow> ch_status (gs_children s ! n) = None \<Longrightarrow>
    gd_step s (upd_child n (\<lambda>c. c\<lparr>ch_status := Some status\<rparr>) s)"
| other_begins: "pid \<notin> pids_in_use s \<Longrightarrow> gd_step s (s\<lparr>gs_others := insert pid (gs_others s)\<rparr>)"
| other_ends: "gd_step s (s\<lparr>gs_others := gs_others s - {pid}\<rparr>)"

definition gd_reachable :: "gd_sys \<Rightarrow> bool" where
  "gd_reachable s \<longleftrightarrow> gd_step\<^sup>*\<^sup>* gd_sys_init s"

lemma gd_reachable_init: "gd_reachable gd_sys_init"
  by (simp add: gd_reachable_def)

lemma gd_reachable_step: "gd_reachable s \<Longrightarrow> gd_step s s' \<Longrightarrow> gd_reachable s'"
  unfolding gd_reachable_def by (rule rtranclp.rtrancl_into_rtrancl)

section \<open>What guestd reports is what happened\<close>

definition child_ids :: "gd_sys \<Rightarrow> string list" where
  "child_ids s = map ch_workload_id (gs_children s)"

definition events :: "gd_sys \<Rightarrow> gd_event list" where
  "events s = map snd (gs_emitted s)"

text \<open>The \<open>started\<close> and \<open>exited\<close> events of a workload.\<close>

fun life_of :: "string \<Rightarrow> gd_event \<Rightarrow> bool" where
  "life_of wid (GdStartedEv w pid) \<longleftrightarrow> w = wid"
| "life_of wid (GdExitedEv w code sig) \<longleftrightarrow> w = wid"
| "life_of wid _ \<longleftrightarrow> False"

definition expected :: "gd_child \<Rightarrow> gd_event list" where
  "expected c =
     (case ch_pc c of
        Registered \<Rightarrow> []
      | Reported st \<Rightarrow> [GdStartedEv (ch_workload_id c) (ch_pid c), GdExitedEv (ch_workload_id c) (fst st) (snd st)]
      | _ \<Rightarrow> [GdStartedEv (ch_workload_id c) (ch_pid c)])"

definition entry_of :: "gd_child \<Rightarrow> gd_entry" where
  "entry_of c = \<lparr>ge_pid = ch_pid c,
     ge_result = (case ch_pc c of Recorded st \<Rightarrow> Some st | Reported st \<Rightarrow> Some st | _ \<Rightarrow> None)\<rparr>"

definition status_ok :: "gd_child \<Rightarrow> bool" where
  "status_ok c \<longleftrightarrow>
     (case ch_pc c of
        Reaped st \<Rightarrow> ch_status c = Some st
      | Recorded st \<Rightarrow> ch_status c = Some st
      | Reported st \<Rightarrow> ch_status c = Some st
      | _ \<Rightarrow> True)"

text \<open>An entry of a listing is true of a child: it is there, and exited only with its status.\<close>

definition info_true :: "gd_child list \<Rightarrow> gd_info \<Rightarrow> bool" where
  "info_true cs i \<longleftrightarrow> (\<exists>c \<in> set cs. ch_workload_id c = gi_workload_id i \<and>
     (gi_state i = GdExited \<longrightarrow> ch_status c = Some (gi_exit_code i, gi_signal i)))"

definition list_true :: "gd_child list \<Rightarrow> gd_event \<Rightarrow> bool" where
  "list_true cs ev \<longleftrightarrow> (\<forall>infos. ev = GdListEv infos \<longrightarrow> (\<forall>i \<in> set infos. info_true cs i))"

definition gd_ok :: "gd_sys \<Rightarrow> bool" where
  "gd_ok s \<longleftrightarrow>
     ga_workloads (gs_agent s) = map (\<lambda>c. (ch_workload_id c, entry_of c)) (gs_children s) \<and>
     (\<forall>c \<in> set (gs_children s). filter (life_of (ch_workload_id c)) (events s) = expected c \<and> status_ok c) \<and>
     (\<forall>wid. wid \<notin> set (child_ids s) \<longrightarrow> filter (life_of wid) (events s) = []) \<and>
     (\<forall>ev \<in> set (events s). list_true (gs_children s) ev)"

text \<open>A child moves on: the agent's map and the events follow.\<close>

lemma info_true_update:
  assumes "n < length cs" "ch_workload_id c' = ch_workload_id (cs ! n)"
    and "\<And>st. ch_status (cs ! n) = Some st \<Longrightarrow> ch_status c' = Some st" and "info_true cs i"
  shows "info_true (cs[n := c']) i"
proof -
  from assms(4) obtain c where c: "c \<in> set cs" "ch_workload_id c = gi_workload_id i"
    "gi_state i = GdExited \<longrightarrow> ch_status c = Some (gi_exit_code i, gi_signal i)" by (auto simp: info_true_def)
  then obtain m where m: "m < length cs" "cs ! m = c" by (auto simp: in_set_conv_nth)
  show ?thesis
  proof (cases "m = n")
    case True
    with m c assms show ?thesis
      unfolding info_true_def by (intro bexI[of _ c']) (auto simp: set_update_memI)
  next
    case False
    with m have "c \<in> set (cs[n := c'])" by (metis length_list_update nth_list_update_neq nth_mem)
    with c show ?thesis unfolding info_true_def by blast
  qed
qed

lemma gd_ok_child:
  assumes ok: "gd_ok s" and ids: "distinct (child_ids s)" and n: "n < length (gs_children s)"
    and c: "c = gs_children s ! n" "ch_workload_id c' = ch_workload_id c"
    and st: "\<And>st. ch_status c = Some st \<Longrightarrow> ch_status c' = Some st"
    and new: "expected c @ filter (life_of (ch_workload_id c)) evs = expected c'" "status_ok c'"
      "\<And>ev wid. ev \<in> set evs \<Longrightarrow> wid \<noteq> ch_workload_id c \<Longrightarrow> \<not> life_of wid ev"
      "\<And>ev infos. ev \<in> set evs \<Longrightarrow> ev \<noteq> GdListEv infos"
    and s': "gs_children s' = (gs_children s)[n := c']" "events s' = events s @ evs"
      "ga_workloads (gs_agent s') = map (\<lambda>c. (ch_workload_id c, entry_of c)) ((gs_children s)[n := c'])"
  shows "gd_ok s' \<and> child_ids s' = child_ids s"
proof -
  have ids': "child_ids s' = child_ids s"
    using n c by (simp add: child_ids_def s'(1) map_update list_update_same_conv nth_equalityI nth_list_update)
  have mem: "d = c' \<or> (d \<in> set (gs_children s) \<and> ch_workload_id d \<noteq> ch_workload_id c)" if "d \<in> set (gs_children s')" for d
  proof -
    from that obtain m where m: "m < length (gs_children s)" "d = (gs_children s)[n := c'] ! m"
      by (auto simp: s'(1) in_set_conv_nth)
    show ?thesis
    proof (cases "m = n")
      case False
      with ids n m c(1) have "ch_workload_id (gs_children s ! m) \<noteq> ch_workload_id c"
        by (auto simp: child_ids_def distinct_conv_nth)
      with False m show ?thesis by auto
    qed (use m n in simp)
  qed
  have quiet: "filter (life_of wid) evs = []" if "wid \<noteq> ch_workload_id c" for wid
    using new(3) that by (auto simp: filter_empty_conv)
  have self: "c \<in> set (gs_children s)" using n c(1) by simp
  have "filter (life_of (ch_workload_id d)) (events s') = expected d \<and> status_ok d" if "d \<in> set (gs_children s')" for d
    using mem[OF that] ok self new(1,2) c(2) quiet[of "ch_workload_id d"] unfolding gd_ok_def s'(2) by auto
  moreover have "filter (life_of wid) (events s') = []" if "wid \<notin> set (child_ids s')" for wid
  proof -
    have "wid \<noteq> ch_workload_id c" using that self unfolding ids' by (auto simp: child_ids_def)
    with ok that quiet[of wid] show ?thesis unfolding gd_ok_def s'(2) ids' by simp
  qed
  moreover have "list_true (gs_children s') ev" if "ev \<in> set (events s')" for ev
  proof -
    have "list_true (gs_children s) ev"
      using that ok new(4) by (auto simp: gd_ok_def s'(2) list_true_def)
    then show ?thesis
      using info_true_update[OF n] c st by (auto simp: list_true_def s'(1))
  qed
  ultimately show ?thesis using ids' s'(3)[folded s'(1)] unfolding gd_ok_def by (intro conjI ballI allI impI) blast+
qed

text \<open>A step that leaves the children and the map alone may send what is no \<open>started\<close> or \<open>exited\<close>.\<close>

lemma gd_ok_same:
  assumes ok: "gd_ok s"
    and s': "gs_children s' = gs_children s" "ga_workloads (gs_agent s') = ga_workloads (gs_agent s)"
      "events s' = events s @ evs"
    and new: "\<And>ev wid. ev \<in> set evs \<Longrightarrow> \<not> life_of wid ev" "\<And>ev. ev \<in> set evs \<Longrightarrow> list_true (gs_children s) ev"
  shows "gd_ok s' \<and> child_ids s' = child_ids s"
proof -
  have "filter (life_of wid) evs = []" for wid using new(1) by (auto simp: filter_empty_conv)
  with ok new(2) show ?thesis unfolding gd_ok_def child_ids_def s' by auto
qed

lemma gd_ok_start:
  assumes ok: "gd_ok s" and fresh: "wid \<notin> set (child_ids s)"
    and s': "gs_children s' = gs_children s @ [new_child wid pid]" "events s' = events s"
      "ga_workloads (gs_agent s') = AList.update wid \<lparr>ge_pid = pid, ge_result = None\<rparr> (ga_workloads (gs_agent s))"
  shows "gd_ok s' \<and> child_ids s' = child_ids s @ [wid]"
proof -
  have child: "ch_workload_id (new_child wid pid) = wid" "expected (new_child wid pid) = []"
    "status_ok (new_child wid pid)" "entry_of (new_child wid pid) = \<lparr>ge_pid = pid, ge_result = None\<rparr>"
    by (simp_all add: new_child_def expected_def status_ok_def entry_of_def)
  have "wid \<notin> set (map fst (ga_workloads (gs_agent s)))"
    using ok fresh by (auto simp: gd_ok_def child_ids_def)
  from update_fresh[OF this] have "ga_workloads (gs_agent s') = map (\<lambda>c. (ch_workload_id c, entry_of c)) (gs_children s')"
    using ok by (simp add: s' gd_ok_def child)
  moreover have "list_true (gs_children s') ev" if "ev \<in> set (events s')" for ev
    using ok that by (fastforce simp: gd_ok_def s' list_true_def info_true_def)
  ultimately show ?thesis using ok fresh by (auto simp: gd_ok_def s' child child_ids_def)
qed

lemma gd_list_true: "gd_ok s \<Longrightarrow> list_true (gs_children s) (gd_list (gs_agent s))"
proof -
  assume ok: "gd_ok s"
  have "info_true (gs_children s) (gd_info_of (ch_workload_id c) (entry_of c))" if "c \<in> set (gs_children s)" for c
    unfolding info_true_def
  proof (intro bexI[of _ c] conjI impI that)
    show "ch_workload_id c = gi_workload_id (gd_info_of (ch_workload_id c) (entry_of c))" by (simp add: gd_info_of_def)
    assume "gi_state (gd_info_of (ch_workload_id c) (entry_of c)) = GdExited"
    moreover have "status_ok c" using ok that by (simp add: gd_ok_def)
    ultimately show "ch_status c = Some (gi_exit_code (gd_info_of (ch_workload_id c) (entry_of c)),
        gi_signal (gd_info_of (ch_workload_id c) (entry_of c)))"
      by (auto simp: gd_info_of_def entry_of_def status_ok_def split: child_pc.splits if_splits)
  qed
  then show ?thesis using ok by (auto simp: gd_ok_def gd_list_def list_true_def)
qed

lemma gd_start_Inr:
  "gd_start spawn wid cmd env cwd a = (a', Inr pid) \<Longrightarrow>
     a' = a\<lparr>ga_workloads := AList.update wid \<lparr>ge_pid = pid, ge_result = None\<rparr> (ga_workloads a)\<rparr>"
  by (auto simp: gd_start_def split: list.splits sum.splits)

lemma gd_start_Inl: "gd_start spawn wid cmd env cwd a = (a', Inl ev) \<Longrightarrow> a' = a \<and> (\<exists>m. ev = GdErrorEv (Some wid) m)"
  by (auto simp: gd_start_def split: list.splits sum.splits)

lemma gd_stop_Inl: "gd_stop wid a = Inl (Some ev) \<Longrightarrow> \<exists>m. ev = GdErrorEv (Some wid) m"
  by (auto simp: gd_stop_def split: option.splits if_splits)

lemma events_send [simp]: "events (gd_send ev s) = events s @ [ev]"
  by (simp add: events_def gd_send_def)

lemma send_fields [simp]: "gs_children (gd_send ev s) = gs_children s" "gs_agent (gd_send ev s) = gs_agent s"
  by (simp_all add: gd_send_def)

lemma upd_child_fields [simp]:
  "gs_children (upd_child n f s) = (gs_children s)[n := f (gs_children s ! n)]"
  "gs_agent (upd_child n f s) = gs_agent s" "events (upd_child n f s) = events s"
  by (simp_all add: upd_child_def events_def)

lemma upd_agent_fields [simp]:
  "gs_children (upd_agent f s) = gs_children s" "gs_agent (upd_agent f s) = f (gs_agent s)"
  "events (upd_agent f s) = events s"
  by (simp_all add: upd_agent_def events_def)

lemma conn_workloads [simp]: "ga_workloads (set_conn w a) = ga_workloads a" "ga_workloads (clear_conn w a) = ga_workloads a"
  by (simp_all add: set_conn_def clear_conn_def)

lemma map_update_same: "n < length cs \<Longrightarrow> f c' = f (cs ! n) \<Longrightarrow> map f (cs[n := c']) = map f cs"
  by (simp add: map_update) (metis length_map list_update_id nth_map)

lemma map_entry_child:
  assumes "distinct (map ch_workload_id cs)" "n < length cs"
    and "ch_workload_id c' = ch_workload_id (cs ! n)" "entry_of c' = f (entry_of (cs ! n))"
  shows "AList.map_entry (ch_workload_id (cs ! n)) f (map (\<lambda>c. (ch_workload_id c, entry_of c)) cs) =
    map (\<lambda>c. (ch_workload_id c, entry_of c)) (cs[n := c'])"
  using assms
proof (induction cs arbitrary: n)
  case (Cons d cs)
  show ?case
  proof (cases n)
    case 0
    then have "ch_workload_id d \<notin> set (map fst (map (\<lambda>c. (ch_workload_id c, entry_of c)) cs))"
      using Cons.prems(1) by (auto simp: image_iff)
    from map_entry_fresh[OF this] 0 Cons.prems(3,4) show ?thesis by simp
  next
    case (Suc m)
    then have "ch_workload_id d \<noteq> ch_workload_id (cs ! m)" using Cons.prems(1,2) by auto
    with Suc Cons show ?thesis by simp
  qed
qed simp

lemma gd_ok_child_turn:
  assumes ok: "gd_ok s" and ids: "distinct (child_ids s)" and turn: "child_turn n s = Some s'"
  shows "gd_ok s' \<and> child_ids s' = child_ids s"
proof -
  let ?c = "gs_children s ! n" and ?g = "\<lambda>c. (ch_workload_id c, entry_of c)"
  have n: "n < length (gs_children s)" using turn by (auto simp: Let_def split: if_splits)
  have w: "ga_workloads (gs_agent s) = map ?g (gs_children s)" using ok by (simp add: gd_ok_def)
  have status: "status_ok ?c" using ok n by (simp add: gd_ok_def)
  show ?thesis
  proof (cases "ch_pc ?c")
    case Registered
    then have s': "s' = upd_child n (\<lambda>c. c\<lparr>ch_pc := Waiting\<rparr>) (gd_send (GdStartedEv (ch_workload_id ?c) (ch_pid ?c)) s)"
      using turn n by (simp add: Let_def)
    have "map ?g ((gs_children s)[n := ?c\<lparr>ch_pc := Waiting\<rparr>]) = map ?g (gs_children s)"
      using n Registered by (intro map_update_same) (auto simp: entry_of_def)
    then show ?thesis
      using Registered w
      by (intro gd_ok_child[OF ok ids n refl, of "?c\<lparr>ch_pc := Waiting\<rparr>" "[GdStartedEv (ch_workload_id ?c) (ch_pid ?c)]"])
        (auto simp: s' expected_def status_ok_def)
  next
    case Waiting
    then obtain st where st: "ch_status ?c = Some st" and s': "s' = upd_child n (\<lambda>c. c\<lparr>ch_pc := Reaped st\<rparr>) s"
      using turn n by (auto simp: Let_def)
    have "map ?g ((gs_children s)[n := ?c\<lparr>ch_pc := Reaped st\<rparr>]) = map ?g (gs_children s)"
      using n Waiting by (intro map_update_same) (auto simp: entry_of_def)
    then show ?thesis
      using Waiting w st
      by (intro gd_ok_child[OF ok ids n refl, of "?c\<lparr>ch_pc := Reaped st\<rparr>" "[]"])
        (auto simp: s' expected_def status_ok_def)
  next
    case (Reaped st)
    then have s': "s' = upd_child n (\<lambda>c. c\<lparr>ch_pc := Recorded st\<rparr>) (upd_agent (gd_record (ch_workload_id ?c) st) s)"
      using turn n by (simp add: Let_def)
    have "AList.map_entry (ch_workload_id ?c) (\<lambda>entry. entry\<lparr>ge_result := Some st\<rparr>) (map ?g (gs_children s)) =
        map ?g ((gs_children s)[n := ?c\<lparr>ch_pc := Recorded st\<rparr>])"
      using ids n Reaped by (intro map_entry_child) (simp_all add: child_ids_def entry_of_def)
    then show ?thesis
      using Reaped w status
      by (intro gd_ok_child[OF ok ids n refl, of "?c\<lparr>ch_pc := Recorded st\<rparr>" "[]"])
        (auto simp: s' expected_def status_ok_def gd_record_def)
  next
    case (Recorded st)
    then have s': "s' = upd_child n (\<lambda>c. c\<lparr>ch_pc := Reported st\<rparr>)
        (gd_send (GdExitedEv (ch_workload_id ?c) (fst st) (snd st)) s)"
      using turn n by (simp add: Let_def)
    have "map ?g ((gs_children s)[n := ?c\<lparr>ch_pc := Reported st\<rparr>]) = map ?g (gs_children s)"
      using n Recorded by (intro map_update_same) (auto simp: entry_of_def)
    then show ?thesis
      using Recorded w status
      by (intro gd_ok_child[OF ok ids n refl, of "?c\<lparr>ch_pc := Reported st\<rparr>"
            "[GdExitedEv (ch_workload_id ?c) (fst st) (snd st)]"])
        (auto simp: s' expected_def status_ok_def)
  next
    case (Reported st)
    then show ?thesis using turn n by (simp add: Let_def)
  qed
qed

text \<open>The process of a child and its pipes move on.\<close>

lemma gd_ok_process:
  assumes ok: "gd_ok s" and ids: "distinct (child_ids s)" and n: "n < length (gs_children s)"
    and f: "ch_workload_id (f (gs_children s ! n)) = ch_workload_id (gs_children s ! n)"
      "ch_pid (f (gs_children s ! n)) = ch_pid (gs_children s ! n)" "ch_pc (f (gs_children s ! n)) = ch_pc (gs_children s ! n)"
      "\<And>st. ch_status (gs_children s ! n) = Some st \<Longrightarrow> ch_status (f (gs_children s ! n)) = Some st"
  shows "gd_ok (upd_child n f s) \<and> child_ids (upd_child n f s) = child_ids s"
proof -
  let ?c = "gs_children s ! n" and ?g = "\<lambda>c. (ch_workload_id c, entry_of c)"
  have "map ?g ((gs_children s)[n := f ?c]) = map ?g (gs_children s)"
    using n f by (intro map_update_same) (auto simp: entry_of_def)
  moreover have "status_ok ?c" using ok n by (simp add: gd_ok_def)
  then have "status_ok (f ?c)" using f by (auto simp: status_ok_def split: child_pc.splits)
  moreover have "expected (f ?c) = expected ?c" using f by (simp add: expected_def split: child_pc.split)
  ultimately show ?thesis
    using ok f by (intro gd_ok_child[OF ok ids n refl f(1), of "[]"]) (auto simp: gd_ok_def)
qed

lemma monitor_turn_ok:
  assumes "monitor_turn idle s = Some s'" "gd_ok s"
  shows "gd_ok s' \<and> child_ids s' = child_ids s"
proof -
  have "\<exists>evs. events s' = events s @ evs \<and> set evs \<subseteq> {GdIdleEv} \<and> gs_children s' = gs_children s \<and> gs_agent s' = gs_agent s"
    using assms(1)
    by (auto simp: monitor_turn_def Let_def events_def gd_send_def split: option.splits monitor_pc.splits if_splits)
  then obtain evs where evs: "events s' = events s @ evs" "set evs \<subseteq> {GdIdleEv}"
    and same: "gs_children s' = gs_children s" "gs_agent s' = gs_agent s" by blast
  have idle: "ev = GdIdleEv" if "ev \<in> set evs" for ev using evs(2) that by blast
  show ?thesis
    by (rule gd_ok_same[OF assms(2) same(1) _ evs(1)]) (auto simp: same list_true_def dest!: idle)
qed

lemma gd_ok_send:
  "gd_ok s \<Longrightarrow> (\<And>wid. \<not> life_of wid ev) \<Longrightarrow> list_true (gs_children s) ev \<Longrightarrow> gd_ok (gd_send ev s)"
  by (rule gd_ok_same[where evs = "[ev]", THEN conjunct1]) simp_all

lemma gd_ok_tables:
  "gd_ok s \<Longrightarrow> gs_children s' = gs_children s \<Longrightarrow> ga_workloads (gs_agent s') = ga_workloads (gs_agent s) \<Longrightarrow>
     events s' = events s \<Longrightarrow> gd_ok s'"
  by (simp add: gd_ok_def child_ids_def)

lemma child_ids_fields: "gs_children s' = gs_children s \<Longrightarrow> child_ids s' = child_ids s"
  by (simp add: child_ids_def)

lemma child_ids_upd:
  "n < length (gs_children s) \<Longrightarrow> ch_workload_id (f (gs_children s ! n)) = ch_workload_id (gs_children s ! n) \<Longrightarrow>
     child_ids (upd_child n f s) = child_ids s"
  by (simp add: child_ids_def map_update_same)

text \<open>A step only adds children, and when no id is started twice it keeps the reports true.\<close>

lemma gd_step_ids: "gd_step s s' \<Longrightarrow> \<exists>more. child_ids s' = child_ids s @ more"
proof (induction rule: gd_step.induct)
  case (child n s s')
  then have "child_ids s' = child_ids s"
    by (auto simp: child_ids_def Let_def map_update_same split: if_splits child_pc.splits)
  then show ?case by simp
next
  case (monitor idle s s')
  then have "gs_children s' = gs_children s"
    by (auto simp: monitor_turn_def Let_def split: option.splits monitor_pc.splits if_splits)
  then show ?case by (simp add: child_ids_def)
next
  case (forward n s st buf rest)
  then show ?case by (simp add: child_ids_def map_update_same)
qed (simp_all add: child_ids_def map_update_same)

lemma gd_step_ok: "gd_step s s' \<Longrightarrow> distinct (child_ids s') \<Longrightarrow> gd_ok s \<Longrightarrow> gd_ok s'"
proof (induction rule: gd_step.induct)
  case (start_refused spawn wid cmd env cwd s a ev)
  then obtain m where "a = gs_agent s" "ev = GdErrorEv (Some wid) m" by (auto dest: gd_start_Inl)
  then show ?case using start_refused.prems(2) by (auto intro!: gd_ok_send simp: list_true_def)
next
  case (start spawn wid cmd env cwd s a pid)
  then have "wid \<notin> set (child_ids s)" by (auto simp: child_ids_def new_child_def)
  from gd_ok_start[OF start.prems(2) this] gd_start_Inr[OF start.hyps(1)] show ?case
    by (simp add: events_def)
next
  case (stop_refused wid s ev)
  then obtain m where "ev = GdErrorEv (Some wid) m" by (auto dest!: gd_stop_Inl)
  then show ?case using stop_refused.prems(2) by (auto intro!: gd_ok_send simp: list_true_def)
next
  case (list s)
  from list.prems(2) gd_list_true[OF list.prems(2)] show ?case by (auto intro!: gd_ok_send simp: gd_list_def)
next
  case (configure cmd secs s a fresh)
  then have "ga_workloads a = ga_workloads (gs_agent s)" by (auto simp: gd_configure_def Let_def split: if_splits)
  then show ?case using configure.prems(2) by (elim gd_ok_tables) (simp_all add: events_def)
next
  case (child n s s')
  then have "child_ids s' = child_ids s"
    by (auto simp: child_ids_def Let_def map_update_same split: if_splits child_pc.splits)
  with child gd_ok_child_turn show ?case by metis
next
  case (monitor idle s s')
  then show ?case using monitor_turn_ok by blast
next
  case (forward n s st buf rest)
  let ?ev = "gd_chunk (ch_workload_id (gs_children s ! n)) st buf"
  have "gd_ok (gd_send ?ev s)"
    using forward.prems(2) by (auto intro!: gd_ok_send simp: gd_chunk_def list_true_def)
  moreover have "distinct (child_ids (gd_send ?ev s))"
    using forward by (simp add: child_ids_def map_update_same)
  ultimately show ?case using forward.hyps(1) by (intro gd_ok_process[THEN conjunct1]) simp_all
next
  case (writes n s st data)
  then show ?case by (intro gd_ok_process[THEN conjunct1]) (simp_all add: child_ids_def map_update_same)
next
  case (exits n s status)
  then show ?case by (intro gd_ok_process[THEN conjunct1]) (simp_all add: child_ids_def map_update_same)
qed (erule gd_ok_tables; simp add: events_def upd_agent_def)+

lemma gd_reachable_ok: "gd_reachable s \<Longrightarrow> distinct (child_ids s) \<Longrightarrow> gd_ok s"
  unfolding gd_reachable_def
proof (induction rule: rtranclp_induct)
  case base
  then show ?case by (simp add: gd_ok_def gd_sys_init_def gd_agent_new_def events_def child_ids_def)
next
  case (step s s')
  then have "distinct (child_ids s)" using gd_step_ids by fastforce
  with step show ?case by (blast intro: gd_step_ok)
qed

lemma expected_true:
  "status_ok c \<Longrightarrow> expected c \<in>
     {[], [GdStartedEv (ch_workload_id c) (ch_pid c)]} \<union>
     {[GdStartedEv (ch_workload_id c) (ch_pid c), GdExitedEv (ch_workload_id c) code sig] | code sig.
        ch_status c = Some (code, sig)}"
  by (cases "ch_pc c") (auto simp: expected_def status_ok_def)


section \<open>What hostd learns\<close>

text \<open>The event as hostd's enum has it: both sides name the variants, fields and values alike.\<close>

fun stream_name :: "gd_stream \<Rightarrow> string" where
  "stream_name GdStdout = ''stdout''"
| "stream_name GdStderr = ''stderr''"

definition host_info :: "gd_info \<Rightarrow> guest_workload_info" where
  "host_info i = \<lparr>gw_id = gi_workload_id i,
     gw_state = (case gi_state i of GdRunning \<Rightarrow> ''running'' | GdExited \<Rightarrow> ''exited''),
     gw_exit_code = gi_exit_code i, gw_signal = gi_signal i\<rparr>"

fun host_event :: "gd_event \<Rightarrow> guest_event" where
  "host_event (GdStartedEv w pid) = EvStarted w pid"
| "host_event (GdOutputEv w st data) = EvOutput w (stream_name st) data"
| "host_event (GdExitedEv w code sig) = EvExited w code sig"
| "host_event (GdErrorEv w m) = EvError w m"
| "host_event (GdListEv infos) = EvListResult (map host_info infos)"
| "host_event GdIdleEv = EvIdle"

text \<open>\<open>deliver\<close>: hostd handles these events of the VM, each at its time.\<close>

definition deliver :: "vm_id \<Rightarrow> string \<Rightarrow> (instant \<times> gd_event) list \<Rightarrow> 'h vmm \<Rightarrow> 'h vmm" where
  "deliver vm dir evs v = foldl (\<lambda>v (now, ev). fst (handle_guest_event now vm dir (host_event ev) v)) v evs"

text \<open>\<open>honest s w\<close>: when the workload is over by an exit, its process ended with just that status.\<close>

definition honest :: "gd_sys \<Rightarrow> string \<Rightarrow> workload \<Rightarrow> bool" where
  "honest s wid w \<longleftrightarrow> (wl_state w \<in> {WlExited, WlStopped} \<longrightarrow>
     (\<exists>c \<in> set (gs_children s). ch_workload_id c = wid \<and> ch_status c = Some (wl_exit_code w, wl_signal w)))"

definition honest_table :: "gd_sys \<Rightarrow> vm_id \<Rightarrow> 'h vmm \<Rightarrow> bool" where
  "honest_table s vm v \<longleftrightarrow> (\<forall>wid w. map_of (workloads_of v vm) wid = Some w \<longrightarrow> honest s wid w)"

definition ended_with :: "gd_sys \<Rightarrow> string \<Rightarrow> int option \<Rightarrow> int option \<Rightarrow> bool" where
  "ended_with s wid code sig \<longleftrightarrow> (\<exists>c \<in> set (gs_children s). ch_workload_id c = wid \<and> ch_status c = Some (code, sig))"

lemma honest_running: "honest s wid w \<Longrightarrow> honest s wid (mark_running now pid w)"
  by (auto simp: honest_def mark_running_def Let_def)

lemma honest_failed: "honest s wid w \<Longrightarrow> honest s wid (mark_failed now w)"
  by (auto simp: honest_def mark_failed_def)

lemma honest_finished: "honest s wid w \<Longrightarrow> ended_with s wid code sig \<Longrightarrow> honest s wid (mark_finished now code sig w)"
  by (auto simp: honest_def mark_finished_def ended_with_def)

lemma honest_mut:
  "honest_table s vm v \<Longrightarrow> (\<And>w. honest s wid w \<Longrightarrow> honest s wid (f w)) \<Longrightarrow> honest_table s vm (with_workload_mut vm wid f v)"
  by (auto simp: honest_table_def map_simps)

lemma honest_reconcile:
  "honest s (gi_workload_id i) w \<Longrightarrow>
     (gi_state i = GdExited \<Longrightarrow> ended_with s (gi_workload_id i) (gi_exit_code i) (gi_signal i)) \<Longrightarrow>
     honest s (gi_workload_id i) (reconcile_workload now (host_info i) w)"
  by (cases "gi_state i") (auto simp: reconcile_workload_def host_info_def honest_running honest_finished)

lemma honest_listing:
  assumes "honest_table s vm v"
    and "\<And>i. i \<in> set infos \<Longrightarrow> gi_state i = GdExited \<Longrightarrow> ended_with s (gi_workload_id i) (gi_exit_code i) (gi_signal i)"
  shows "honest_table s vm (foldl (\<lambda>v info. with_workload_mut vm (gw_id info) (reconcile_workload now info) v) v
    (map host_info infos))"
  using assms
proof (induction infos arbitrary: v)
  case (Cons i infos)
  have "gw_id (host_info i) = gi_workload_id i" by (simp add: host_info_def)
  moreover have "honest_table s vm (with_workload_mut vm (gi_workload_id i) (reconcile_workload now (host_info i)) v)"
    using Cons.prems by (intro honest_mut honest_reconcile) auto
  ultimately show ?case using Cons by simp
qed simp

text \<open>\<open>guest_reports_true\<close> for one event.\<close>

lemma exit_event_true:
  assumes "gd_ok s" "GdExitedEv wid code sig \<in> set (events s)"
  shows "ended_with s wid code sig"
proof -
  have mem: "GdExitedEv wid code sig \<in> set (filter (life_of wid) (events s))" using assms(2) by simp
  with assms(1) have "wid \<in> set (child_ids s)" unfolding gd_ok_def by (metis empty_iff list.set(1))
  then obtain c where c: "c \<in> set (gs_children s)" "wid = ch_workload_id c" by (auto simp: child_ids_def)
  with assms(1) mem have "GdExitedEv wid code sig \<in> set (expected c)" "status_ok c" by (auto simp: gd_ok_def)
  with c show ?thesis
    unfolding ended_with_def by (intro bexI[of _ c]) (cases "ch_pc c"; auto simp: expected_def status_ok_def)+
qed

lemma listing_true:
  assumes "gd_ok s" "GdListEv infos \<in> set (events s)" "i \<in> set infos" "gi_state i = GdExited"
  shows "ended_with s (gi_workload_id i) (gi_exit_code i) (gi_signal i)"
proof -
  have "info_true (gs_children s) i" using assms(1-3) unfolding gd_ok_def list_true_def by blast
  with assms(4) show ?thesis by (auto simp: info_true_def ended_with_def)
qed

lemma honest_active: "is_active w \<Longrightarrow> honest s wid w"
  by (auto simp: honest_def is_active_def)

lemma honest_event:
  assumes ok: "gd_ok s" and ev: "ev \<in> set (events s)" and v: "honest_table s vm v"
  shows "honest_table s vm (fst (handle_guest_event now vm dir (host_event ev) v))"
proof (cases ev)
  case (GdStartedEv w pid)
  then show ?thesis using v honest_running by (auto simp: handle_guest_event_def intro!: honest_mut)
next
  case (GdExitedEv w code sig)
  then show ?thesis
    using v honest_finished exit_event_true[OF ok] ev by (auto simp: handle_guest_event_def intro!: honest_mut)
next
  case (GdErrorEv w m)
  then show ?thesis
    using v honest_failed by (cases w) (auto simp: handle_guest_event_def intro!: honest_mut)
next
  case (GdListEv infos)
  then show ?thesis
    using honest_listing[OF v listing_true[OF ok]] ev by (simp add: handle_guest_event_def)
qed (use v in \<open>simp_all add: handle_guest_event_def\<close>)

text \<open>An \<open>exited\<close> event settles its workload, and nothing unsettles one.\<close>

definition settled :: "vm_id \<Rightarrow> string \<Rightarrow> 'h vmm \<Rightarrow> bool" where
  "settled vm wid v \<longleftrightarrow> (\<forall>w. map_of (workloads_of v vm) wid = Some w \<longrightarrow> \<not> is_active w)"

lemma workload_run_over: "\<not> is_active w \<Longrightarrow> \<not> is_active (foldl workload_step w evs)"
  by (induction evs arbitrary: w) (auto dest: workload_step_active)

lemma settled_evolves: "settled vm wid v \<Longrightarrow> evolves v v' \<Longrightarrow> settled vm wid v'"
  unfolding settled_def
proof (intro allI impI)
  fix w'
  assume s: "\<forall>w. map_of (workloads_of v vm) wid = Some w \<longrightarrow> \<not> is_active w" and e: "evolves v v'"
    and w': "map_of (workloads_of v' vm) wid = Some w'"
  from e[unfolded evolves_def, rule_format, OF w'] obtain w evs
    where "map_of (workloads_of v vm) wid = Some w" "w' = foldl workload_step w evs" by blast
  with s show "\<not> is_active w'" by (simp add: workload_run_over)
qed

lemma exit_settles: "settled vm wid (fst (handle_guest_event now vm dir (EvExited wid code sig) v))"
proof -
  have "\<not> is_active (mark_finished now code sig w)" for w
    by (cases "wl_stop_requested w") (simp_all add: mark_finished_def is_active_def)
  then show ?thesis by (auto simp: settled_def handle_guest_event_def map_simps)
qed

lemma deliver_Cons:
  "deliver vm dir ((now, ev) # evs) v = deliver vm dir evs (fst (handle_guest_event now vm dir (host_event ev) v))"
  by (simp add: deliver_def)

lemma deliver_evolves: "evolves v (deliver vm dir evs v)"
proof (induction evs arbitrary: v)
  case Nil
  then show ?case by (simp add: deliver_def evolves_tables)
next
  case (Cons e evs)
  show ?case
    by (cases e) (simp add: deliver_Cons evolves_trans[OF guest_event_evolves Cons.IH])
qed

lemma deliver_settles: "(now, GdExitedEv wid code sig) \<in> set evs \<Longrightarrow> settled vm wid (deliver vm dir evs v)"
proof (induction evs arbitrary: v)
  case (Cons e evs)
  then show ?case
    using settled_evolves[OF exit_settles deliver_evolves] by (cases e) (auto simp: deliver_Cons)
qed simp


section \<open>Stopping\<close>

text \<open>Every entry is of a started process; a thread that stops has found such a one, and escalates only
  after its SIGTERM.\<close>

definition child_of :: "gd_sys \<Rightarrow> string \<Rightarrow> u32 \<Rightarrow> bool" where
  "child_of s wid pid \<longleftrightarrow> (\<exists>c \<in> set (gs_children s). ch_workload_id c = wid \<and> ch_pid c = pid)"

fun stop_ok :: "gd_sys \<Rightarrow> (nat \<times> u32 \<times> string) list \<Rightarrow> string \<times> u32 \<times> stop_pc \<Rightarrow> bool" where
  "stop_ok s sigs (wid, pid, pc) \<longleftrightarrow> child_of s wid pid \<and> (pc \<noteq> StopFound \<longrightarrow> (15, pid, wid) \<in> set sigs)"

fun signal_ok :: "gd_sys \<Rightarrow> (nat \<times> u32 \<times> string) list \<Rightarrow> nat \<times> u32 \<times> string \<Rightarrow> bool" where
  "signal_ok s sigs (k, pid, wid) \<longleftrightarrow> child_of s wid pid \<and> (k = 15 \<or> k = 9 \<and> (15, pid, wid) \<in> set sigs)"

definition stops_ok :: "gd_sys \<Rightarrow> bool" where
  "stops_ok s \<longleftrightarrow>
     (\<forall>(wid, e) \<in> set (ga_workloads (gs_agent s)). child_of s wid (ge_pid e)) \<and>
     (\<forall>t \<in> set (gs_stops s). stop_ok s (gs_signals s) t) \<and>
     (\<forall>g \<in> set (gs_signals s). signal_ok s (gs_signals s) g)"

lemma stop_ok_mono:
  assumes "\<And>wid pid. child_of s wid pid \<Longrightarrow> child_of s' wid pid" "set sigs \<subseteq> set sigs'"
  shows "stop_ok s sigs t \<Longrightarrow> stop_ok s' sigs' t" "signal_ok s sigs g \<Longrightarrow> signal_ok s' sigs' g"
proof -
  obtain wid pid pc where t: "t = (wid, pid, pc)" by (cases t)
  show "stop_ok s sigs t \<Longrightarrow> stop_ok s' sigs' t" unfolding t stop_ok.simps using assms by blast
  obtain k p w where g: "g = (k, p, w)" by (cases g)
  show "signal_ok s sigs g \<Longrightarrow> signal_ok s' sigs' g" unfolding g signal_ok.simps using assms by blast
qed

lemma child_of_tables [simp]:
  "child_of (s\<lparr>gs_stops := ts\<rparr>) = child_of s" "child_of (s\<lparr>gs_signals := sigs\<rparr>) = child_of s"
  by (simp_all add: child_of_def fun_eq_iff)

lemma stops_ok_same:
  assumes ok: "stops_ok s" and child: "\<And>wid pid. child_of s wid pid \<Longrightarrow> child_of s' wid pid"
    and "\<And>wid e. (wid, e) \<in> set (ga_workloads (gs_agent s')) \<Longrightarrow> child_of s' wid (ge_pid e)"
    and same: "gs_stops s' = gs_stops s" "gs_signals s' = gs_signals s"
  shows "stops_ok s'"
proof -
  note mono = stop_ok_mono[OF child subset_refl]
  show ?thesis
    using ok assms(3) mono unfolding stops_ok_def same by blast
qed

lemma stops_ok_frame:
  assumes "stops_ok s" "\<And>wid pid. child_of s' wid pid = child_of s wid pid"
    and "ga_workloads (gs_agent s') = ga_workloads (gs_agent s)"
    and "gs_stops s' = gs_stops s" "gs_signals s' = gs_signals s"
  shows "stops_ok s'"
  by (rule stops_ok_same[OF assms(1)]) (use assms in \<open>auto simp: stops_ok_def\<close>)

lemma stops_ok_turn:
  assumes ok: "stops_ok s" and split: "gs_stops s = ts @ (wid, pid, pc) # us"
    and turn: "stop_turn (gs_agent s) (wid, pid, pc) = (t', sigs)"
  shows "stops_ok (s\<lparr>gs_stops := ts @ t' @ us, gs_signals := gs_signals s @ sigs\<rparr>)" (is "stops_ok ?s")
proof -
  have child: "child_of ?s w p = child_of s w p" for w p by (simp add: child_of_def)
  note mono = stop_ok_mono[of s ?s "gs_signals s" "gs_signals s @ sigs"]
  have self: "child_of s wid pid" "pc \<noteq> StopFound \<longrightarrow> (15, pid, wid) \<in> set (gs_signals s)"
    using ok split by (auto simp: stops_ok_def)
  have "stop_ok ?s (gs_signals s @ sigs) t" if "t \<in> set t'" for t
    using turn that self by (cases pc) (auto simp: stop_turn_def child split: if_splits)
  moreover have "signal_ok ?s (gs_signals s @ sigs) g" if "g \<in> set sigs" for g
    using turn that self by (cases pc) (auto simp: stop_turn_def child split: if_splits)
  moreover have "stop_ok ?s (gs_signals s @ sigs) t" if "t \<in> set ts \<union> set us" for t
    using ok split that mono(1) by (auto simp: stops_ok_def child)
  moreover have "signal_ok ?s (gs_signals s @ sigs) g" if "g \<in> set (gs_signals s)" for g
    using ok that mono(2) by (auto simp: stops_ok_def child)
  moreover have "\<forall>(wid, e) \<in> set (ga_workloads (gs_agent s)). child_of ?s wid (ge_pid e)"
    using ok by (simp add: stops_ok_def child)
  ultimately show ?thesis
    unfolding stops_ok_def by (intro conjI) (auto simp del: stop_ok.simps signal_ok.simps)
qed

lemma map_entry_pids:
  "(wid, e) \<in> set (AList.map_entry k (\<lambda>e. e\<lparr>ge_result := r\<rparr>) al) \<Longrightarrow> \<exists>e'. (wid, e') \<in> set al \<and> ge_pid e' = ge_pid e"
  by (induction al) (auto split: if_splits)

lemma child_of_upd:
  assumes "n < length (gs_children s)"
    and "ch_workload_id (f (gs_children s ! n)) = ch_workload_id (gs_children s ! n)"
      "ch_pid (f (gs_children s ! n)) = ch_pid (gs_children s ! n)"
  shows "child_of (upd_child n f s) wid pid = child_of s wid pid"
proof -
  have eq: "map (\<lambda>c. (ch_workload_id c, ch_pid c)) (gs_children (upd_child n f s)) = map (\<lambda>c. (ch_workload_id c, ch_pid c)) (gs_children s)"
    using assms by (simp add: map_update_same)
  have "child_of u wid pid \<longleftrightarrow> (wid, pid) \<in> set (map (\<lambda>c. (ch_workload_id c, ch_pid c)) (gs_children u))" for u
    by (auto simp: child_of_def)
  from this[of s] this[of "upd_child n f s"] show ?thesis unfolding eq by simp
qed

lemma child_of_fields: "gs_children s' = gs_children s \<Longrightarrow> child_of s' wid pid = child_of s wid pid"
  by (simp add: child_of_def)

lemma tables_fields [simp]:
  "gs_stops (upd_child n f s) = gs_stops s" "gs_signals (upd_child n f s) = gs_signals s"
  "gs_stops (gd_send ev s) = gs_stops s" "gs_signals (gd_send ev s) = gs_signals s"
  "gs_stops (upd_agent g s) = gs_stops s" "gs_signals (upd_agent g s) = gs_signals s"
  by (simp_all add: upd_child_def gd_send_def upd_agent_def)

lemma child_turn_shape:
  assumes "child_turn n s = Some s'"
  shows "n < length (gs_children s) \<and> (\<exists>pc u. s' = upd_child n (\<lambda>c. c\<lparr>ch_pc := pc\<rparr>) u \<and>
    (u = s \<or> (\<exists>ev. u = gd_send ev s) \<or> (\<exists>w st. u = upd_agent (gd_record w st) s)))"
proof -
  have n: "n < length (gs_children s)" using assms by (auto simp: Let_def split: if_splits)
  show ?thesis
  proof (cases "ch_pc (gs_children s ! n)")
    case Registered
    then have "s' = upd_child n (\<lambda>c. c\<lparr>ch_pc := Waiting\<rparr>)
        (gd_send (GdStartedEv (ch_workload_id (gs_children s ! n)) (ch_pid (gs_children s ! n))) s)"
      using assms n by (simp add: Let_def)
    with n show ?thesis by blast
  next
    case Waiting
    then obtain st where "s' = upd_child n (\<lambda>c. c\<lparr>ch_pc := Reaped st\<rparr>) s" using assms n by (auto simp: Let_def)
    with n show ?thesis by blast
  next
    case (Reaped st)
    then have "s' = upd_child n (\<lambda>c. c\<lparr>ch_pc := Recorded st\<rparr>)
        (upd_agent (gd_record (ch_workload_id (gs_children s ! n)) st) s)" using assms n by (simp add: Let_def)
    with n show ?thesis by blast
  next
    case (Recorded st)
    then have "s' = upd_child n (\<lambda>c. c\<lparr>ch_pc := Reported st\<rparr>)
        (gd_send (GdExitedEv (ch_workload_id (gs_children s ! n)) (fst st) (snd st)) s)"
      using assms n by (simp add: Let_def)
    with n show ?thesis by blast
  next
    case (Reported st)
    with assms n show ?thesis by (simp add: Let_def)
  qed
qed

lemma stops_ok_child_turn:
  assumes ok: "stops_ok s" and turn: "child_turn n s = Some s'"
  shows "stops_ok s'"
proof -
  from child_turn_shape[OF turn] obtain pc u where n: "n < length (gs_children s)"
    and s': "s' = upd_child n (\<lambda>c. c\<lparr>ch_pc := pc\<rparr>) u"
    and u: "u = s \<or> (\<exists>ev. u = gd_send ev s) \<or> (\<exists>w st. u = upd_agent (gd_record w st) s)" by blast
  have same: "gs_children u = gs_children s" "gs_stops u = gs_stops s" "gs_signals u = gs_signals s" using u by auto
  have child: "child_of s' wid pid = child_of s wid pid" for wid pid
    using n same(1) by (simp add: s' child_of_upd child_of_fields[OF same(1)])
  have pids: "\<exists>e'. (wid, e') \<in> set (ga_workloads (gs_agent s)) \<and> ge_pid e' = ge_pid e"
    if "(wid, e) \<in> set (ga_workloads (gs_agent u))" for wid e
    using u that by (auto simp: gd_record_def dest: map_entry_pids)
  show ?thesis
  proof (rule stops_ok_same[OF ok])
    fix wid e assume "(wid, e) \<in> set (ga_workloads (gs_agent s'))"
    then obtain e' where "(wid, e') \<in> set (ga_workloads (gs_agent s))" "ge_pid e' = ge_pid e"
      using pids by (auto simp: s')
    with ok show "child_of s' wid (ge_pid e)" unfolding child stops_ok_def by fastforce
  next
    fix wid pid assume "child_of s wid pid"
    then show "child_of s' wid pid" unfolding child .
  qed (simp_all add: s' same)
qed

lemma stops_ok_step: "gd_step s s' \<Longrightarrow> stops_ok s \<Longrightarrow> stops_ok s'"
proof (induction rule: gd_step.induct)
  case (start_refused spawn wid cmd env cwd s a ev)
  then have "a = gs_agent s" by (auto dest: gd_start_Inl)
  then show ?case
    using start_refused.prems by (elim stops_ok_frame) (simp_all add: child_of_def)
next
  case (start spawn wid cmd env cwd s a pid)
  have a: "a = (gs_agent s)\<lparr>ga_workloads := AList.update wid \<lparr>ge_pid = pid, ge_result = None\<rparr> (ga_workloads (gs_agent s))\<rparr>"
    using start.hyps(1) by (rule gd_start_Inr)
  let ?s = "s\<lparr>gs_agent := a, gs_children := gs_children s @ [new_child wid pid]\<rparr>"
  have old: "child_of s w p \<Longrightarrow> child_of ?s w p" for w p by (auto simp: child_of_def)
  have new: "child_of ?s wid pid" by (auto simp: child_of_def new_child_def)
  have upd: "(w, e) \<in> set (AList.update wid x al) \<Longrightarrow> (w = wid \<and> e = x) \<or> (w, e) \<in> set al" for w e x and al :: "(string, gd_entry) amap"
    by (induction al) (auto split: if_splits)
  show ?case
  proof (rule stops_ok_same[OF start.prems old])
    fix w e assume "(w, e) \<in> set (ga_workloads (gs_agent ?s))"
    then consider "w = wid" "ge_pid e = pid" | "(w, e) \<in> set (ga_workloads (gs_agent s))"
      by (auto simp: a dest!: upd)
    then show "child_of ?s w (ge_pid e)"
      using new old start.prems by cases (auto simp: stops_ok_def)
  qed simp_all
next
  case (stop_refused wid s ev)
  then show ?case by (elim stops_ok_frame) (simp_all add: child_of_def)
next
  case (stop wid s pid)
  then obtain e where e: "map_of (ga_workloads (gs_agent s)) wid = Some e" "ge_pid e = pid"
    by (auto simp: gd_stop_def split: option.splits if_splits)
  then have "child_of s wid pid" using stop.prems map_of_SomeD unfolding stops_ok_def by fast
  then show ?case using stop.prems by (auto simp: stops_ok_def child_of_def)
next
  case (list s)
  then show ?case by (elim stops_ok_frame) (simp_all add: child_of_def)
next
  case (configure cmd secs s a fresh)
  then have "ga_workloads a = ga_workloads (gs_agent s)" by (auto simp: gd_configure_def Let_def split: if_splits)
  then show ?case using configure.prems by (elim stops_ok_frame) (simp_all add: child_of_def)
next
  case (child n s s')
  show ?case by (rule stops_ok_child_turn[OF child.prems child.hyps])
next
  case (stopping s ts t us t' sigs)
  then show ?case by (cases t) (auto intro: stops_ok_turn)
next
  case (monitor idle s s')
  then have "gs_children s' = gs_children s \<and> gs_agent s' = gs_agent s \<and> gs_stops s' = gs_stops s \<and> gs_signals s' = gs_signals s"
    by (auto simp: monitor_turn_def Let_def gd_send_def split: option.splits monitor_pc.splits if_splits)
  then show ?case using monitor.prems by (elim stops_ok_frame) (simp_all add: child_of_def)
next
  case (forward n s st buf rest)
  let ?ev = "gd_chunk (ch_workload_id (gs_children s ! n)) st buf"
  have "child_of (upd_child n f (gd_send ?ev s)) w p = child_of s w p"
    if "\<And>c. ch_workload_id (f c) = ch_workload_id c \<and> ch_pid (f c) = ch_pid c" for f w p
    using forward.hyps(1) that by (simp add: child_of_upd child_of_fields[of "gd_send ?ev s" s])
  then show ?case using forward.prems by (elim stops_ok_frame) simp_all
next
  case (writes n s st data)
  then show ?case by (elim stops_ok_frame) (simp_all add: child_of_upd)
next
  case (exits n s status)
  then show ?case by (elim stops_ok_frame) (simp_all add: child_of_upd)
next
  case (connect s w)
  then show ?case by (elim stops_ok_frame) (simp_all add: child_of_def)
next
  case (disconnect s w)
  then show ?case by (elim stops_ok_frame) (simp_all add: child_of_def)
next
  case (other_begins pid s)
  then show ?case by (elim stops_ok_frame) (simp_all add: child_of_def)
next
  case (other_ends s pid)
  then show ?case by (elim stops_ok_frame) (simp_all add: child_of_def)
qed

lemma gd_reachable_stops: "gd_reachable s \<Longrightarrow> stops_ok s"
  unfolding gd_reachable_def
proof (induction rule: rtranclp_induct)
  case base
  then show ?case by (simp add: stops_ok_def gd_sys_init_def gd_agent_new_def)
next
  case (step s s')
  then show ?case using stops_ok_step by blast
qed

text \<open>guestd signals only what it was asked to stop: every signal is SIGTERM or SIGKILL, to the process
  id that was started as the workload in question, and SIGKILL only after SIGTERM to the same.\<close>

theorem stop_signals:
  assumes "gd_reachable s" "(k, pid, wid) \<in> set (gs_signals s)"
  shows "(\<exists>c \<in> set (gs_children s). ch_workload_id c = wid \<and> ch_pid c = pid) \<and>
    (k = 15 \<or> k = 9 \<and> (15, pid, wid) \<in> set (gs_signals s))"
proof -
  have "signal_ok s (gs_signals s) (k, pid, wid)"
    using gd_reachable_stops[OF assms(1)] assms(2) unfolding stops_ok_def by blast
  then show ?thesis by (simp add: child_of_def)
qed

section \<open>A run\<close>

text \<open>A workload is started, announced, writes to its output, is told to stop, and ends.\<close>

definition run_started :: gd_sys where
  "run_started = gd_sys_init\<lparr>
     gs_agent := \<lparr>ga_workloads = [(''wl-'', \<lparr>ge_pid = 7, ge_result = None\<rparr>)], ga_conn = Some 1, ga_config = None, ga_started = False\<rparr>,
     gs_children := [new_child ''wl-'' 7]\<rparr>"

lemma run_started_reachable: "gd_reachable run_started"
proof -
  have "gd_step (upd_agent (set_conn 1) gd_sys_init) run_started"
    using gd_step.start[of "\<lambda>_ _ _ _. Inr 7" "''wl-''" "[''true'']" "[]" None "upd_agent (set_conn 1) gd_sys_init"]
    by (simp add: gd_start_def run_started_def gd_sys_init_def upd_agent_def set_conn_def gd_agent_new_def pids_in_use_def)
  then show ?thesis by (meson gd_reachable_init gd_reachable_step gd_step.connect)
qed

definition run_announced :: gd_sys where
  "run_announced = run_started\<lparr>gs_children := [(new_child ''wl-'' 7)\<lparr>ch_pc := Waiting\<rparr>],
     gs_emitted := [(Some 1, GdStartedEv ''wl-'' 7)]\<rparr>"

lemma run_announced_reachable: "gd_reachable run_announced"
proof -
  have "child_turn 0 run_started = Some run_announced"
    by (simp add: run_started_def run_announced_def gd_sys_init_def new_child_def upd_child_def gd_send_def Let_def)
  then show ?thesis by (meson run_started_reachable gd_reachable_step gd_step.child)
qed

text \<open>It has written \<open>hi\<close>, of which nothing was read yet, and ended; its thread has told hostd.\<close>

definition run_over :: "gd_child \<Rightarrow> gd_child" where
  "run_over c = c\<lparr>ch_status := Some (Some 0, None), ch_pipe := (ch_pipe c)(GdStdout := ''hi'')\<rparr>"

definition run_reported :: gd_sys where
  "run_reported = run_announced\<lparr>
     gs_agent := (gs_agent run_announced)\<lparr>ga_workloads := [(''wl-'', \<lparr>ge_pid = 7, ge_result = Some (Some 0, None)\<rparr>)]\<rparr>,
     gs_children := [(run_over (new_child ''wl-'' 7))\<lparr>ch_pc := Reported (Some 0, None)\<rparr>],
     gs_emitted := [(Some 1, GdStartedEv ''wl-'' 7), (Some 1, GdExitedEv ''wl-'' (Some 0) None)]\<rparr>"

lemma run_reported_reachable: "gd_reachable run_reported"
proof -
  note defs = run_started_def run_announced_def run_reported_def run_over_def gd_sys_init_def new_child_def
    upd_child_def gd_send_def Let_def upd_agent_def gd_record_def
  define w where "w = upd_child 0 (\<lambda>c. c\<lparr>ch_pipe := (ch_pipe c)(GdStdout := ch_pipe c GdStdout @ ''hi'')\<rparr>) run_announced"
  define e where "e = upd_child 0 (\<lambda>c. c\<lparr>ch_status := Some (Some 0, None)\<rparr>) w"
  have "gd_step run_announced w" unfolding w_def by (rule gd_step.writes) (simp_all add: defs)
  moreover have "gd_step w e" unfolding e_def by (rule gd_step.exits) (simp_all add: defs w_def)
  moreover have "child_turn 0 e \<noteq> None" by (simp add: defs w_def e_def)
  then obtain r where r: "child_turn 0 e = Some r" by blast
  have "child_turn 0 r \<noteq> None" using r by (auto simp: defs w_def e_def)
  then obtain q where q: "child_turn 0 r = Some q" by blast
  have "child_turn 0 q = Some run_reported" using r q by (auto simp: defs w_def e_def)
  ultimately show ?thesis using r q by (meson run_announced_reachable gd_reachable_step gd_step.child)
qed

definition run_output :: gd_sys where
  "run_output = upd_child 0 (\<lambda>c. c\<lparr>ch_pipe := (ch_pipe c)(GdStdout := [])\<rparr>)
     (gd_send (gd_chunk ''wl-'' GdStdout ''hi'') run_reported)"

lemma run_output_reachable: "gd_reachable run_output"
proof -
  have "gd_step run_reported run_output"
    using gd_step.forward[of 0 run_reported GdStdout "''hi''" "[]"]
    by (simp add: run_output_def run_reported_def run_over_def new_child_def OUTPUT_BUF_SIZE_def)
  with run_reported_reachable show ?thesis by (rule gd_reachable_step)
qed

lemma run_events:
  "events run_reported = [GdStartedEv ''wl-'' 7, GdExitedEv ''wl-'' (Some 0) None]"
  "events run_output = [GdStartedEv ''wl-'' 7, GdExitedEv ''wl-'' (Some 0) None, GdOutputEv ''wl-'' GdStdout ''hi'']"
  "child_ids run_reported = [''wl-'']" "child_ids run_output = [''wl-'']"
proof -
  have "utf8_lossy ''hi'' = ''hi''" by (intro utf8_lossy_ok utf8_ok_ascii) simp
  then show "events run_output = [GdStartedEv ''wl-'' 7, GdExitedEv ''wl-'' (Some 0) None, GdOutputEv ''wl-'' GdStdout ''hi'']"
    by (simp add: run_output_def run_reported_def events_def upd_child_def gd_send_def gd_chunk_def)
qed (simp_all add: run_output_def run_reported_def events_def child_ids_def run_over_def new_child_def upd_child_def gd_send_def gd_chunk_def)

lemma get_workload_mut:
  "get_workload vm wid v = Inr w \<Longrightarrow> get_workload vm wid (with_workload_mut vm wid f v) = Inr (f w)"
  by (auto simp: get_workload_def with_workload_mut_def set_entry_def map_simps ok_or_def split: option.splits)

text \<open>C27: The exit of a process may be reported before output it wrote before exiting: there is a run in which
  hostd is sent \<open>started\<close>, \<open>exited\<close> and only then \<open>output\<close>.  Once the first two are delivered, a waiting
  \<open>exec\<close> is done at its next poll and reads the logs, which do not hold that output.\<close>

theorem exec_may_miss_output:
  "\<exists>s st ex out. gd_reachable s \<and> distinct (child_ids s) \<and> events s = [st, ex, out] \<and>
     ex = GdExitedEv ''wl-'' (Some 0) None \<and> out = GdOutputEv ''wl-'' GdStdout ''hi'' \<and>
     (\<forall>v vm dir now. case get_workload vm ''wl-'' v of Inl _ \<Rightarrow> True | Inr w \<Rightarrow>
        exec_poll vm ''wl-'' 0 (deliver vm dir [(now, st), (now, ex)] v) =
          Some (ExecDone (mark_finished now (Some 0) None (mark_running now (Some 7) w))))"
proof (intro exI conjI allI)
  show "gd_reachable run_output" by (rule run_output_reachable)
  show "distinct (child_ids run_output)" by (simp add: run_events)
  show "events run_output = [GdStartedEv ''wl-'' 7, GdExitedEv ''wl-'' (Some 0) None, GdOutputEv ''wl-'' GdStdout ''hi'']"
    by (rule run_events)
next
  fix v :: "'a vmm" and vm dir and now :: nat
  have over: "\<not> is_active (mark_finished now code sig w)" for code sig w
    by (cases "wl_stop_requested w") (simp_all add: mark_finished_def is_active_def)
  show "case get_workload vm ''wl-'' v of Inl _ \<Rightarrow> True | Inr w \<Rightarrow>
      exec_poll vm ''wl-'' 0 (deliver vm dir [(now, GdStartedEv ''wl-'' 7), (now, GdExitedEv ''wl-'' (Some 0) None)] v) =
        Some (ExecDone (mark_finished now (Some 0) None (mark_running now (Some 7) w)))"
    by (cases "get_workload vm ''wl-'' v")
      (simp_all add: deliver_def handle_guest_event_def exec_poll_def get_workload_mut over)
qed (rule refl)+

text \<open>C28: A stop looks the process up and signals it in two steps: there is a run in which the process has ended
  and been reaped in between and its id belongs to a process that guestd never started, which then
  gets the SIGTERM.\<close>

theorem stop_may_hit_stranger:
  "\<exists>s s'. gd_reachable s \<and> distinct (child_ids s) \<and> gd_step s s' \<and> gs_signals s = [] \<and>
     gs_signals s' = [(15, 7, ''wl-'')] \<and> 7 \<in> gs_others s \<and> filter (\<lambda>c. \<not> reaped c) (gs_children s) = []"
proof -
  note defs = run_started_def run_announced_def gd_sys_init_def new_child_def upd_child_def Let_def
  define a where "a = run_announced\<lparr>gs_stops := [(''wl-'', 7, StopFound)]\<rparr>"
  define b where "b = upd_child 0 (\<lambda>c. c\<lparr>ch_status := Some (Some 0, None)\<rparr>) a"
  define c where "c = upd_child 0 (\<lambda>c. c\<lparr>ch_pc := Reaped (Some 0, None)\<rparr>) b"
  define d where "d = c\<lparr>gs_others := {7}\<rparr>"
  define e where "e = d\<lparr>gs_stops := [(''wl-'', 7, StopTermed)], gs_signals := [(15, 7, ''wl-'')]\<rparr>"
  have "gd_step run_announced a"
    using gd_step.stop[of "''wl-''" run_announced 7] by (simp add: a_def defs gd_stop_def)
  moreover have "gd_step a b" unfolding b_def by (rule gd_step.exits) (simp_all add: a_def defs)
  moreover have "gd_step b c" by (rule gd_step.child[of 0]) (simp add: a_def b_def c_def defs)
  moreover have "7 \<notin> pids_in_use c" by (auto simp: pids_in_use_def reaped_def a_def b_def c_def defs)
  then have "gd_step c d" using gd_step.other_begins[of 7 c] by (simp add: d_def a_def b_def c_def defs)
  moreover have "gd_step d e"
    using gd_step.stopping[of d "[]" "(''wl-'', 7, StopFound)" "[]" "[(''wl-'', 7, StopTermed)]" "[(15, 7, ''wl-'')]"]
    by (simp add: stop_turn_def a_def b_def c_def d_def e_def defs)
  ultimately have "gd_reachable d" "gd_step d e"
    using run_announced_reachable by (blast intro: gd_reachable_step)+
  moreover have "distinct (child_ids d)" "gs_signals d = []" "gs_signals e = [(15, 7, ''wl-'')]" "7 \<in> gs_others d"
    "filter (\<lambda>c. \<not> reaped c) (gs_children d) = []"
    by (simp_all add: a_def b_def c_def d_def e_def defs child_ids_def reaped_def)
  ultimately show ?thesis by blast
qed

section \<open>The properties on that run\<close>



lemma stop_signals_witness:
  "\<exists>s :: gd_sys. gs_signals s = [(15, 7, ''wl-'')] \<and> (\<exists>c \<in> set (gs_children s). ch_workload_id c = ''wl-'' \<and> ch_pid c = 7)"
proof -
  let ?s = "run_announced\<lparr>gs_stops := [(''wl-'', 7, StopTermed)], gs_signals := [(15, 7, ''wl-'')]\<rparr>"
  let ?f = "run_announced\<lparr>gs_stops := [(''wl-'', 7, StopFound)]\<rparr>"
  note defs = run_started_def run_announced_def gd_sys_init_def new_child_def
  have "gd_step run_announced ?f"
    using gd_step.stop[of "''wl-''" run_announced 7] by (simp add: defs gd_stop_def)
  moreover have "gd_step ?f ?s"
    using gd_step.stopping[of ?f "[]" "(''wl-'', 7, StopFound)" "[]" "[(''wl-'', 7, StopTermed)]" "[(15, 7, ''wl-'')]"]
    by (simp add: stop_turn_def defs)
  ultimately have "gd_reachable ?s" using run_announced_reachable by (blast intro: gd_reachable_step)
  from stop_signals[OF this, of 15 7 "''wl-''"] show ?thesis by (intro exI[of _ ?s]) simp
qed

end
