(* ===== verification/VmtopView.thy ===== *)
theory VmtopView
  imports VmTypes "HOL-Library.Char_ord" "HOL-Library.List_Lexorder" "HOL-Library.Product_Lexorder" "HOL-Library.Multiset"
begin

text \<open>
  vmtop's data and its rendering model: \<open>vmtop/src/model.rs\<close> and \<open>view.rs\<close>.  The two enums are the
  ones of hostd and share its datatypes; an \<open>IpAddr\<close> is its text; \<open>lower\<close> is Unicode's
  \<open>to_lowercase\<close>.
\<close>

section \<open>The inventory\<close>

record vt_net =
  tn_tap_name :: string
  tn_guest_ip :: string
  tn_gateway_ip :: string
  tn_subnet :: string

record vt_config =
  tc_name :: string
  tc_project_id :: nat
  tc_mode :: vm_mode
  tc_image :: string
  tc_cpus :: u32
  tc_memory_mb :: nat
  tc_disk_size_mb :: nat
  tc_tags :: "string list"
  tc_exposed_ports :: "nat list"
  tc_idle_timeout_secs :: "nat option"
  tc_block_size_mb :: "nat option"

record vt_vm =
  tv_vm_id :: string
  tv_state :: vm_state
  tv_net :: "vt_net option"
  tv_snapshot :: "instant option"
  tv_created_at :: instant
  tv_config :: vt_config

definition guest_ip :: "vt_vm \<Rightarrow> string option" where
  "guest_ip vm = map_option tn_guest_ip (tv_net vm)"

fun vt_state_text :: "vm_state \<Rightarrow> string" where
  "vt_state_text Creating = ''creating''"
| "vt_state_text Starting = ''starting''"
| "vt_state_text Pausing = ''pausing''"
| "vt_state_text Resuming = ''resuming''"
| "vt_state_text Suspending = ''suspending''"
| "vt_state_text Restoring = ''restoring''"
| "vt_state_text Destroying = ''destroying''"
| "vt_state_text Created = ''created''"
| "vt_state_text Started = ''started''"
| "vt_state_text Paused = ''paused''"
| "vt_state_text Suspended = ''suspended''"
| "vt_state_text Destroyed = ''destroyed''"

definition contains :: "string \<Rightarrow> string \<Rightarrow> bool" where
  "contains needle s \<longleftrightarrow> list_ex (\<lambda>k. starts_with needle (drop k s)) [0..<Suc (length s)]"

definition vm_matches :: "(string \<Rightarrow> string) \<Rightarrow> string \<Rightarrow> vt_vm \<Rightarrow> bool" where
  "vm_matches lower needle vm =
     (let needle = lower needle; cfg = tv_config vm
      in contains needle (lower (tv_vm_id vm)) \<or> contains needle (lower (tc_name cfg)) \<or>
         contains needle (lower (tc_image cfg)) \<or> contains needle (vt_state_text (tv_state vm)) \<or>
         (case guest_ip vm of Some ip \<Rightarrow> contains needle ip | None \<Rightarrow> False) \<or>
         list_ex (\<lambda>t. contains needle (lower t)) (tc_tags cfg) \<or>
         (case tv_net vm of Some n \<Rightarrow> contains needle (tn_subnet n) | None \<Rightarrow> False))"

section \<open>The view\<close>

datatype sort_order = SortState | SortName

datatype row_id = RowGroup nat | RowVm nat

record state_counts =
  sc_total :: nat
  sc_started :: nat
  sc_paused :: nat
  sc_suspended :: nat
  sc_destroyed :: nat
  sc_other :: nat

definition no_counts :: state_counts where
  "no_counts = \<lparr>sc_total = 0, sc_started = 0, sc_paused = 0, sc_suspended = 0, sc_destroyed = 0, sc_other = 0\<rparr>"

record vt_group =
  gr_project_id :: nat
  gr_counts :: state_counts
  gr_subnet :: "string option"

record view =
  vw_all :: "vt_vm list"
  vw_vms :: "vt_vm list"
  vw_groups :: "vt_group list"
  vw_rows :: "row_id list"
  vw_selected_id :: "string option"
  vw_selected_row :: "nat option"
  vw_grouped :: bool
  vw_sort :: sort_order
  vw_filter :: string

definition state_rank :: "vm_state \<Rightarrow> nat" where
  "state_rank state =
     (case state of Started \<Rightarrow> 0 | Paused \<Rightarrow> 1 | Suspended \<Rightarrow> 2 | Created \<Rightarrow> 3 | Destroyed \<Rightarrow> 5 | _ \<Rightarrow> 4)"

definition add_count :: "vm_state \<Rightarrow> state_counts \<Rightarrow> state_counts" where
  "add_count state c =
     (let c = c\<lparr>sc_total := sc_total c + 1\<rparr>
      in case state of
           Started \<Rightarrow> c\<lparr>sc_started := sc_started c + 1\<rparr>
         | Paused \<Rightarrow> c\<lparr>sc_paused := sc_paused c + 1\<rparr>
         | Suspended \<Rightarrow> c\<lparr>sc_suspended := sc_suspended c + 1\<rparr>
         | Destroyed \<Rightarrow> c\<lparr>sc_destroyed := sc_destroyed c + 1\<rparr>
         | _ \<Rightarrow> c\<lparr>sc_other := sc_other c + 1\<rparr>)"

definition sort_vms :: "sort_order \<Rightarrow> vt_vm list \<Rightarrow> vt_vm list" where
  "sort_vms order vms =
     (case order of
        SortState \<Rightarrow> sort_key (\<lambda>v. (state_rank (tv_state v), tc_name (tv_config v))) vms
      | SortName \<Rightarrow> sort_key (\<lambda>v. tc_name (tv_config v)) vms)"

definition view_new :: "bool \<Rightarrow> sort_order \<Rightarrow> view" where
  "view_new grouped order = \<lparr>vw_all = [], vw_vms = [], vw_groups = [], vw_rows = [], vw_selected_id = None,
     vw_selected_row = None, vw_grouped = grouped, vw_sort = order, vw_filter = []\<rparr>"

text \<open>\<open>members.entry(project_id).or_default().push(i)\<close> in the ordered map.\<close>

fun push_member :: "nat \<Rightarrow> nat \<Rightarrow> (nat \<times> nat list) list \<Rightarrow> (nat \<times> nat list) list" where
  "push_member p i [] = [(p, [i])]"
| "push_member p i ((q, is) # m) =
     (if p = q then (q, is @ [i]) # m
      else if p < q then (p, [i]) # (q, is) # m
      else (q, is) # push_member p i m)"

definition group_members :: "vt_vm list \<Rightarrow> (nat \<times> nat list) list" where
  "group_members vms = foldl (\<lambda>m (i, vm). push_member (tc_project_id (tv_config vm)) i m) [] (enumerate 0 vms)"

definition make_group :: "vt_vm list \<Rightarrow> nat \<Rightarrow> nat list \<Rightarrow> vt_group" where
  "make_group vms project_id indices =
     \<lparr>gr_project_id = project_id,
      gr_counts = foldl (\<lambda>c i. add_count (tv_state (vms ! i)) c) no_counts indices,
      gr_subnet = map_option tn_subnet (tv_net (vms ! hd indices))\<rparr>"

definition push_group :: "vt_vm list \<Rightarrow> vt_group list \<times> row_id list \<Rightarrow> nat \<times> nat list \<Rightarrow> vt_group list \<times> row_id list" where
  "push_group vms gr m =
     (case gr of (groups, rows) \<Rightarrow> case m of (project_id, indices) \<Rightarrow>
        (groups @ [make_group vms project_id indices], rows @ RowGroup (length groups) # map RowVm indices))"

text \<open>The positions of the VM rows.\<close>

definition is_vm_row :: "row_id \<Rightarrow> bool" where
  "is_vm_row r = (case r of RowVm _ \<Rightarrow> True | RowGroup _ \<Rightarrow> False)"

definition vm_rows :: "view \<Rightarrow> nat list" where
  "vm_rows v = filter (\<lambda>k. is_vm_row (vw_rows v ! k)) [0..<length (vw_rows v)]"

definition selects :: "view \<Rightarrow> string \<Rightarrow> nat \<Rightarrow> bool" where
  "selects v vm_id k = (case vw_rows v ! k of RowVm i \<Rightarrow> tv_vm_id (vw_vms v ! i) = vm_id | RowGroup _ \<Rightarrow> False)"

definition repin_selection :: "view \<Rightarrow> view" where
  "repin_selection v =
     (if vm_rows v = [] then v\<lparr>vw_selected_row := None\<rparr>
      else case Option.bind (vw_selected_id v) (\<lambda>vm_id. List.find (selects v vm_id) [0..<length (vw_rows v)]) of
        Some row \<Rightarrow> v\<lparr>vw_selected_row := Some row\<rparr>
      | None \<Rightarrow>
          (case Option.bind (vw_selected_row v) (\<lambda>prev. List.find (\<lambda>r. prev \<le> r) (vm_rows v)) of
             Some row \<Rightarrow> v\<lparr>vw_selected_row := Some row\<rparr>
           | None \<Rightarrow> v\<lparr>vw_selected_row := Some (hd (vm_rows v))\<rparr>))"

definition rebuild :: "(string \<Rightarrow> string) \<Rightarrow> view \<Rightarrow> view" where
  "rebuild lower v =
     (let vms = sort_vms (vw_sort v) (filter (\<lambda>vm. vw_filter v = [] \<or> vm_matches lower (vw_filter v) vm) (vw_all v));
          (groups, rows) = (if vw_grouped v then foldl (push_group vms) ([], []) (group_members vms)
                            else ([], map RowVm [0..<length vms]))
      in repin_selection (v\<lparr>vw_vms := vms, vw_groups := groups, vw_rows := rows\<rparr>))"

definition view_update :: "(string \<Rightarrow> string) \<Rightarrow> vt_vm list \<Rightarrow> view \<Rightarrow> view" where
  "view_update lower vms v = rebuild lower (v\<lparr>vw_all := vms\<rparr>)"

definition selected_vm :: "view \<Rightarrow> vt_vm option" where
  "selected_vm v =
     Option.bind (vw_selected_row v) (\<lambda>row.
       if row < length (vw_rows v)
       then (case vw_rows v ! row of RowVm i \<Rightarrow> Some (vw_vms v ! i) | RowGroup _ \<Rightarrow> None) else None)"

definition stamp_selected :: "view \<Rightarrow> view" where
  "stamp_selected v = v\<lparr>vw_selected_id := map_option tv_vm_id (selected_vm v)\<rparr>"

fun position :: "nat \<Rightarrow> nat list \<Rightarrow> nat option" where
  "position x [] = None"
| "position x (y # ys) = (if x = y then Some 0 else map_option Suc (position x ys))"

definition move_selected :: "int \<Rightarrow> view \<Rightarrow> view" where
  "move_selected delta v =
     (let rows = vm_rows v
      in if rows = [] then v
         else let cur = (case Option.bind (vw_selected_row v) (\<lambda>row. position row rows) of Some c \<Rightarrow> c | None \<Rightarrow> 0);
                  last = int (length rows) - 1;
                  target = max 0 (min last (int cur + delta))
              in stamp_selected (v\<lparr>vw_selected_row := Some (rows ! nat target)\<rparr>))"

definition jump_first :: "view \<Rightarrow> view" where
  "jump_first v = (case vm_rows v of [] \<Rightarrow> v | row # _ \<Rightarrow> stamp_selected (v\<lparr>vw_selected_row := Some row\<rparr>))"

definition jump_last :: "view \<Rightarrow> view" where
  "jump_last v = (if vm_rows v = [] then v else stamp_selected (v\<lparr>vw_selected_row := Some (last (vm_rows v))\<rparr>))"

definition set_filter :: "(string \<Rightarrow> string) \<Rightarrow> string \<Rightarrow> view \<Rightarrow> view" where
  "set_filter lower needle v = (if vw_filter v = needle then v else rebuild lower (v\<lparr>vw_filter := needle\<rparr>))"

definition clear_filter :: "(string \<Rightarrow> string) \<Rightarrow> view \<Rightarrow> view" where
  "clear_filter lower v = (if vw_filter v \<noteq> [] then rebuild lower (v\<lparr>vw_filter := []\<rparr>) else v)"

definition set_grouped :: "(string \<Rightarrow> string) \<Rightarrow> bool \<Rightarrow> view \<Rightarrow> view" where
  "set_grouped lower grouped v = (if vw_grouped v \<noteq> grouped then rebuild lower (v\<lparr>vw_grouped := grouped\<rparr>) else v)"

definition toggle_grouped :: "(string \<Rightarrow> string) \<Rightarrow> view \<Rightarrow> view" where
  "toggle_grouped lower v = set_grouped lower (\<not> vw_grouped v) v"

definition set_sort :: "(string \<Rightarrow> string) \<Rightarrow> sort_order \<Rightarrow> view \<Rightarrow> view" where
  "set_sort lower order v = (if vw_sort v \<noteq> order then rebuild lower (v\<lparr>vw_sort := order\<rparr>) else v)"

definition host_counts :: "view \<Rightarrow> state_counts" where
  "host_counts v = foldl (\<lambda>c vm. add_count (tv_state vm) c) no_counts (vw_all v)"

definition host_projects :: "view \<Rightarrow> nat" where
  "host_projects v = length (remdups (map (\<lambda>vm. tc_project_id (tv_config vm)) (vw_all v)))"

text \<open>The sum of the vCPUs is a \<open>u32\<close> and wraps in a release build.\<close>

definition host_alloc :: "view \<Rightarrow> u32 \<times> nat" where
  "host_alloc v = foldl (\<lambda>(cpu, mem) vm. (cpu + tc_cpus (tv_config vm), mem + tc_memory_mb (tv_config vm))) (0, 0) (vw_all v)"

section \<open>No index is out of range\<close>

fun row_vms :: "row_id list \<Rightarrow> nat list" where
  "row_vms [] = []"
| "row_vms (RowVm i # rs) = i # row_vms rs"
| "row_vms (RowGroup g # rs) = row_vms rs"

fun row_groups :: "row_id list \<Rightarrow> nat list" where
  "row_groups [] = []"
| "row_groups (RowVm i # rs) = row_groups rs"
| "row_groups (RowGroup g # rs) = g # row_groups rs"

lemma row_vms_append [simp]: "row_vms (xs @ ys) = row_vms xs @ row_vms ys"
  by (induction xs rule: row_vms.induct) auto

lemma row_groups_append [simp]: "row_groups (xs @ ys) = row_groups xs @ row_groups ys"
  by (induction xs rule: row_groups.induct) auto

lemma rows_of_vms [simp]: "row_vms (map RowVm is) = is" "row_groups (map RowVm is) = []"
  by (induction "is") auto

lemma row_vms_set: "i \<in> set (row_vms rs) \<longleftrightarrow> RowVm i \<in> set rs"
  by (induction rs rule: row_vms.induct) auto

lemma row_groups_set: "g \<in> set (row_groups rs) \<longleftrightarrow> RowGroup g \<in> set rs"
  by (induction rs rule: row_groups.induct) auto

lemma row_vms_Nil: "row_vms rs = [] \<longleftrightarrow> (\<forall>r \<in> set rs. \<not> is_vm_row r)"
  by (induction rs rule: row_vms.induct) (auto simp: is_vm_row_def)

lemma push_member_mset: "mset (concat (map snd (push_member p i m))) = add_mset i (mset (concat (map snd m)))"
  by (induction m) auto

lemma group_members_snoc:
  "group_members (vms @ [vm]) = push_member (tc_project_id (tv_config vm)) (length vms) (group_members vms)"
  by (simp add: group_members_def enumerate_append_eq)

lemma group_members_mset: "mset (concat (map snd (group_members vms))) = mset [0..<length vms]"
proof (induction vms rule: rev_induct)
  case Nil
  then show ?case by (simp add: group_members_def)
next
  case (snoc vm vms)
  then show ?case by (simp add: group_members_snoc push_member_mset)
qed

lemma push_groups:
  "foldl (push_group vms) (gs, rs) ms =
     (gs @ map (\<lambda>(p, is). make_group vms p is) ms,
      rs @ concat (map (\<lambda>(k, p, is). RowGroup k # map RowVm is) (enumerate (length gs) ms)))"
  by (induction ms arbitrary: gs rs) (auto simp: push_group_def)

lemma layout_row_vms: "row_vms (concat (map (\<lambda>(k, p, is). RowGroup k # map RowVm is) (enumerate n ms))) = concat (map snd ms)"
  by (induction ms arbitrary: n) auto

lemma layout_row_groups:
  "row_groups (concat (map (\<lambda>(k, p, is). RowGroup k # map RowVm is) (enumerate n ms))) = [n..<n + length ms]"
proof (induction ms arbitrary: n)
  case (Cons m ms)
  have "[n..<n + length (m # ms)] = n # [Suc n..<Suc n + length ms]" by (simp add: upt_conv_Cons del: upt_Suc)
  with Cons show ?case by (auto split: prod.split simp del: upt_Suc)
qed simp

text \<open>Every visible VM has exactly one row, every group exactly one header, the headers in the order of the
  groups; and the selection is on a VM row, or there is none.\<close>

definition rows_ok :: "view \<Rightarrow> bool" where
  "rows_ok v \<longleftrightarrow> mset (row_vms (vw_rows v)) = mset [0..<length (vw_vms v)] \<and>
     row_groups (vw_rows v) = [0..<length (vw_groups v)]"

definition selection_ok :: "view \<Rightarrow> bool" where
  "selection_ok v \<longleftrightarrow>
     (case vw_selected_row v of
        None \<Rightarrow> vw_vms v = []
      | Some row \<Rightarrow> row < length (vw_rows v) \<and> is_vm_row (vw_rows v ! row))"

lemma vm_rows_iff: "k \<in> set (vm_rows v) \<longleftrightarrow> k < length (vw_rows v) \<and> is_vm_row (vw_rows v ! k)"
  by (auto simp: vm_rows_def)

lemma vm_rows_Nil:
  assumes "rows_ok v"
  shows "vm_rows v = [] \<longleftrightarrow> vw_vms v = []"
proof -
  have rows: "set (row_vms (vw_rows v)) = {..<length (vw_vms v)}"
    using assms mset_eq_setD unfolding rows_ok_def by fastforce
  have "vm_rows v = [] \<longleftrightarrow> (\<forall>r \<in> set (vw_rows v). \<not> is_vm_row r)"
    by (auto simp: vm_rows_def filter_empty_conv all_set_conv_all_nth simp del: set_upt)
  also have "\<dots> \<longleftrightarrow> set (row_vms (vw_rows v)) = {}"
    by (simp add: row_vms_Nil)
  finally show ?thesis unfolding rows by auto
qed

lemma find_Some: "List.find P xs = Some x \<Longrightarrow> x \<in> set xs \<and> P x"
  by (auto simp: find_Some_iff)

lemma repin_ok:
  assumes "rows_ok v"
  shows "rows_ok (repin_selection v) \<and> selection_ok (repin_selection v)"
proof (cases "vm_rows v = []")
  case True
  then show ?thesis
    using assms vm_rows_Nil[OF assms] by (simp add: repin_selection_def rows_ok_def selection_ok_def)
next
  case False
  have "\<exists>row. repin_selection v = v\<lparr>vw_selected_row := Some row\<rparr> \<and> row < length (vw_rows v) \<and> is_vm_row (vw_rows v ! row)"
  proof (cases "Option.bind (vw_selected_id v) (\<lambda>vm_id. List.find (selects v vm_id) [0..<length (vw_rows v)])")
    case (Some row)
    then obtain vm_id where "row < length (vw_rows v)" "selects v vm_id row"
      by (auto simp: bind_eq_Some_conv dest!: find_Some)
    moreover then have "is_vm_row (vw_rows v ! row)" by (auto simp: selects_def is_vm_row_def split: row_id.splits)
    ultimately show ?thesis using Some False by (intro exI[of _ row]) (simp add: repin_selection_def)
  next
    case None
    show ?thesis
    proof (cases "Option.bind (vw_selected_row v) (\<lambda>prev. List.find (\<lambda>r. prev \<le> r) (vm_rows v))")
      case (Some row)
      then have "row \<in> set (vm_rows v)" by (auto simp: bind_eq_Some_conv dest!: find_Some)
      then show ?thesis using Some None False by (intro exI[of _ row]) (simp add: repin_selection_def vm_rows_iff)
    next
      case none: None
      have "hd (vm_rows v) \<in> set (vm_rows v)" using False by simp
      then show ?thesis using none None False
        by (intro exI[of _ "hd (vm_rows v)"]) (simp add: repin_selection_def vm_rows_iff)
    qed
  qed
  then show ?thesis using assms by (auto simp: rows_ok_def selection_ok_def)
qed

lemma rebuild_ok: "rows_ok (rebuild lower v) \<and> selection_ok (rebuild lower v)"
proof -
  let ?vms = "sort_vms (vw_sort v) (filter (\<lambda>vm. vw_filter v = [] \<or> vm_matches lower (vw_filter v) vm) (vw_all v))"
  obtain groups rows where gr: "(if vw_grouped v then foldl (push_group ?vms) ([], []) (group_members ?vms)
      else ([], map RowVm [0..<length ?vms])) = (groups, rows)" by force
  have "mset (row_vms rows) = mset [0..<length ?vms] \<and> row_groups rows = [0..<length groups]"
  proof (cases "vw_grouped v")
    case True
    with gr have "groups = map (\<lambda>(p, is). make_group ?vms p is) (group_members ?vms)"
      "rows = concat (map (\<lambda>(k, p, is). RowGroup k # map RowVm is) (enumerate 0 (group_members ?vms)))"
      by (simp_all add: push_groups)
    then show ?thesis by (simp add: layout_row_vms layout_row_groups group_members_mset del: mset_upt)
  next
    case False
    with gr show ?thesis by auto
  qed
  then have "rows_ok (v\<lparr>vw_vms := ?vms, vw_groups := groups, vw_rows := rows\<rparr>)" by (simp add: rows_ok_def)
  from repin_ok[OF this] show ?thesis by (simp add: rebuild_def Let_def gr)
qed

lemma stamp_fields [simp]:
  "vw_rows (stamp_selected v) = vw_rows v" "vw_vms (stamp_selected v) = vw_vms v" "vw_groups (stamp_selected v) = vw_groups v"
  "vw_selected_row (stamp_selected v) = vw_selected_row v"
  by (simp_all add: stamp_selected_def)

lemma stamp_selected_vm [simp]:
  "selected_vm (stamp_selected v) = selected_vm v" "vw_selected_id (stamp_selected v) = map_option tv_vm_id (selected_vm v)"
  by (cases "vw_selected_row v"; simp add: selected_vm_def split: row_id.split) (simp add: stamp_selected_def)

lemma select_row_ok:
  "rows_ok v \<Longrightarrow> row \<in> set (vm_rows v) \<Longrightarrow>
     rows_ok (stamp_selected (v\<lparr>vw_selected_row := Some row\<rparr>)) \<and>
     selection_ok (stamp_selected (v\<lparr>vw_selected_row := Some row\<rparr>))"
  by (simp add: rows_ok_def selection_ok_def vm_rows_iff)

lemma move_target:
  assumes "rows \<noteq> []"
  shows "rows ! nat (max 0 (min (int (length rows) - 1) k)) \<in> set rows"
proof -
  have "nat (max 0 (min (int (length rows) - 1) k)) < length rows" using assms by (cases rows) auto
  then show ?thesis by simp
qed

lemma navigate_ok:
  assumes "rows_ok v" "selection_ok v"
  shows "rows_ok (move_selected d v) \<and> selection_ok (move_selected d v)"
    "rows_ok (jump_first v) \<and> selection_ok (jump_first v)"
    "rows_ok (jump_last v) \<and> selection_ok (jump_last v)"
proof -
  show "rows_ok (move_selected d v) \<and> selection_ok (move_selected d v)"
    using assms select_row_ok[OF assms(1) move_target] by (simp add: move_selected_def Let_def)
  show "rows_ok (jump_first v) \<and> selection_ok (jump_first v)"
    using assms select_row_ok[OF assms(1), of "hd (vm_rows v)"] by (cases "vm_rows v") (auto simp: jump_first_def)
  show "rows_ok (jump_last v) \<and> selection_ok (jump_last v)"
    using assms select_row_ok[OF assms(1), of "last (vm_rows v)"] by (auto simp: jump_last_def)
qed

text \<open>What a user and the poller do to the view.\<close>

datatype view_op =
    OpUpdate "vt_vm list" | OpMove int | OpFirst | OpLast | OpFilter string | OpClear | OpToggle | OpSort sort_order

fun view_do :: "(string \<Rightarrow> string) \<Rightarrow> view \<Rightarrow> view_op \<Rightarrow> view" where
  "view_do lower v (OpUpdate vms) = view_update lower vms v"
| "view_do lower v (OpMove d) = move_selected d v"
| "view_do lower v OpFirst = jump_first v"
| "view_do lower v OpLast = jump_last v"
| "view_do lower v (OpFilter f) = set_filter lower f v"
| "view_do lower v OpClear = clear_filter lower v"
| "view_do lower v OpToggle = toggle_grouped lower v"
| "view_do lower v (OpSort ord) = set_sort lower ord v"

lemma view_op_ok: "rows_ok v \<Longrightarrow> selection_ok v \<Longrightarrow> rows_ok (view_do lower v op) \<and> selection_ok (view_do lower v op)"
  by (cases op) (auto simp: view_update_def set_filter_def clear_filter_def toggle_grouped_def set_grouped_def
      set_sort_def rebuild_ok navigate_ok)

lemma view_run_ok:
  "rows_ok v \<Longrightarrow> selection_ok v \<Longrightarrow> rows_ok (foldl (view_do lower) v ops) \<and> selection_ok (foldl (view_do lower) v ops)"
  by (induction ops arbitrary: v) (auto dest: view_op_ok)

lemma selected_iff:
  assumes "rows_ok v" "selection_ok v"
  shows "selected_vm v = None \<longleftrightarrow> vw_vms v = []"
proof (cases "vw_selected_row v")
  case None
  then show ?thesis using assms(2) by (simp add: selection_ok_def selected_vm_def)
next
  case (Some row)
  then have row: "row < length (vw_rows v)" "is_vm_row (vw_rows v ! row)" using assms(2) by (auto simp: selection_ok_def)
  then have "row \<in> set (vm_rows v)" by (simp add: vm_rows_iff)
  then have "vm_rows v \<noteq> []" by auto
  then show ?thesis using vm_rows_Nil[OF assms(1)] Some row by (auto simp: selected_vm_def is_vm_row_def split: row_id.splits)
qed

text \<open>Two VMs, and a view with one of them.\<close>

definition demo_vt_vm :: "string \<Rightarrow> string \<Rightarrow> vt_vm" where
  "demo_vt_vm vm_id name = \<lparr>tv_vm_id = vm_id, tv_state = Started, tv_net = None, tv_snapshot = None, tv_created_at = 0,
     tv_config = \<lparr>tc_name = name, tc_project_id = 7, tc_mode = Permanent, tc_image = ''ubuntu-24'', tc_cpus = 1,
       tc_memory_mb = 512, tc_disk_size_mb = 1024, tc_tags = [], tc_exposed_ports = [], tc_idle_timeout_secs = None,
       tc_block_size_mb = None\<rparr>\<rparr>"

definition demo_flat :: view where
  "demo_flat = view_update id [demo_vt_vm ''vm-b'' ''b''] (view_new False SortName)"

lemmas view_eval = demo_flat_def view_update_def view_new_def rebuild_def sort_vms_def repin_selection_def vm_rows_def
  is_vm_row_def selected_vm_def demo_vt_vm_def Let_def group_members_def push_group_def make_group_def
  selects_def stamp_selected_def move_selected_def jump_first_def jump_last_def

text \<open>Whatever the poller delivers and the user does, every visible VM has exactly one row and every group
  one header, in order, so that no row points outside its table; and as long as a VM is visible,
  exactly one is selected.\<close>

theorem view_indices_valid:
  assumes "v = foldl (view_do lower) (view_new grouped order) ops"
  shows "mset (row_vms (vw_rows v)) = mset [0..<length (vw_vms v)] \<and>
    row_groups (vw_rows v) = [0..<length (vw_groups v)] \<and>
    (if vw_vms v = [] then selected_vm v = None else \<exists>i<length (vw_vms v). selected_vm v = Some (vw_vms v ! i))"
proof -
  have new: "rows_ok (view_new grouped order)" "selection_ok (view_new grouped order)"
    by (simp_all add: rows_ok_def selection_ok_def view_new_def)
  have ok: "rows_ok v" "selection_ok v" using view_run_ok[OF new, of lower ops] assms by simp_all
  have range: "i < length (vw_vms v)" if "RowVm i \<in> set (vw_rows v)" for i
    using ok(1) that mset_eq_setD[of "row_vms (vw_rows v)" "[0..<length (vw_vms v)]"]
    unfolding rows_ok_def row_vms_set[symmetric] by auto
  have "if vw_vms v = [] then selected_vm v = None else \<exists>i<length (vw_vms v). selected_vm v = Some (vw_vms v ! i)"
  proof (cases "vw_selected_row v")
    case None
    then show ?thesis using ok(2) by (simp add: selection_ok_def selected_vm_def)
  next
    case (Some row)
    then have row: "row < length (vw_rows v)" "is_vm_row (vw_rows v ! row)" using ok(2) by (auto simp: selection_ok_def)
    then obtain i where i: "vw_rows v ! row = RowVm i" by (auto simp: is_vm_row_def split: row_id.splits)
    then have "i < length (vw_vms v)" using range row(1) by (metis nth_mem)
    then show ?thesis using Some row i by (auto simp: selected_vm_def)
  qed
  with ok(1) show ?thesis by (simp add: rows_ok_def)
qed

lemma view_indices_valid_witness:
  "selected_vm (foldl (view_do id) (view_new False SortName) [OpUpdate [demo_vt_vm ''vm-b'' ''b''], OpLast]) = Some (demo_vt_vm ''vm-b'' ''b'') \<and>
   (\<exists>i<1. selected_vm (foldl (view_do id) (view_new False SortName) [OpUpdate [demo_vt_vm ''vm-b'' ''b''], OpLast])
      = Some ([demo_vt_vm ''vm-b'' ''b''] ! i))"
  using view_indices_valid[of _ id False SortName "[OpUpdate [demo_vt_vm ''vm-b'' ''b''], OpLast]", OF refl]
  by (simp add: view_eval)

section \<open>The groups\<close>

lemma push_member_sorted:
  assumes "sorted ps" "distinct ps" "p \<notin> set ps \<Longrightarrow> f p = []"
  shows "push_member p i (map (\<lambda>q. (q, f q)) ps) =
    map (\<lambda>q. (q, if q = p then f q @ [i] else f q)) (if p \<in> set ps then ps else insort p ps)"
  using assms
proof (induction ps)
  case (Cons q ps)
  have rest: "map (\<lambda>r. (r, if r = p then f r @ [i] else f r)) ps = map (\<lambda>r. (r, f r)) ps" if "p \<notin> set ps"
    using that by auto
  consider "p = q" | "p < q" | "q < p" by (rule linorder_cases)
  then show ?case
  proof cases
    case 1
    then show ?thesis using Cons.prems rest by auto
  next
    case 2
    then have "p \<notin> set ps" using Cons.prems(1) by auto
    then show ?thesis using 2 Cons.prems rest by auto
  next
    case 3
    then show ?thesis using Cons by auto
  qed
qed simp

definition project_of :: "vt_vm list \<Rightarrow> nat \<Rightarrow> nat" where
  "project_of vms i = tc_project_id (tv_config (vms ! i))"

definition members_of :: "vt_vm list \<Rightarrow> nat \<Rightarrow> nat list" where
  "members_of vms p = filter (\<lambda>i. project_of vms i = p) [0..<length vms]"

definition projects_of :: "vt_vm list \<Rightarrow> nat list" where
  "projects_of vms = sorted_list_of_set ((\<lambda>vm. tc_project_id (tv_config vm)) ` set vms)"

lemma members_of_snoc:
  "members_of (vms @ [vm]) p =
     (if p = tc_project_id (tv_config vm) then members_of vms p @ [length vms] else members_of vms p)"
proof -
  have "filter (\<lambda>i. project_of (vms @ [vm]) i = p) [0..<length vms] = members_of vms p"
    unfolding members_of_def by (rule filter_cong) (auto simp: project_of_def nth_append)
  then show ?thesis by (auto simp: members_of_def project_of_def)
qed

lemma members_of_none: "p \<notin> set (projects_of vms) \<Longrightarrow> members_of vms p = []"
  by (auto simp: members_of_def projects_of_def project_of_def filter_empty_conv)

lemma projects_of_snoc:
  "projects_of (vms @ [vm]) =
     (let p = tc_project_id (tv_config vm) in if p \<in> set (projects_of vms) then projects_of vms else insort p (projects_of vms))"
proof -
  let ?p = "tc_project_id (tv_config vm)" and ?S = "(\<lambda>vm. tc_project_id (tv_config vm)) ` set vms"
  have "projects_of (vms @ [vm]) = sorted_list_of_set (insert ?p ?S)" by (simp add: projects_of_def)
  moreover have "?p \<in> set (projects_of vms) \<longleftrightarrow> ?p \<in> ?S" by (simp add: projects_of_def)
  ultimately show ?thesis
    by (cases "?p \<in> ?S") (simp_all add: projects_of_def Let_def insert_absorb sorted_list_of_set_insert)
qed

lemma group_members_spec: "group_members vms = map (\<lambda>p. (p, members_of vms p)) (projects_of vms)"
proof (induction vms rule: rev_induct)
  case Nil
  then show ?case by (simp add: group_members_def projects_of_def)
next
  case (snoc vm vms)
  let ?p = "tc_project_id (tv_config vm)"
  have "push_member ?p (length vms) (map (\<lambda>q. (q, members_of vms q)) (projects_of vms)) =
      map (\<lambda>q. (q, if q = ?p then members_of vms q @ [length vms] else members_of vms q))
        (if ?p \<in> set (projects_of vms) then projects_of vms else insort ?p (projects_of vms))"
    by (rule push_member_sorted) (use members_of_none in \<open>auto simp: projects_of_def\<close>)
  then show ?case
    by (simp add: group_members_snoc snoc projects_of_snoc members_of_snoc Let_def)
qed

text \<open>The grouped layout: one group per project that has a visible VM, in the order of the project ids;
  each header is followed by exactly the rows of that project's VMs, in the chosen order; and its
  counts are those of its VMs.\<close>

theorem grouped_layout:
  assumes "vw_grouped v" "v' = rebuild lower v"
  shows "vw_vms v' = sort_vms (vw_sort v) (filter (\<lambda>vm. vw_filter v = [] \<or> vm_matches lower (vw_filter v) vm) (vw_all v)) \<and>
    map gr_project_id (vw_groups v') = projects_of (vw_vms v') \<and>
    vw_rows v' = concat (map (\<lambda>(k, p). RowGroup k # map RowVm (members_of (vw_vms v') p)) (enumerate 0 (projects_of (vw_vms v')))) \<and>
    map gr_counts (vw_groups v') =
      map (\<lambda>p. foldl (\<lambda>c i. add_count (tv_state (vw_vms v' ! i)) c) no_counts (members_of (vw_vms v') p)) (projects_of (vw_vms v'))"
proof -
  have repin: "vw_vms (repin_selection u) = vw_vms u" "vw_rows (repin_selection u) = vw_rows u"
    "vw_groups (repin_selection u) = vw_groups u" for u
    by (auto simp: repin_selection_def split: option.split)
  have enum: "concat (map (\<lambda>(k, p, is). RowGroup k # map RowVm is) (enumerate n (map (\<lambda>p. (p, f p)) ps))) =
      concat (map (\<lambda>(k, p). RowGroup k # map RowVm (f p)) (enumerate n ps))" for n ps and f :: "nat \<Rightarrow> nat list"
    by (induction ps arbitrary: n) auto
  show ?thesis
    using assms(1) unfolding assms(2)
    by (simp add: rebuild_def Let_def repin push_groups group_members_spec enum make_group_def comp_def)
qed

lemma grouped_layout_witness:
  "vw_rows (rebuild id ((view_new True SortName)\<lparr>vw_all := [demo_vt_vm ''vm-b'' ''b'', demo_vt_vm ''vm-a'' ''a'']\<rparr>))
     = [RowGroup 0, RowVm 0, RowVm 1] \<and>
   map gr_project_id (vw_groups (rebuild id ((view_new True SortName)\<lparr>vw_all := [demo_vt_vm ''vm-b'' ''b'', demo_vt_vm ''vm-a'' ''a'']\<rparr>))) = [7]"
  using grouped_layout[of "(view_new True SortName)\<lparr>vw_all := [demo_vt_vm ''vm-b'' ''b'', demo_vt_vm ''vm-a'' ''a'']\<rparr>" _ id, OF _ refl]
  by (simp add: view_eval projects_of_def members_of_def project_of_def)

section \<open>The selection stays on its VM\<close>

lemma selected_visible:
  assumes "rows_ok v" "vw_selected_id v = Some vm_id" "vm \<in> set (vw_vms v)" "tv_vm_id vm = vm_id"
  shows "\<exists>vm'. selected_vm (repin_selection v) = Some vm' \<and> tv_vm_id vm' = vm_id"
proof -
  obtain i where i: "i < length (vw_vms v)" "tv_vm_id (vw_vms v ! i) = vm_id"
    using assms(3,4) by (auto simp: in_set_conv_nth)
  have "set (row_vms (vw_rows v)) = set [0..<length (vw_vms v)]"
    using assms(1) mset_eq_setD unfolding rows_ok_def by blast
  with i have "RowVm i \<in> set (vw_rows v)" by (simp add: row_vms_set[symmetric])
  then obtain k where k: "k < length (vw_rows v)" "selects v vm_id k"
    using i(2) by (auto simp: in_set_conv_nth selects_def)
  then have "List.find (selects v vm_id) [0..<length (vw_rows v)] \<noteq> None" by (auto simp: find_None_iff)
  then obtain row where row: "List.find (selects v vm_id) [0..<length (vw_rows v)] = Some row" by blast
  then have r: "row < length (vw_rows v)" "selects v vm_id row" by (auto dest: find_Some)
  then obtain j where j: "vw_rows v ! row = RowVm j" "tv_vm_id (vw_vms v ! j) = vm_id"
    by (auto simp: selects_def split: row_id.splits)
  have "row \<in> set (vm_rows v)" using r j by (simp add: vm_rows_iff is_vm_row_def)
  then have "repin_selection v = v\<lparr>vw_selected_row := Some row\<rparr>"
    using row assms(2) by (auto simp: repin_selection_def)
  then show ?thesis using r j by (simp add: selected_vm_def)
qed

lemma rebuild_sticky:
  assumes "vw_selected_id v = Some vm_id" "vm \<in> set (vw_vms (rebuild lower v))" "tv_vm_id vm = vm_id"
  shows "\<exists>vm'. selected_vm (rebuild lower v) = Some vm' \<and> tv_vm_id vm' = vm_id"
proof -
  let ?vms = "sort_vms (vw_sort v) (filter (\<lambda>vm. vw_filter v = [] \<or> vm_matches lower (vw_filter v) vm) (vw_all v))"
  obtain groups rows where gr: "(if vw_grouped v then foldl (push_group ?vms) ([], []) (group_members ?vms)
      else ([], map RowVm [0..<length ?vms])) = (groups, rows)" by force
  let ?u = "v\<lparr>vw_vms := ?vms, vw_groups := groups, vw_rows := rows\<rparr>"
  have eq: "rebuild lower v = repin_selection ?u" by (simp add: rebuild_def Let_def gr)
  have "rows_ok (repin_selection ?u)" using rebuild_ok[of lower v] unfolding eq by simp
  then have "rows_ok ?u" by (auto simp: rows_ok_def repin_selection_def split: option.splits if_splits)
  moreover have "vm \<in> set (vw_vms ?u)"
    using assms(2) unfolding eq by (auto simp: repin_selection_def split: option.splits if_splits)
  ultimately show ?thesis unfolding eq using assms(1,3) by (intro selected_visible) auto
qed

text \<open>Once the user has moved to a VM, every refresh of the inventory keeps it selected while it is visible,
  wherever it is sorted to.\<close>

theorem selection_follows_vm:
  assumes "v = view_do lower u op" "op \<in> {OpMove d, OpFirst, OpLast}" "selected_vm v = Some vm"
    and "rows_ok u" "vw_vms u \<noteq> []"
    and "v' = view_update lower vms v" "vm' \<in> set (vw_vms v')" "tv_vm_id vm' = tv_vm_id vm"
  shows "\<exists>s. selected_vm v' = Some s \<and> tv_vm_id s = tv_vm_id vm"
proof -
  have rows: "vm_rows u \<noteq> []" using vm_rows_Nil[OF assms(4)] assms(5) by simp
  obtain w where v: "v = stamp_selected w"
    using assms(1,2) rows by (auto simp: move_selected_def jump_first_def jump_last_def Let_def split: list.splits)
  then have "vw_selected_id v = Some (tv_vm_id vm)"
    using assms(3) by simp
  then have "vw_selected_id (v\<lparr>vw_all := vms\<rparr>) = Some (tv_vm_id vm)" by simp
  from rebuild_sticky[OF this] show ?thesis
    using assms(6-8) unfolding view_update_def by blast
qed

lemma selection_follows_vm_witness:
  "\<exists>s. selected_vm (view_update id [demo_vt_vm ''vm-b'' ''b'', demo_vt_vm ''vm-a'' ''a''] (view_do id demo_flat OpLast)) = Some s \<and> tv_vm_id s = ''vm-b''"
  using selection_follows_vm[of "view_do id demo_flat OpLast" id demo_flat OpLast 0 "demo_vt_vm ''vm-b'' ''b''"
      _ "[demo_vt_vm ''vm-b'' ''b'', demo_vt_vm ''vm-a'' ''a'']" "demo_vt_vm ''vm-b'' ''b''", OF refl _ _ _ _ refl]
  by (simp add: view_eval rows_ok_def)

text \<open>Before the first move the selection has no VM, only a row: a refresh that sorts another VM to the top
  selects that one.\<close>

lemma selection_drifts:
  "selected_vm demo_flat = Some (demo_vt_vm ''vm-b'' ''b'')"
  "selected_vm (view_update id [demo_vt_vm ''vm-b'' ''b'', demo_vt_vm ''vm-a'' ''a''] demo_flat) = Some (demo_vt_vm ''vm-a'' ''a'')"
  by (simp_all add: view_eval)

end
