(* ===== verification/VmtopApp.thy ===== *)
theory VmtopApp
  imports VmtopView
begin

text \<open>
  vmtop's application (\<open>vmtop/src/app.rs\<close>), the client it polls with (\<open>api.rs\<close>, \<open>error.rs\<close>) and its start
  (\<open>main.rs\<close>).  The terminal, the HTTP client and the JSON decoder are what they deliver: keys, a response, the
  decoded inventory.
\<close>

section \<open>Polling\<close>

datatype vt_error = VtApi string | VtHttp nat string | VtIo string | VtMissingToken

fun vt_error_text :: "vt_error \<Rightarrow> string" where
  "vt_error_text (VtApi e) = ''api request failed: '' @ e"
| "vt_error_text (VtHttp status body) = ''hostd returned '' @ dec status @ '': '' @ body"
| "vt_error_text (VtIo e) = ''io error: '' @ e"
| "vt_error_text VtMissingToken = ''missing API token: set TIKOVM_HOSTD_API_TOKEN or pass --token''"

text \<open>\<open>trim_end_matches('/')\<close>, and \<open>trim_start_matches\<close> of a prefix, which removes it as often as it occurs.\<close>

definition trim_end_slashes :: "string \<Rightarrow> string" where
  "trim_end_slashes s = rev (dropWhile (\<lambda>c. c = CHR ''/'') (rev s))"

function trim_start_prefix :: "string \<Rightarrow> string \<Rightarrow> string" where
  "trim_start_prefix p s =
     (if p \<noteq> [] \<and> starts_with p s then trim_start_prefix p (drop (length p) s) else s)"
  by auto
termination
proof (relation "measure (\<lambda>(p, s). length s)")
  fix p s :: string
  assume "p \<noteq> [] \<and> starts_with p s"
  then show "((p, drop (length p) s), (p, s)) \<in> measure (\<lambda>(p, s). length s)"
    by (cases s) (auto simp: starts_with_def neq_Nil_conv)
qed simp

declare trim_start_prefix.simps [simp del]

definition get_url :: "string \<Rightarrow> string \<Rightarrow> string" where
  "get_url base_url path = trim_end_slashes base_url @ path"

text \<open>What the HTTP client answers: an error before any response, or a status and a body.\<close>

definition client_get :: "(string \<Rightarrow> (string \<times> string) list \<Rightarrow> string + nat \<times> string) \<Rightarrow>
    (string \<Rightarrow> string + 'a) \<Rightarrow> string \<Rightarrow> string \<Rightarrow> string \<Rightarrow> vt_error + 'a" where
  "client_get send json base_url token path =
     (case send (get_url base_url path) [(''authorization'', ''Bearer '' @ token)] of
        Inl e \<Rightarrow> Inl (VtApi e)
      | Inr (status, body) \<Rightarrow>
          if \<not> (200 \<le> status \<and> status < 300) then Inl (VtHttp status body)
          else (case json body of Inl e \<Rightarrow> Inl (VtApi e) | Inr x \<Rightarrow> Inr x))"

definition list_vms :: "(string \<Rightarrow> (string \<times> string) list \<Rightarrow> string + nat \<times> string) \<Rightarrow>
    (string \<Rightarrow> string + vt_vm list) \<Rightarrow> string \<Rightarrow> string \<Rightarrow> vt_error + vt_vm list" where
  "list_vms send json base_url token = client_get send json base_url token ''/api/vms''"

record snapshot =
  ss_vms :: "vt_vm list option"
  ss_last_ok :: "instant option"
  ss_last_attempt :: "instant option"
  ss_error :: "string option"

definition snapshot_fresh :: snapshot where
  "snapshot_fresh = \<lparr>ss_vms = None, ss_last_ok = None, ss_last_attempt = None, ss_error = None\<rparr>"

definition connected :: "snapshot \<Rightarrow> bool" where
  "connected s \<longleftrightarrow> ss_vms s \<noteq> None \<and> ss_error s = None"

text \<open>One turn of the poller's loop.\<close>

definition poll_once :: "instant \<Rightarrow> vt_error + vt_vm list \<Rightarrow> snapshot \<Rightarrow> snapshot" where
  "poll_once now outcome snap =
     (let snap = snap\<lparr>ss_last_attempt := Some now\<rparr>
      in case outcome of
           Inr vms \<Rightarrow> snap\<lparr>ss_vms := Some vms, ss_last_ok := Some now, ss_error := None\<rparr>
         | Inl err \<Rightarrow> snap\<lparr>ss_error := Some (vt_error_text err)\<rparr>)"

definition poll_all :: "(instant \<times> (vt_error + vt_vm list)) list \<Rightarrow> snapshot" where
  "poll_all polls = foldl (\<lambda>s (now, outcome). poll_once now outcome s) snapshot_fresh polls"

section \<open>The application\<close>

datatype filter_mode = ModeNormal | ModeFiltering

datatype key_code = KeyChar char | KeyEsc | KeyBackspace | KeyEnter | KeyDown | KeyUp | KeyPageDown | KeyPageUp
  | KeyHome | KeyEnd | KeyOther

record key_event =
  ke_code :: key_code
  ke_control :: bool

text \<open>\<open>va_nudges\<close> counts what was sent to the poller.\<close>

record vt_app =
  va_interval_ms :: nat
  va_base_url :: string
  va_nudges :: nat
  va_snap :: snapshot
  va_view :: view
  va_mode :: filter_mode
  va_filter :: string
  va_quit :: bool

definition app_new :: "string \<Rightarrow> nat \<Rightarrow> bool \<Rightarrow> sort_order \<Rightarrow> vt_app" where
  "app_new base_url interval grouped order = \<lparr>va_interval_ms = interval, va_base_url = base_url, va_nudges = 0,
     va_snap = snapshot_fresh, va_view = view_new grouped order, va_mode = ModeNormal, va_filter = [], va_quit = False\<rparr>"

definition host_disp :: "vt_app \<Rightarrow> string" where
  "host_disp a = trim_end_slashes (trim_start_prefix ''https://'' (trim_start_prefix ''http://'' (va_base_url a)))"

definition app_refresh :: "(string \<Rightarrow> string) \<Rightarrow> snapshot \<Rightarrow> vt_app \<Rightarrow> vt_app" where
  "app_refresh lower published a =
     (let a = a\<lparr>va_snap := published\<rparr>
      in case ss_vms published of
           Some vms \<Rightarrow> a\<lparr>va_view := view_update lower vms (va_view a)\<rparr>
         | None \<Rightarrow> a)"

definition key_filtering :: "(string \<Rightarrow> string) \<Rightarrow> key_event \<Rightarrow> vt_app \<Rightarrow> vt_app" where
  "key_filtering lower key a =
     (case ke_code key of
        KeyChar c \<Rightarrow> a\<lparr>va_filter := va_filter a @ [c], va_view := set_filter lower (va_filter a @ [c]) (va_view a)\<rparr>
      | KeyBackspace \<Rightarrow> a\<lparr>va_filter := butlast (va_filter a), va_view := set_filter lower (butlast (va_filter a)) (va_view a)\<rparr>
      | KeyEnter \<Rightarrow> a\<lparr>va_mode := ModeNormal\<rparr>
      | _ \<Rightarrow> a)"

definition other_sort :: "sort_order \<Rightarrow> sort_order" where
  "other_sort order = (case order of SortState \<Rightarrow> SortName | SortName \<Rightarrow> SortState)"

definition key_char_normal :: "(string \<Rightarrow> string) \<Rightarrow> char \<Rightarrow> vt_app \<Rightarrow> vt_app" where
  "key_char_normal lower c a =
     (if c = CHR ''q'' then a\<lparr>va_quit := True\<rparr>
      else if c = CHR ''j'' then a\<lparr>va_view := move_selected 1 (va_view a)\<rparr>
      else if c = CHR ''k'' then a\<lparr>va_view := move_selected (- 1) (va_view a)\<rparr>
      else if c = CHR ''g'' then a\<lparr>va_view := jump_first (va_view a)\<rparr>
      else if c = CHR ''G'' then a\<lparr>va_view := jump_last (va_view a)\<rparr>
      else if c = CHR ''f'' then a\<lparr>va_view := toggle_grouped lower (va_view a)\<rparr>
      else if c = CHR ''s'' then a\<lparr>va_view := set_sort lower (other_sort (vw_sort (va_view a))) (va_view a)\<rparr>
      else if c = CHR ''/'' then a\<lparr>va_filter := [], va_mode := ModeFiltering\<rparr>
      else if c = CHR ''r'' then a\<lparr>va_nudges := va_nudges a + 1\<rparr>
      else a)"

definition key_normal :: "(string \<Rightarrow> string) \<Rightarrow> key_event \<Rightarrow> vt_app \<Rightarrow> vt_app" where
  "key_normal lower key a =
     (if ke_code key = KeyChar (CHR ''c'') \<and> ke_control key then a\<lparr>va_quit := True\<rparr>
      else case ke_code key of
        KeyChar c \<Rightarrow> key_char_normal lower c a
      | KeyDown \<Rightarrow> a\<lparr>va_view := move_selected 1 (va_view a)\<rparr>
      | KeyUp \<Rightarrow> a\<lparr>va_view := move_selected (- 1) (va_view a)\<rparr>
      | KeyPageDown \<Rightarrow> a\<lparr>va_view := move_selected 5 (va_view a)\<rparr>
      | KeyPageUp \<Rightarrow> a\<lparr>va_view := move_selected (- 5) (va_view a)\<rparr>
      | KeyHome \<Rightarrow> a\<lparr>va_view := jump_first (va_view a)\<rparr>
      | KeyEnd \<Rightarrow> a\<lparr>va_view := jump_last (va_view a)\<rparr>
      | _ \<Rightarrow> a)"

definition on_key :: "(string \<Rightarrow> string) \<Rightarrow> key_event \<Rightarrow> vt_app \<Rightarrow> vt_app" where
  "on_key lower key a =
     (if ke_code key = KeyEsc \<and> va_mode a = ModeFiltering
      then a\<lparr>va_mode := ModeNormal, va_filter := [], va_view := clear_filter lower (va_view a)\<rparr>
      else case va_mode a of
        ModeFiltering \<Rightarrow> key_filtering lower key a
      | ModeNormal \<Rightarrow> key_normal lower key a)"

text \<open>One turn of the event loop: the keys that have arrived, then the snapshot published last, that is the
  one after the polls so far.  The loop looks at \<open>quit\<close> only between turns.  A turn comes with the keys and
  the polls that finished since the turn before.\<close>

type_synonym polls = "(instant \<times> (vt_error + vt_vm list)) list"

definition loop_turn :: "(string \<Rightarrow> string) \<Rightarrow> key_event list \<Rightarrow> polls \<Rightarrow> vt_app \<Rightarrow> vt_app" where
  "loop_turn lower keys polls a = app_refresh lower (poll_all polls) (foldl (\<lambda>a k. on_key lower k a) a keys)"

fun run_loop :: "(string \<Rightarrow> string) \<Rightarrow> (key_event list \<times> polls) list \<Rightarrow> polls \<times> vt_app \<Rightarrow> polls \<times> vt_app" where
  "run_loop lower [] (polls, a) = (polls, a)"
| "run_loop lower ((keys, new) # turns) (polls, a) =
     (if va_quit a then (polls, a)
      else run_loop lower turns (polls @ new, loop_turn lower keys (polls @ new) a))"

definition app_run :: "(string \<Rightarrow> string) \<Rightarrow> polls \<Rightarrow> (key_event list \<times> polls) list \<Rightarrow> vt_app \<Rightarrow> polls \<times> vt_app" where
  "app_run lower polls turns a = run_loop lower turns (polls, app_refresh lower (poll_all polls) a)"

section \<open>The start\<close>

record vt_args =
  ar_api_url :: string
  ar_token :: "string option"
  ar_refresh_ms :: nat
  ar_flat :: bool

definition choose_token :: "string option \<Rightarrow> string option \<Rightarrow> vt_error + string" where
  "choose_token arg env =
     (case (case arg of Some t \<Rightarrow> Some t | None \<Rightarrow> env) of
        Some t \<Rightarrow> if trim_str t = [] then Inl VtMissingToken else Inr t
      | None \<Rightarrow> Inl VtMissingToken)"

definition app_start :: "vt_args \<Rightarrow> string option \<Rightarrow> vt_error + string \<times> vt_app" where
  "app_start args env =
     (case choose_token (ar_token args) env of
        Inl e \<Rightarrow> Inl e
      | Inr token \<Rightarrow>
          Inr (token, app_new (ar_api_url args) (max 100 (min 30000 (ar_refresh_ms args))) (\<not> ar_flat args) SortState))"

section \<open>What is published\<close>

definition fetched :: "polls \<Rightarrow> (instant \<times> vt_vm list) list" where
  "fetched polls = concat (map (\<lambda>(now, outcome). case outcome of Inr vms \<Rightarrow> [(now, vms)] | Inl _ \<Rightarrow> []) polls)"

definition answered :: "instant \<times> (vt_error + vt_vm list) \<Rightarrow> bool" where
  "answered p = (case snd p of Inr _ \<Rightarrow> True | Inl _ \<Rightarrow> False)"

lemma poll_all_snoc: "poll_all (polls @ [p]) = poll_once (fst p) (snd p) (poll_all polls)"
  by (simp add: poll_all_def case_prod_unfold)

lemma poll_keeps_last_good_inventory:
  "ss_vms (poll_all polls) = (if fetched polls = [] then None else Some (snd (last (fetched polls))))"
proof (induction polls rule: rev_induct)
  case Nil
  then show ?case by (simp add: poll_all_def snapshot_fresh_def fetched_def)
next
  case (snoc p polls)
  then show ?case
    by (cases "snd p") (simp_all add: poll_all_snoc poll_once_def fetched_def case_prod_unfold)
qed

text \<open>Failed polls never lose the inventory: what is published is the inventory and the time of the last
  poll that succeeded, whatever failed since; and the header says connected exactly when the latest
  poll succeeded.\<close>

theorem poll_keeps_last_good:
  "ss_vms (poll_all polls) = (if fetched polls = [] then None else Some (snd (last (fetched polls)))) \<and>
   ss_last_ok (poll_all polls) = (if fetched polls = [] then None else Some (fst (last (fetched polls)))) \<and>
   ss_last_attempt (poll_all polls) = (if polls = [] then None else Some (fst (last polls))) \<and>
   (connected (poll_all polls) \<longleftrightarrow> polls \<noteq> [] \<and> answered (last polls))"
proof (induction polls rule: rev_induct)
  case Nil
  then show ?case by (simp add: poll_all_def snapshot_fresh_def fetched_def connected_def)
next
  case (snoc p polls)
  have "fetched (polls @ [p]) = fetched polls @ (case snd p of Inr vms \<Rightarrow> [(fst p, vms)] | Inl _ \<Rightarrow> [])"
    by (simp add: fetched_def case_prod_unfold)
  with snoc show ?case
    by (cases "snd p") (simp_all add: poll_all_snoc poll_once_def connected_def answered_def)
qed

section \<open>The screen is current\<close>

definition inventory :: "polls \<Rightarrow> vt_vm list" where
  "inventory polls = (if fetched polls = [] then [] else snd (last (fetched polls)))"

text \<open>The visible VMs are those of the inventory that match, sorted.\<close>

definition view_current :: "(string \<Rightarrow> string) \<Rightarrow> view \<Rightarrow> bool" where
  "view_current lower v \<longleftrightarrow>
     vw_vms v = sort_vms (vw_sort v) (filter (\<lambda>vm. vw_filter v = [] \<or> vm_matches lower (vw_filter v) vm) (vw_all v))"

lemma repin_fields [simp]:
  "vw_all (repin_selection v) = vw_all v" "vw_vms (repin_selection v) = vw_vms v"
  "vw_sort (repin_selection v) = vw_sort v" "vw_filter (repin_selection v) = vw_filter v"
  by (simp_all add: repin_selection_def split: option.split)

lemma rebuild_current [simp]:
  "view_current lower (rebuild lower v)" "vw_all (rebuild lower v) = vw_all v"
  "vw_filter (rebuild lower v) = vw_filter v"
  by (simp_all add: rebuild_def view_current_def Let_def case_prod_unfold)

lemma navigate_current [simp]:
  "view_current lower (move_selected d v) = view_current lower v" "vw_all (move_selected d v) = vw_all v"
  "vw_filter (move_selected d v) = vw_filter v"
  "view_current lower (jump_first v) = view_current lower v" "vw_all (jump_first v) = vw_all v"
  "vw_filter (jump_first v) = vw_filter v"
  "view_current lower (jump_last v) = view_current lower v" "vw_all (jump_last v) = vw_all v"
  "vw_filter (jump_last v) = vw_filter v"
  by (simp_all add: move_selected_def jump_first_def jump_last_def stamp_selected_def view_current_def Let_def
      split: list.split)

lemma set_current [simp]:
  "view_current lower v \<Longrightarrow> view_current lower (set_filter lower f v)" "vw_all (set_filter lower f v) = vw_all v"
  "vw_filter (set_filter lower f v) = f"
  "view_current lower v \<Longrightarrow> view_current lower (clear_filter lower v)" "vw_all (clear_filter lower v) = vw_all v"
  "view_current lower v \<Longrightarrow> view_current lower (toggle_grouped lower v)" "vw_all (toggle_grouped lower v) = vw_all v"
  "vw_filter (toggle_grouped lower v) = vw_filter v"
  "view_current lower v \<Longrightarrow> view_current lower (set_sort lower ord v)" "vw_all (set_sort lower ord v) = vw_all v"
  "vw_filter (set_sort lower ord v) = vw_filter v"
  by (simp_all add: set_filter_def clear_filter_def toggle_grouped_def set_grouped_def set_sort_def)

text \<open>What holds of the application after every key and every refresh.\<close>

definition app_ok :: "(string \<Rightarrow> string) \<Rightarrow> vt_app \<Rightarrow> bool" where
  "app_ok lower a \<longleftrightarrow> rows_ok (va_view a) \<and> selection_ok (va_view a) \<and> view_current lower (va_view a) \<and>
     (va_filter a = [] \<or> vw_filter (va_view a) = va_filter a)"

lemma view_ops_ok [simp]:
  assumes "rows_ok v" "selection_ok v"
  shows "rows_ok (move_selected d v)" "selection_ok (move_selected d v)"
    "rows_ok (jump_first v)" "selection_ok (jump_first v)" "rows_ok (jump_last v)" "selection_ok (jump_last v)"
    "rows_ok (set_filter lower f v)" "selection_ok (set_filter lower f v)"
    "rows_ok (clear_filter lower v)" "selection_ok (clear_filter lower v)"
    "rows_ok (toggle_grouped lower v)" "selection_ok (toggle_grouped lower v)"
    "rows_ok (set_sort lower ord v)" "selection_ok (set_sort lower ord v)"
  using view_op_ok[OF assms, of lower "OpMove d"] view_op_ok[OF assms, of lower OpFirst] view_op_ok[OF assms, of lower OpLast]
    view_op_ok[OF assms, of lower "OpFilter f"] view_op_ok[OF assms, of lower OpClear]
    view_op_ok[OF assms, of lower OpToggle] view_op_ok[OF assms, of lower "OpSort ord"] by simp_all

lemma key_filtering_ok:
  assumes "app_ok lower a"
  shows "app_ok lower (key_filtering lower key a)"
  using assms unfolding app_ok_def key_filtering_def by (cases "ke_code key") simp_all

lemma key_normal_ok:
  assumes "app_ok lower a"
  shows "app_ok lower (key_normal lower key a)"
  using assms unfolding app_ok_def key_normal_def key_char_normal_def by (cases "ke_code key") simp_all

lemma on_key_ok:
  assumes "app_ok lower a"
  shows "app_ok lower (on_key lower key a)"
proof (cases "ke_code key = KeyEsc \<and> va_mode a = ModeFiltering")
  case True
  then show ?thesis using assms by (simp add: on_key_def app_ok_def)
next
  case False
  then show ?thesis using key_filtering_ok[OF assms] key_normal_ok[OF assms]
    by (cases "va_mode a") (simp_all add: on_key_def)
qed

lemma on_key_inventory: "vw_all (va_view (on_key lower key a)) = vw_all (va_view a)"
  unfolding on_key_def key_filtering_def key_normal_def key_char_normal_def
  by (cases "ke_code key"; cases "va_mode a") simp_all

lemma keys_ok:
  "app_ok lower a \<Longrightarrow> app_ok lower (foldl (\<lambda>a k. on_key lower k a) a keys) \<and>
     vw_all (va_view (foldl (\<lambda>a k. on_key lower k a) a keys)) = vw_all (va_view a)"
  by (induction keys arbitrary: a) (simp_all add: on_key_ok on_key_inventory)

lemma refresh_ok:
  assumes "app_ok lower a"
  shows "app_ok lower (app_refresh lower published a)"
proof -
  have "vw_filter (view_update lower vms v) = vw_filter v" for vms v by (simp add: view_update_def)
  then show ?thesis using assms rebuild_ok
    by (auto simp: app_refresh_def app_ok_def Let_def view_update_def split: option.split)
qed

lemma refresh_inventory:
  assumes "vw_all (va_view a) = inventory before"
  shows "va_snap (app_refresh lower (poll_all (before @ new)) a) = poll_all (before @ new) \<and>
    vw_all (va_view (app_refresh lower (poll_all (before @ new)) a)) = inventory (before @ new)"
proof (cases "fetched (before @ new) = []")
  case True
  then have "fetched before = []" by (simp add: fetched_def)
  with True assms show ?thesis
    using poll_keeps_last_good_inventory[of "before @ new"] by (simp add: app_refresh_def inventory_def Let_def)
next
  case False
  then show ?thesis
    using poll_keeps_last_good_inventory[of "before @ new"]
    by (simp add: app_refresh_def inventory_def view_update_def Let_def)
qed

lemma loop_ok:
  assumes "app_ok lower a" "va_snap a = poll_all polls" "vw_all (va_view a) = inventory polls"
    "run_loop lower turns (polls, a) = (polls', a')"
  shows "app_ok lower a' \<and> va_snap a' = poll_all polls' \<and> vw_all (va_view a') = inventory polls'"
  using assms
proof (induction lower turns "(polls, a)" arbitrary: polls a rule: run_loop.induct)
  case (2 lower keys new turns polls a)
  show ?case
  proof (cases "va_quit a")
    case False
    let ?b = "foldl (\<lambda>a k. on_key lower k a) a keys"
    have b: "app_ok lower ?b" "vw_all (va_view ?b) = inventory polls" using keys_ok[OF 2(2)] 2(4) by simp_all
    show ?thesis
      using 2(1)[OF False] refresh_ok[OF b(1)] refresh_inventory[OF b(2)] 2(5) False by (simp add: loop_turn_def)
  qed (use 2 in simp)
qed simp

lemma app_run_ok:
  assumes "app_run lower polls turns (app_new url interval grouped order) = (polls', a)"
  shows "app_ok lower a \<and> va_snap a = poll_all polls' \<and> vw_all (va_view a) = inventory polls'"
proof -
  let ?a = "app_refresh lower (poll_all polls) (app_new url interval grouped order)"
  have new: "app_ok lower (app_new url interval grouped order)"
    by (simp add: app_ok_def app_new_def rows_ok_def selection_ok_def view_new_def view_current_def sort_vms_def
        split: sort_order.split)
  have "vw_all (va_view (app_new url interval grouped order)) = inventory []"
    by (simp add: app_new_def view_new_def inventory_def fetched_def)
  from refresh_inventory[OF this, of lower polls] refresh_ok[OF new] show ?thesis
    using assms by (intro loop_ok[of lower ?a polls turns]) (simp_all add: app_run_def)
qed

text \<open>C39: Poller and event loop together: whatever is typed and however the polls go, the screen shows the
  inventory of the last successful poll, restricted to the filter and sorted as chosen; what the
  prompt holds is what is applied, or the prompt is empty; a VM is selected if one is visible.\<close>

theorem screen_current:
  assumes "app_run lower polls turns (app_new url interval grouped order) = (polls', a)"
  shows "let v = va_view a in
    vw_vms v = sort_vms (vw_sort v) (filter (\<lambda>vm. vw_filter v = [] \<or> vm_matches lower (vw_filter v) vm) (inventory polls')) \<and>
    (va_filter a = [] \<or> vw_filter v = va_filter a) \<and>
    (selected_vm v = None \<longleftrightarrow> vw_vms v = []) \<and>
    va_snap a = poll_all polls'"
  using app_run_ok[OF assms] selected_iff[of "va_view a"] by (simp add: app_ok_def view_current_def Let_def)

definition demo_turns :: "(key_event list \<times> polls) list" where
  "demo_turns = [([\<lparr>ke_code = KeyChar (CHR ''/''), ke_control = False\<rparr>, \<lparr>ke_code = KeyChar (CHR ''z''), ke_control = False\<rparr>],
     [(2, Inl (VtApi ''down''))])]"

definition demo_run :: "polls \<times> vt_app" where
  "demo_run = app_run id [(1, Inr [demo_vt_vm ''vm-b'' ''b''])] demo_turns (app_new ''http://h/'' 1000 False SortName)"

lemma screen_current_witness:
  "selected_vm (va_view (snd demo_run)) = None \<and> va_snap (snd demo_run) = poll_all (fst demo_run) \<and>
   vw_vms (va_view (snd demo_run)) = sort_vms (vw_sort (va_view (snd demo_run)))
     (filter (\<lambda>vm. vw_filter (va_view (snd demo_run)) = [] \<or> vm_matches id (vw_filter (va_view (snd demo_run))) vm) (inventory (fst demo_run)))"
proof -
  have "app_run id [(1, Inr [demo_vt_vm ''vm-b'' ''b''])] demo_turns (app_new ''http://h/'' 1000 False SortName)
      = (fst demo_run, snd demo_run)"
    by (simp add: demo_run_def)
  note run = screen_current[OF this]
  have "vw_vms (va_view (snd demo_run)) = []"
    by (simp add: demo_run_def demo_turns_def app_run_def loop_turn_def on_key_def key_normal_def key_char_normal_def
        key_filtering_def app_refresh_def app_new_def poll_all_def poll_once_def snapshot_fresh_def view_eval
        set_filter_def vm_matches_def contains_def starts_with_def guest_ip_def)
  then show ?thesis using run by (simp add: Let_def)
qed

section \<open>Keys\<close>

abbreviation key :: "key_code \<Rightarrow> key_event" where
  "key k \<equiv> \<lparr>ke_code = k, ke_control = False\<rparr>"

lemma quits_iff:
  "va_quit (on_key lower k a) \<longleftrightarrow> va_quit a \<or>
     (va_mode a = ModeNormal \<and> (ke_code k = KeyChar (CHR ''q'') \<or> (ke_code k = KeyChar (CHR ''c'') \<and> ke_control k)))"
  unfolding on_key_def key_filtering_def key_normal_def key_char_normal_def
  by (cases "ke_code k"; cases "va_mode a") auto

lemma esc_normal: "va_mode (on_key lower (key KeyEsc) a) = ModeNormal"
  unfolding on_key_def key_filtering_def key_normal_def by (cases "va_mode a") simp_all

text \<open>Whatever the application is doing, Esc and then q end the event loop in the turn that reads them,
  whatever would have come after.\<close>

theorem esc_q_leaves:
  "va_quit (snd (run_loop lower (([key KeyEsc, key (KeyChar (CHR ''q''))], new) # turns) (polls, a))) \<and>
   run_loop lower (([key KeyEsc, key (KeyChar (CHR ''q''))], new) # turns) (polls, a) =
   run_loop lower [([key KeyEsc, key (KeyChar (CHR ''q''))], new)] (polls, a)"
proof -
  let ?keys = "[key KeyEsc, key (KeyChar (CHR ''q''))]"
  have refresh: "va_quit (app_refresh lower published b) = va_quit b" for published b
    by (simp add: app_refresh_def Let_def split: option.split)
  have "va_quit (loop_turn lower ?keys (polls @ new) a)"
    by (simp add: loop_turn_def refresh quits_iff esc_normal)
  moreover have "run_loop lower turns (polls @ new, b) = (polls @ new, b)" if "va_quit b" for b
    using that by (cases turns) auto
  ultimately show ?thesis by (cases turns) auto
qed

text \<open>While the prompt is open no single key quits, and an interrupt is typed into the filter.\<close>

lemma interrupt_is_typed:
  assumes "va_mode a = ModeFiltering"
  shows "va_filter (on_key lower \<lparr>ke_code = KeyChar (CHR ''c''), ke_control = True\<rparr> a) = va_filter a @ ''c'' \<and>
    va_quit (on_key lower \<lparr>ke_code = KeyChar (CHR ''c''), ke_control = True\<rparr> a) = va_quit a"
  using assms by (simp add: on_key_def key_filtering_def)

text \<open>A filter that was confirmed stays through Esc, and through a prompt that is opened and confirmed empty,
  although the body says that Esc clears it.\<close>

lemma filter_stays:
  assumes "va_mode a = ModeNormal"
  shows "on_key lower (key KeyEsc) a = a"
    and "va_view (foldl (\<lambda>a k. on_key lower k a) a [key (KeyChar (CHR ''/'')), key KeyEnter]) = va_view a"
    and "va_filter (foldl (\<lambda>a k. on_key lower k a) a [key (KeyChar (CHR ''/'')), key KeyEnter]) = []"
  using assms by (simp_all add: on_key_def key_normal_def key_char_normal_def key_filtering_def)

end
