(* ===== verification/VmtopUi.thy ===== *)
theory VmtopUi
  imports VmtopApp
begin

text \<open>
  What vmtop paints: \<open>vmtop/src/format.rs\<close> and \<open>ui.rs\<close>.  A line is a list of styled spans.  A string is the list
  of its characters, which is what the code counts and cuts; the five characters of the fixed texts beyond the
  first 256 (a dash, a block, two arrows) stand as one ASCII character each.  The local clock is a parameter.
\<close>

section \<open>Labels\<close>

text \<open>\<open>{:.1}\<close> of a count of MiB divided by 1024: the quotient is exact in an \<open>f64\<close> below \<open>2\<^sup>5\<^sup>3\<close>, and the printed
  tenth is the nearest one, the even one of two.\<close>

definition tenths :: "nat \<Rightarrow> nat" where
  "tenths mib =
     (let q = 10 * mib div 1024; r = 10 * mib mod 1024
      in if 512 < r \<or> (r = 512 \<and> odd q) then q + 1 else q)"

definition gib_text :: "nat \<Rightarrow> string" where
  "gib_text mib = dec (tenths mib div 10) @ ''.'' @ dec (tenths mib mod 10) @ ''G''"

definition memory_mib :: "nat \<Rightarrow> string" where
  "memory_mib mib = (if 1024 \<le> mib then gib_text mib else dec mib @ ''M'')"

definition two_digits :: "nat \<Rightarrow> string" where
  "two_digits n = (if n < 10 then ''0'' else []) @ dec n"

definition duration :: "int \<Rightarrow> string" where
  "duration total_secs =
     (let secs = nat (max 0 total_secs);
          days = secs div 86400; hours = secs mod 86400 div 3600; mins = secs mod 3600 div 60; seconds = secs mod 60
      in if 0 < days then dec days @ ''d'' @ dec hours @ ''h''
         else if 0 < hours then dec hours @ ''h'' @ two_digits mins @ ''m''
         else if 0 < mins then dec mins @ ''m''
         else dec seconds @ ''s'')"

definition secs_between :: "instant \<Rightarrow> instant \<Rightarrow> int" where
  "secs_between now earlier = (int now - int earlier) div 1000"

definition uptime :: "instant \<Rightarrow> instant \<Rightarrow> string" where
  "uptime now created = duration (secs_between now created)"

definition ago :: "instant \<Rightarrow> instant \<Rightarrow> string" where
  "ago now earlier = duration (secs_between now earlier) @ '' ago''"

text \<open>\<open>{:?}\<close> of a duration of at least a millisecond.\<close>

definition debug_millis :: "nat \<Rightarrow> string" where
  "debug_millis ms =
     (if ms < 1000 then dec ms @ ''ms''
      else dec (ms div 1000) @
        (if ms mod 1000 = 0 then []
         else CHR ''.'' # rev (dropWhile (\<lambda>c. c = CHR ''0'')
           (rev (dec (ms mod 1000 div 100) @ dec (ms mod 100 div 10) @ dec (ms mod 10))))) @ ''s'')"

section \<open>Cutting and padding\<close>

definition cut_right :: "string \<Rightarrow> nat \<Rightarrow> string" where
  "cut_right s num = take num s"

definition cut_tail :: "string \<Rightarrow> nat \<Rightarrow> string" where
  "cut_tail s num =
     (let n = length s
      in if n \<le> num then s
         else if 4 \<le> num then ''..'' @ drop (n - num + 2) s
         else take num s)"

definition col :: "string \<Rightarrow> nat \<Rightarrow> string" where
  "col s num = (let t = cut_right s num in t @ replicate (num - length t) (CHR '' ''))"

text \<open>\<open>{s:<num$}\<close> pads and does not cut.\<close>

definition pad_right :: "string \<Rightarrow> nat \<Rightarrow> string" where
  "pad_right s num = s @ replicate (num - length s) (CHR '' '')"

definition clip :: "string \<Rightarrow> nat \<Rightarrow> string" where
  "clip s width = cut_right s width"

section \<open>Styles\<close>

datatype colour = Green | Yellow | Cyan | DarkGray | LightYellow | Magenta | LightBlue | Red

record style =
  sy_fg :: "colour option"
  sy_dim :: bool
  sy_bold :: bool
  sy_reversed :: bool

definition plain :: style where
  "plain = \<lparr>sy_fg = None, sy_dim = False, sy_bold = False, sy_reversed = False\<rparr>"

type_synonym line = "(style \<times> string) list"

definition line_text :: "line \<Rightarrow> string" where
  "line_text l = concat (map snd l)"

definition state_color :: "vm_state \<Rightarrow> colour" where
  "state_color state =
     (case state of Started \<Rightarrow> Green | Paused \<Rightarrow> Yellow | Suspended \<Rightarrow> Cyan | Destroyed \<Rightarrow> DarkGray
      | Created \<Rightarrow> LightYellow | _ \<Rightarrow> Magenta)"

section \<open>Rows\<close>

definition C_PAD :: nat where "C_PAD = 1"
definition C_PROJ :: nat where "C_PROJ = 7"
definition C_STATE :: nat where "C_STATE = 10"
definition C_ID :: nat where "C_ID = 26"
definition C_NAME :: nat where "C_NAME = 20"
definition C_IMAGE :: nat where "C_IMAGE = 10"

definition FIELD_WIDTHS :: "nat list" where
  "FIELD_WIDTHS = [C_ID, C_NAME, 12, 12, C_IMAGE, 4, 6, 7, 6, 16, 14, 8]"

definition FIELD_LABELS :: "string list" where
  "FIELD_LABELS = [''VM ID'', ''NAME'', ''IP'', ''SUBNET'', ''IMAGE'', ''CPU'', ''MEM'', ''DISK'', ''MODE'', ''PORTS'',
     ''TAGS'', ''UPTIME'']"

definition vm_fields :: "vt_vm \<Rightarrow> instant \<Rightarrow> string list" where
  "vm_fields vm now =
     (let cfg = tv_config vm; ports = join_with '','' (map dec (tc_exposed_ports cfg))
      in [cut_tail (tv_vm_id vm) C_ID,
          cut_right (tc_name cfg) C_NAME,
          case_option [] id (guest_ip vm),
          (case tv_net vm of None \<Rightarrow> [] | Some n \<Rightarrow> tn_subnet n),
          cut_right (tc_image cfg) C_IMAGE,
          dec (unat (tc_cpus cfg)),
          memory_mib (tc_memory_mb cfg),
          memory_mib (tc_disk_size_mb cfg),
          (case tc_mode cfg of Ephemeral \<Rightarrow> ''eph'' | Permanent \<Rightarrow> ''perm'' | Schedule \<Rightarrow> ''sched''),
          ports,
          join_with '','' (tc_tags cfg),
          uptime now (tv_created_at vm)])"

definition group_header :: "vt_group \<Rightarrow> nat \<Rightarrow> line" where
  "group_header g width =
     (let c = gr_counts g;
          some = (\<lambda>n label. if 0 < n then [dec n @ label] else []);
          counts = some (sc_started c) '' running'' @ some (sc_paused c) '' paused'' @ some (sc_suspended c) '' suspended'' @
            some (sc_destroyed c) '' gone'' @ some (sc_other c) '' other'';
          plural = (if sc_total c = 1 then [] else ''s'');
          header = ''project '' @ pad_right (dec (gr_project_id g)) C_PROJ;
          header = (if counts \<noteq> []
            then header @ ''   ['' @ join_with '', '' counts @ '' '' @ [CHR 0xB7] @ '' '' @ dec (sc_total c) @ '' VM'' @ plural @ '']''
            else header);
          header = (case gr_subnet g of None \<Rightarrow> header | Some subnet \<Rightarrow> header @ ''   subnet '' @ subnet)
      in [(plain\<lparr>sy_fg := Some Cyan, sy_bold := True\<rparr>, clip header width)])"

definition heading_line :: "bool \<Rightarrow> nat \<Rightarrow> line" where
  "heading_line flat width =
     (let s = pad_right ''STATE'' C_STATE @ (if flat then pad_right ''PROJ'' (C_PROJ + C_PAD) else []) @
            concat (map (\<lambda>(label, w). pad_right label (w + C_PAD)) (zip FIELD_LABELS FIELD_WIDTHS))
      in [(plain\<lparr>sy_dim := True\<rparr>, clip s width)])"

text \<open>The fields of a row; the last one gets what is left of the width.\<close>

fun push_fields :: "nat \<Rightarrow> (string \<times> nat) list \<Rightarrow> string" where
  "push_fields budget [] = []"
| "push_fields budget [(f, w)] = (let w = min budget w in col (cut_right f w) (w + C_PAD))"
| "push_fields budget ((f, w) # g # fs) = col (cut_right f w) (w + C_PAD) @ push_fields (budget - (w + C_PAD)) (g # fs)"

definition vm_row :: "vt_vm \<Rightarrow> instant \<Rightarrow> bool \<Rightarrow> nat \<Rightarrow> bool \<Rightarrow> line" where
  "vm_row vm now flat width selected =
     (let sel = (if selected then plain\<lparr>sy_reversed := True, sy_bold := True\<rparr> else plain);
          project = col (dec (tc_project_id (tv_config vm))) C_PROJ;
          lead = C_STATE + C_PAD + (if flat then C_PROJ + C_PAD else 0);
          rest = (if flat then project @ '' '' else []) @
            push_fields (width - lead) (zip (vm_fields vm now) FIELD_WIDTHS)
      in (sel\<lparr>sy_fg := Some (state_color (tv_state vm))\<rparr>, col (vt_state_text (tv_state vm)) C_STATE) #
         (if flat then [(sel, project)] else []) @ [(sel, rest)])"

section \<open>The body\<close>

text \<open>One row of the list: the lines so far and the index of the selected one.\<close>

definition push_row :: "view \<Rightarrow> instant \<Rightarrow> nat \<Rightarrow> line list \<times> nat option \<Rightarrow> row_id \<Rightarrow> line list \<times> nat option" where
  "push_row v now width acc row =
     (case acc of (lines, selected_idx) \<Rightarrow>
        case row of
          RowGroup gi \<Rightarrow> (lines @ [group_header (vw_groups v ! gi) width], selected_idx)
        | RowVm i \<Rightarrow>
            (let vm = vw_vms v ! i;
                 sel = (case selected_vm v of Some s \<Rightarrow> tv_vm_id s = tv_vm_id vm | None \<Rightarrow> False)
             in (lines @ [vm_row vm now (\<not> vw_grouped v) width sel], if sel then Some (length lines) else selected_idx)))"

definition body_lines :: "view \<Rightarrow> instant \<Rightarrow> nat \<Rightarrow> string \<Rightarrow> line list \<times> nat option" where
  "body_lines v now width filter_indicator =
     (let lines = (if filter_indicator \<noteq> []
            then [[(plain\<lparr>sy_fg := Some Cyan\<rparr>, clip (''filter: '' @ [CHR 0x22] @ filter_indicator @ [CHR 0x22] @ ''  (Esc clears)'') width)]]
            else []) @ [heading_line (\<not> vw_grouped v) width]
      in if vw_vms v = []
         then let msg = (if vw_all v = [] then ''no VMs yet - waiting for the first poll'' else ''no VMs match the filter'')
              in (lines @ [[(plain\<lparr>sy_dim := True\<rparr>, clip msg width)]], None)
         else foldl (push_row v now width) (lines, None) (vw_rows v))"

definition scroll_top :: "nat \<Rightarrow> nat option \<Rightarrow> nat \<Rightarrow> u16" where
  "scroll_top total_lines selected window =
     (if window = 0 \<or> total_lines \<le> window then 0
      else case selected of
        None \<Rightarrow> 0
      | Some pos \<Rightarrow> of_int (max 0 (min (int total_lines - int window) (int pos - int window div 2))))"

definition body_widget :: "vt_app \<Rightarrow> instant \<Rightarrow> nat \<Rightarrow> nat \<Rightarrow> line list \<times> u16" where
  "body_widget a now area_width area_height =
     (let indicator = (if va_mode a = ModeFiltering then va_filter a else vw_filter (va_view a));
          (lines, selected) = body_lines (va_view a) now (max 1 area_width) indicator
      in (lines, scroll_top (length lines) selected (max 1 area_height)))"

text \<open>The part of the paragraph that is seen.\<close>

definition shown :: "line list \<times> u16 \<Rightarrow> nat \<Rightarrow> line list" where
  "shown p area_height = (case p of (lines, offset) \<Rightarrow> take area_height (drop (unat offset) lines))"

section \<open>The other lines\<close>

definition detail_line :: "vt_app \<Rightarrow> instant \<Rightarrow> line" where
  "detail_line a now =
     (case selected_vm (va_view a) of
        None \<Rightarrow> [(plain\<lparr>sy_dim := True\<rparr>, ''no VM selected'')]
      | Some vm \<Rightarrow>
          let cfg = tv_config vm; num_ports = length (tc_exposed_ports cfg);
              parts = [''selected  '' @ tv_vm_id vm] @
                (if tc_name cfg \<noteq> [] then [''name='' @ tc_name cfg] else []) @
                (case tv_net vm of None \<Rightarrow> [] | Some net \<Rightarrow> [''gateway='' @ tn_gateway_ip net @ ''  tap='' @ tn_tap_name net]) @
                (case tc_idle_timeout_secs cfg of None \<Rightarrow> [] | Some t \<Rightarrow> [''auto-suspend '' @ dec t @ ''s'']) @
                (if 0 < num_ports then [dec num_ports @ '' exposed port(s)''] else []) @
                (case tv_snapshot vm of None \<Rightarrow> [] | Some created \<Rightarrow> [''snap '' @ ago now created]) @
                (case tc_block_size_mb cfg of None \<Rightarrow> [] | Some mb \<Rightarrow> [''block '' @ gib_text mb])
          in [(plain\<lparr>sy_fg := Some LightBlue\<rparr>, join_with ''   '' parts)])"

definition help_line :: "vt_app \<Rightarrow> line" where
  "help_line a =
     (if va_mode a = ModeFiltering
      then [(plain\<lparr>sy_fg := Some Cyan\<rparr>, ''filter: '' @ va_filter a @ ''|'')]
      else [(plain\<lparr>sy_dim := True\<rparr>, join_with ('' '' @ [CHR 0xB7] @ '' '') [''j/k or ^/v move'', ''PgUp/PgDn'', ''g/G first/last'',
        ''/ filter'', ''f group/flat'', ''s sort'', ''r refresh'', ''q quit''])])"

definition title_line :: "(instant \<Rightarrow> string) \<Rightarrow> vt_app \<Rightarrow> line" where
  "title_line clock a =
     (let snap = va_snap a; dot = '' '' @ [CHR 0xB7] @ '' '';
          (add, color, bold) =
            (if connected snap
             then (''connected'' @ dot @ ''last poll '' @ case_option [] clock (ss_last_ok snap), Green, False)
             else (''OFFLINE'' @ dot @ (case ss_last_ok snap of Some t \<Rightarrow> ''last ok '' @ clock t | None \<Rightarrow> ''no data yet''), Red, True))
      in [(plain\<lparr>sy_fg := Some Green, sy_bold := True\<rparr>, ''vmtop''),
          (plain\<lparr>sy_dim := True\<rparr>, ''  tikovm'' @ dot @ host_disp a @ '' ''),
          (plain\<lparr>sy_fg := Some color, sy_bold := bold\<rparr>, add)])"

definition summary_line :: "vt_app \<Rightarrow> line" where
  "summary_line a =
     (let hc = host_counts (va_view a); (cpu, mem) = host_alloc (va_view a)
      in [(plain\<lparr>sy_dim := True\<rparr>,
           ''VMs '' @ dec (sc_total hc) @ ''   running '' @ dec (sc_started hc) @ ''   paused '' @ dec (sc_paused hc) @
           ''   suspended '' @ dec (sc_suspended hc) @
           (if 0 < sc_other hc then ''   other '' @ dec (sc_other hc) else []) @
           ''   projects '' @ dec (host_projects (va_view a)) @
           ''   alloc cpu '' @ dec (unat cpu) @ ''  mem '' @ memory_mib mem @
           ''   refresh '' @ debug_millis (va_interval_ms a))])"

text \<open>The frame, for a body area of the given size.\<close>

definition draw :: "(instant \<Rightarrow> string) \<Rightarrow> instant \<Rightarrow> nat \<Rightarrow> nat \<Rightarrow> vt_app \<Rightarrow> line list" where
  "draw clock now body_width body_height a =
     [title_line clock a, summary_line a] @ shown (body_widget a now body_width body_height) body_height @
     [detail_line a now, help_line a]"

section \<open>Scrolling\<close>

text \<open>The scroll offset keeps the selected line in the window and the window within the body, as long as no
  more than 65535 lines lie outside it.\<close>

lemma scroll_top_window:
  assumes "pos < num" "0 < window" "num \<le> window + 65535"
  shows "unat (scroll_top num (Some pos) window) \<le> pos \<and> pos < unat (scroll_top num (Some pos) window) + window \<and>
    unat (scroll_top num (Some pos) window) \<le> num - window"
proof (cases "num \<le> window")
  case True
  then show ?thesis using assms by (simp add: scroll_top_def)
next
  case False
  let ?top = "max 0 (min (int num - int window) (int pos - int window div 2))"
  have range: "0 \<le> ?top" "?top < 65536" using False assms by auto
  then have "unat (of_int ?top :: u16) = nat ?top"
    by (simp add: unat_eq_nat_uint uint_word_of_int take_bit_eq_mod del: of_int_max of_int_min)
  moreover have "scroll_top num (Some pos) window = of_int ?top" using False assms by (simp add: scroll_top_def)
  ultimately have "unat (scroll_top num (Some pos) window) = nat ?top" by metis
  moreover have "nat ?top \<le> pos \<and> pos < nat ?top + window \<and> nat ?top \<le> num - window"
    using False assms by (auto simp: max_def min_def)
  ultimately show ?thesis by metis
qed

text \<open>Beyond that the offset wraps and the selected line is not shown.\<close>

lemma scroll_top_wraps: "unat (scroll_top 70000 (Some 69999) 10) + 10 < (69999 :: nat)"
  by (simp add: scroll_top_def)

section \<open>The selected row is on the screen\<close>

definition is_selected :: "view \<Rightarrow> row_id \<Rightarrow> bool" where
  "is_selected v row = (case row of
     RowGroup _ \<Rightarrow> False
   | RowVm i \<Rightarrow> (case selected_vm v of Some s \<Rightarrow> tv_vm_id s = tv_vm_id (vw_vms v ! i) | None \<Rightarrow> False))"

definition row_line :: "view \<Rightarrow> instant \<Rightarrow> nat \<Rightarrow> row_id \<Rightarrow> line" where
  "row_line v now width row = (case row of
     RowGroup gi \<Rightarrow> group_header (vw_groups v ! gi) width
   | RowVm i \<Rightarrow> vm_row (vw_vms v ! i) now (\<not> vw_grouped v) width (is_selected v row))"

lemma push_row_eq:
  "push_row v now width (lines, idx) row =
     (lines @ [row_line v now width row], if is_selected v row then Some (length lines) else idx)"
  by (simp add: push_row_def row_line_def is_selected_def Let_def split: row_id.split option.split)

lemma push_rows_lines: "fst (foldl (push_row v now width) (lines, idx) rows) = lines @ map (row_line v now width) rows"
  by (induction rows arbitrary: lines idx) (simp_all add: push_row_eq)

lemma push_rows_selected:
  assumes "\<exists>row \<in> set rows. is_selected v row"
  shows "\<exists>k < length rows. snd (foldl (push_row v now width) (lines, idx) rows) = Some (length lines + k) \<and> is_selected v (rows ! k)"
  using assms
proof (induction rows rule: rev_induct)
  case (snoc row rows)
  let ?acc = "foldl (push_row v now width) (lines, idx) rows"
  have len: "length (fst ?acc) = length lines + length rows" by (simp add: push_rows_lines)
  have step: "snd (push_row v now width ?acc row) = (if is_selected v row then Some (length (fst ?acc)) else snd ?acc)"
    by (cases ?acc) (simp add: push_row_eq)
  show ?case
  proof (cases "is_selected v row")
    case True
    then show ?thesis by (intro exI[of _ "length rows"]) (simp add: step len)
  next
    case False
    with snoc obtain k where "k < length rows" "snd ?acc = Some (length lines + k)" "is_selected v (rows ! k)" by auto
    then show ?thesis using False by (intro exI[of _ k]) (simp add: step nth_append)
  qed
qed simp

lemma selected_vm_row:
  assumes "rows_ok v" "selected_vm v = Some s"
  shows "\<exists>row \<in> set (vw_rows v). is_selected v row" "vw_vms v \<noteq> []"
proof -
  obtain r i where r: "r < length (vw_rows v)" "vw_rows v ! r = RowVm i" "s = vw_vms v ! i"
    using assms(2) by (auto simp: selected_vm_def bind_eq_Some_conv split: if_splits row_id.splits)
  then have "RowVm i \<in> set (vw_rows v)" by (metis nth_mem)
  then show "\<exists>row \<in> set (vw_rows v). is_selected v row"
    using assms(2) r(3) by (intro bexI[of _ "RowVm i"]) (auto simp: is_selected_def)
  have "i \<in> set (row_vms (vw_rows v))" using \<open>RowVm i \<in> _\<close> by (simp add: row_vms_set)
  then have "i < length (vw_vms v)" using assms(1) mset_eq_setD unfolding rows_ok_def by fastforce
  then show "vw_vms v \<noteq> []" by auto
qed

lemma row_index: "rows_ok v \<Longrightarrow> RowVm i \<in> set (vw_rows v) \<Longrightarrow> i < length (vw_vms v)"
  using mset_eq_setD[of "row_vms (vw_rows v)" "[0..<length (vw_vms v)]"]
  unfolding rows_ok_def row_vms_set[symmetric] by auto

lemma scroll_top_visible:
  assumes "pos < num" "0 < window" "num \<le> window + 65535"
  shows "\<exists>k < window. pos = unat (scroll_top num (Some pos) window) + k"
  using scroll_top_window[OF assms] by (intro exI[of _ "pos - unat (scroll_top num (Some pos) window)"]) auto

lemma nth_window: "j < h \<Longrightarrow> off + j < length xs \<Longrightarrow> xs ! (off + j) \<in> set (take h (drop off xs))"
  by (auto simp: in_set_conv_nth intro!: exI[of _ j])

text \<open>C40: Whatever has been typed and polled, if a VM is selected then its highlighted row is among the lines that
  are shown, however small the window.\<close>

theorem selected_row_shown:
  assumes "app_run lower polls turns (app_new url interval grouped order) = (polls', a)"
    and "selected_vm (va_view a) = Some s" "0 < height"
    and "length (fst (body_widget a now width height)) \<le> height + 65535"
  shows "\<exists>vm. tv_vm_id vm = tv_vm_id s \<and> vm \<in> set (vw_vms (va_view a)) \<and>
    vm_row vm now (\<not> vw_grouped (va_view a)) (max 1 width) True \<in> set (shown (body_widget a now width height) height)"
proof -
  let ?v = "va_view a" and ?w = "max 1 width"
  have ok: "rows_ok ?v" using app_run_ok[OF assms(1)] by (simp add: app_ok_def)
  note sel = selected_vm_row[OF ok assms(2)]
  obtain pre where body: "body_lines ?v now ?w (if va_mode a = ModeFiltering then va_filter a else vw_filter ?v) =
      foldl (push_row ?v now ?w) (pre, None) (vw_rows ?v)"
    using sel(2) by (auto simp: body_lines_def Let_def)
  obtain k where k: "k < length (vw_rows ?v)" "is_selected ?v (vw_rows ?v ! k)"
    "snd (foldl (push_row ?v now ?w) (pre, None) (vw_rows ?v)) = Some (length pre + k)"
    using push_rows_selected[OF sel(1)] by blast
  then obtain i where i: "vw_rows ?v ! k = RowVm i" "tv_vm_id (vw_vms ?v ! i) = tv_vm_id s"
    using assms(2) by (auto simp: is_selected_def split: row_id.splits)
  have "i < length (vw_vms ?v)" using row_index[OF ok, of i] k(1) i(1) by (metis nth_mem)
  let ?lines = "pre @ map (row_line ?v now ?w) (vw_rows ?v)" and ?pos = "length pre + k"
  have widget: "body_widget a now width height = (?lines, scroll_top (length ?lines) (Some ?pos) height)"
    unfolding body_widget_def Let_def body case_prod_unfold
    using k(3) assms(3) by (simp add: push_rows_lines)
  have line: "?lines ! ?pos = vm_row (vw_vms ?v ! i) now (\<not> vw_grouped ?v) ?w True"
    using k(1,2) i(1) by (simp add: row_line_def)
  obtain j where j: "j < height" "?pos = unat (scroll_top (length ?lines) (Some ?pos) height) + j"
    using scroll_top_visible[of ?pos "length ?lines" height] k(1) assms(3,4) widget by auto
  have "?lines ! ?pos \<in> set (take height (drop (unat (scroll_top (length ?lines) (Some ?pos) height)) ?lines))"
    using nth_window[OF j(1), of "unat (scroll_top (length ?lines) (Some ?pos) height)" ?lines] k(1) j(2) by simp
  then show ?thesis
    using i(2) \<open>i < _\<close> unfolding line widget shown_def by auto
qed

definition demo_screen :: vt_app where
  "demo_screen = snd (app_run id [(1, Inr [demo_vt_vm ''vm-b'' ''b''])] [] (app_new ''http://h/'' 1000 False SortName))"

lemma selected_row_shown_witness:
  "\<exists>vm. tv_vm_id vm = ''vm-b'' \<and> vm \<in> set (vw_vms (va_view demo_screen)) \<and>
     vm_row vm 5 (\<not> vw_grouped (va_view demo_screen)) (max 1 80) True \<in> set (shown (body_widget demo_screen 5 80 1) 1)"
proof -
  have run: "app_run id [(1, Inr [demo_vt_vm ''vm-b'' ''b''])] [] (app_new ''http://h/'' 1000 False SortName)
      = (fst (app_run id [(1, Inr [demo_vt_vm ''vm-b'' ''b''])] [] (app_new ''http://h/'' 1000 False SortName)), demo_screen)"
    by (simp add: demo_screen_def)
  have view: "vw_rows (va_view demo_screen) = [RowVm 0]" "vw_vms (va_view demo_screen) = [demo_vt_vm ''vm-b'' ''b'']"
    "selected_vm (va_view demo_screen) = Some (demo_vt_vm ''vm-b'' ''b'')"
    by (simp_all add: demo_screen_def app_run_def app_refresh_def app_new_def poll_all_def poll_once_def
        snapshot_fresh_def view_eval)
  have "length (fst (body_widget demo_screen 5 80 1)) \<le> 1 + 65535"
    by (simp add: body_widget_def body_lines_def view push_row_eq Let_def)
  from selected_row_shown[OF run view(3) _ this] show ?thesis
    by (simp add: demo_vt_vm_def)
qed

section \<open>The columns\<close>

lemma length_col [simp]: "length (col s n) = n"
  by (simp add: col_def cut_right_def Let_def)

lemma take_col: "take n (col (cut_right s n) (n + m)) = col s n"
  by (simp add: col_def cut_right_def Let_def)

lemma drop_blocks: "drop (sum_list (map length (take i bs))) (concat bs) = concat (drop i bs)"
proof (induction bs arbitrary: i)
  case (Cons b bs)
  then show ?case by (cases i) auto
qed simp

text \<open>The first character of a block of a line of blocks that are wider than what they hold by the gap.\<close>

definition column_start :: "bool \<Rightarrow> nat \<Rightarrow> nat" where
  "column_start flat i =
     C_STATE + (if flat then C_PROJ + C_PAD else 0) + sum_list (map (\<lambda>w. w + C_PAD) (take i FIELD_WIDTHS))"

lemma block_at:
  assumes "i < length zs" "length (zs :: ('a \<times> nat) list) = length ws" "map snd zs = ws" "\<And>z. z \<in> set zs \<Longrightarrow> length (f z) = snd z + C_PAD"
  shows "drop (sum_list (map (\<lambda>w. w + C_PAD) (take i ws))) (concat (map f zs)) = f (zs ! i) @ concat (map f (drop (Suc i) zs))"
proof -
  have "map (\<lambda>w. w + C_PAD) (take i ws) = map length (take i (map f zs))"
    unfolding assms(3)[symmetric] using assms(4) by (auto simp: take_map dest: in_set_takeD)
  then have "drop (sum_list (map (\<lambda>w. w + C_PAD) (take i ws))) (concat (map f zs)) = concat (drop i (map f zs))"
    using drop_blocks[of i "map f zs"] by simp
  also have "drop i (map f zs) = f (zs ! i) # map f (drop (Suc i) zs)"
    using assms(1) by (simp add: drop_map Cons_nth_drop_Suc[symmetric])
  finally show ?thesis by simp
qed

lemma push_fields_wide:
  "sum_list (map (\<lambda>(_, w). w + C_PAD) zs) \<le> budget + C_PAD \<Longrightarrow>
     push_fields budget zs = concat (map (\<lambda>(f, w). col (cut_right f w) (w + C_PAD)) zs)"
  by (induction budget zs rule: push_fields.induct) (auto simp: min_def)

lemma vm_fields_length: "length (vm_fields vm now) = 12" by (simp add: vm_fields_def Let_def)

lemma take_pad: "length s \<le> w \<Longrightarrow> take w (pad_right s (w + C_PAD) @ r) = pad_right s w"
  by (simp add: pad_right_def Suc_diff_le C_PAD_def replicate_append_same[symmetric])

lemma labels_fit: "list_all2 (\<lambda>l w. length l \<le> w) FIELD_LABELS FIELD_WIDTHS"
  by (simp add: FIELD_LABELS_def FIELD_WIDTHS_def C_ID_def C_NAME_def C_IMAGE_def)

lemmas widths = FIELD_WIDTHS_def C_ID_def C_NAME_def C_IMAGE_def C_PAD_def C_STATE_def C_PROJ_def

text \<open>On a screen that is wide enough every field stands under its heading when the VMs are grouped; in the
  flat table it stands seven characters to the right of it, since the project is painted twice.\<close>

theorem columns_aligned:
  assumes "i < 12" "column_start flat 12 \<le> width"
  shows "take (FIELD_WIDTHS ! i) (drop (column_start flat i) (line_text (heading_line flat width))) =
      pad_right (FIELD_LABELS ! i) (FIELD_WIDTHS ! i) \<and>
    take (FIELD_WIDTHS ! i) (drop (column_start flat i + (if flat then C_PROJ else 0)) (line_text (vm_row vm now flat width selected))) =
      col (vm_fields vm now ! i) (FIELD_WIDTHS ! i)"
proof
  let ?lead = "pad_right ''STATE'' C_STATE @ (if flat then pad_right ''PROJ'' (C_PROJ + C_PAD) else [])"
  let ?label = "\<lambda>(label, w). pad_right label (w + C_PAD)"
  let ?labels = "zip FIELD_LABELS FIELD_WIDTHS" and ?fields = "zip (vm_fields vm now) FIELD_WIDTHS"
  have lead: "length ?lead = C_STATE + (if flat then C_PROJ + C_PAD else 0)"
    by (simp add: pad_right_def widths)
  have len: "\<And>z. z \<in> set ?labels \<Longrightarrow> length (?label z) = snd z + C_PAD"
    by (auto simp: FIELD_LABELS_def widths pad_right_def)
  have fits: "length (?lead @ concat (map ?label ?labels)) \<le> width"
    using assms(2) by (auto simp: column_start_def FIELD_LABELS_def widths pad_right_def split: if_splits)
  have heading: "line_text (heading_line flat width) = ?lead @ concat (map ?label ?labels)"
    using fits by (simp add: heading_line_def line_text_def clip_def cut_right_def Let_def)
  have "drop (column_start flat i) (line_text (heading_line flat width)) =
      ?label (?labels ! i) @ concat (map ?label (drop (Suc i) ?labels))"
    unfolding heading column_start_def lead[symmetric]
    using block_at[of i ?labels FIELD_WIDTHS ?label] len assms(1) by (simp add: FIELD_LABELS_def widths)
  then show "take (FIELD_WIDTHS ! i) (drop (column_start flat i) (line_text (heading_line flat width))) =
      pad_right (FIELD_LABELS ! i) (FIELD_WIDTHS ! i)"
    using assms(1) list_all2_nthD[OF labels_fit, of i] list_all2_lengthD[OF labels_fit]
    by (simp del: take_append add: take_pad FIELD_LABELS_def[THEN arg_cong, of length])
  let ?field = "\<lambda>(f, w). col (cut_right f w) (w + C_PAD)"
  let ?lead = "col (vt_state_text (tv_state vm)) C_STATE @
    (if flat then col (dec (tc_project_id (tv_config vm))) C_PROJ @ col (dec (tc_project_id (tv_config vm))) C_PROJ @ '' '' else [])"
  have lead: "length ?lead = C_STATE + (if flat then C_PROJ + C_PAD else 0) + (if flat then C_PROJ else 0)"
    by (simp add: C_PAD_def)
  have snds: "map snd ?fields = FIELD_WIDTHS" by (simp add: vm_fields_length widths)
  have "sum_list (map (\<lambda>(_, w). w + C_PAD) ?fields) = sum_list (map (\<lambda>w. w + C_PAD) (map snd ?fields))"
    by (simp add: case_prod_unfold comp_def)
  also have "\<dots> = 153" unfolding snds by (simp add: widths)
  finally have "push_fields (width - (C_STATE + C_PAD + (if flat then C_PROJ + C_PAD else 0))) ?fields = concat (map ?field ?fields)"
    using assms(2) by (intro push_fields_wide) (auto simp: column_start_def widths)
  then have row: "line_text (vm_row vm now flat width selected) = ?lead @ concat (map ?field ?fields)"
    by (simp add: vm_row_def line_text_def Let_def)
  have "drop (column_start flat i + (if flat then C_PROJ else 0)) (line_text (vm_row vm now flat width selected)) =
      drop (sum_list (map (\<lambda>w. w + C_PAD) (take i FIELD_WIDTHS))) (concat (map ?field ?fields))"
    using lead unfolding row column_start_def by simp
  also have "\<dots> = ?field (?fields ! i) @ concat (map ?field (drop (Suc i) ?fields))"
    using assms(1) snds by (intro block_at) (auto simp: vm_fields_length widths)
  finally show "take (FIELD_WIDTHS ! i) (drop (column_start flat i + (if flat then C_PROJ else 0)) (line_text (vm_row vm now flat width selected))) =
      col (vm_fields vm now ! i) (FIELD_WIDTHS ! i)"
    using assms(1) by (simp add: vm_fields_length FIELD_WIDTHS_def[THEN arg_cong, of length] take_col)
qed

lemma columns_aligned_witness:
  "take 20 (drop 37 (line_text (heading_line False 170))) = pad_right ''NAME'' 20 \<and>
   take 20 (drop 37 (line_text (vm_row (demo_vt_vm ''vm-b'' ''b'') 0 False 170 False))) = col ''b'' 20"
  using columns_aligned[of 1 False 170 "demo_vt_vm ''vm-b'' ''b''" 0 False]
  by (simp add: column_start_def widths FIELD_LABELS_def vm_fields_def Let_def demo_vt_vm_def cut_right_def)

section \<open>Labels are close\<close>

text \<open>The printed tenth is within half a tenth of the quotient, and durations never lose more than the unit they
  leave out.\<close>

lemma tenths_nearest: "\<bar>1024 * int (tenths mib) - 10 * int mib\<bar> \<le> 512"
proof -
  have "10 * mib = 1024 * (10 * mib div 1024) + 10 * mib mod 1024" by (rule mult_div_mod_eq[symmetric])
  moreover have "10 * mib mod 1024 < 1024" by simp
  ultimately show ?thesis unfolding tenths_def Let_def by (auto split: if_splits)
qed

end
