(* ===== verification/Channel.thy ===== *)
theory Channel
  imports GuestdSys Json
begin

text \<open>
  The control channel between hostd and guestd, both ends: what each side writes as lines of JSON
  (\<open>vsock.rs\<close>, \<open>proto.rs\<close>), hostd's connection task (\<open>run_guest_conn\<close> of \<open>guest.rs\<close>), and guestd's listener
  and connection threads (\<open>vsock.rs\<close>, \<open>main.rs\<close>, \<open>connection.rs\<close>).  Reading JSON is serde's and a
  parameter; a map is printed in the order of its list.
\<close>

section \<open>The texts\<close>

fun request_json :: "guest_request \<Rightarrow> json" where
  "request_json (ReqStart wid cmd env cwd) = JObj
     [(''type'', JStr ''start''), (''workload_id'', JStr wid), (''cmd'', JArr (map JStr cmd)),
      (''env'', JObj (map (\<lambda>(k, x). (k, JStr x)) env)), (''cwd'', json_opt JStr cwd)]"
| "request_json (ReqStop wid) = JObj [(''type'', JStr ''stop''), (''workload_id'', JStr wid)]"
| "request_json ReqList = JObj [(''type'', JStr ''list'')]"
| "request_json (ReqConfigureAutoSuspend cmd secs) = JObj
     [(''type'', JStr ''configure_auto_suspend''), (''idle_check_cmd'', JArr (map JStr cmd)),
      (''check_interval_secs'', JNum (int secs))]"

definition info_json :: "gd_info \<Rightarrow> json" where
  "info_json i = JObj
     [(''workload_id'', JStr (gi_workload_id i)),
      (''state'', JStr (case gi_state i of GdRunning \<Rightarrow> ''running'' | GdExited \<Rightarrow> ''exited'')),
      (''exit_code'', json_opt JNum (gi_exit_code i)), (''signal'', json_opt JNum (gi_signal i))]"

fun event_json :: "gd_event \<Rightarrow> json" where
  "event_json (GdStartedEv wid pid) = JObj
     [(''type'', JStr ''started''), (''workload_id'', JStr wid), (''pid'', JNum (uint pid))]"
| "event_json (GdOutputEv wid st data) = JObj
     [(''type'', JStr ''output''), (''workload_id'', JStr wid), (''stream'', JStr (stream_name st)), (''data'', JStr data)]"
| "event_json (GdExitedEv wid code sig) = JObj
     [(''type'', JStr ''exited''), (''workload_id'', JStr wid), (''exit_code'', json_opt JNum code),
      (''signal'', json_opt JNum sig)]"
| "event_json (GdErrorEv wid m) = JObj
     [(''type'', JStr ''error''), (''workload_id'', json_opt JStr wid), (''message'', JStr m)]"
| "event_json (GdListEv infos) = JObj [(''type'', JStr ''list_result''), (''workloads'', JArr (map info_json infos))]"
| "event_json GdIdleEv = JObj [(''type'', JStr ''idle'')]"

definition line_of :: "json \<Rightarrow> string" where
  "line_of j = json_text j @ [CHR 0x0A]"

text \<open>hostd's request as guestd's enum has it.\<close>

fun guest_side :: "guest_request \<Rightarrow> gd_request" where
  "guest_side (ReqStart wid cmd env cwd) = GdStart wid cmd env cwd"
| "guest_side (ReqStop wid) = GdStop wid"
| "guest_side ReqList = GdList"
| "guest_side (ReqConfigureAutoSuspend cmd secs) = GdConfigureAutoSuspend cmd secs"

section \<open>hostd's end\<close>

text \<open>What the task of a connection is woken by: a line at a time, the end or a failure of the reads, a
  request together with whether it could be written, or that all senders are gone.\<close>

datatype conn_input =
    LineIn instant string
  | ReadsEnd
  | ReadFails
  | RequestIn guest_request bool
  | SendersGone

text \<open>The VMM, what was written, the effects of the events, and whether the task has ended.\<close>

fun run_guest_conn ::
  "(string \<Rightarrow> string + guest_event) \<Rightarrow> vm_id \<Rightarrow> string \<Rightarrow> conn_handle \<Rightarrow> conn_input list \<Rightarrow> 'h vmm \<Rightarrow> string \<Rightarrow>
   guest_effect list \<Rightarrow> 'h vmm \<times> string \<times> guest_effect list \<times> bool" where
  "run_guest_conn parse vm_id dir h [] v out effs = (v, out, effs, False)"
| "run_guest_conn parse vm_id dir h (LineIn now line # is) v out effs =
     (case parse line of
        Inr event \<Rightarrow>
          (case handle_guest_event now vm_id dir event v of
             (v', effs') \<Rightarrow> run_guest_conn parse vm_id dir h is v' out (effs @ effs'))
      | Inl _ \<Rightarrow> run_guest_conn parse vm_id dir h is v out effs)"
| "run_guest_conn parse vm_id dir h (ReadsEnd # is) v out effs = (conn_closed vm_id h v, out, effs, True)"
| "run_guest_conn parse vm_id dir h (ReadFails # is) v out effs = (conn_closed vm_id h v, out, effs, True)"
| "run_guest_conn parse vm_id dir h (RequestIn req written # is) v out effs =
     (if written then run_guest_conn parse vm_id dir h is v (out @ line_of (request_json req)) effs
      else (conn_closed vm_id h v, out, effs, True))"
| "run_guest_conn parse vm_id dir h (SendersGone # is) v out effs = (conn_closed vm_id h v, out, effs, True)"

section \<open>guestd's end\<close>

definition LISTEN_BACKLOG :: nat where
  "LISTEN_BACKLOG = 4"

datatype socket_call = SockOpen | SockBind nat | SockListen nat | SockClose

text \<open>\<open>VsockListener::bind\<close>: the calls made and the result; the socket closes when it is dropped.\<close>

definition vsock_bind :: "(socket_call \<Rightarrow> bool) \<Rightarrow> nat \<Rightarrow> socket_call list \<times> bool" where
  "vsock_bind works port =
     (if \<not> works SockOpen then ([SockOpen], False)
      else if \<not> works (SockBind port) then ([SockOpen, SockBind port, SockClose], False)
      else if \<not> works (SockListen LISTEN_BACKLOG)
      then ([SockOpen, SockBind port, SockListen LISTEN_BACKLOG, SockClose], False)
      else ([SockOpen, SockBind port, SockListen LISTEN_BACKLOG], True))"

datatype accepted = AcceptFd nat | AcceptInterrupted | AcceptFailed string

definition vsock_accept :: "(nat \<Rightarrow> accepted) \<Rightarrow> (nat \<times> (string + nat)) option" where
  "vsock_accept accept = poll_loop (\<lambda>k. case accept k of
       AcceptFd fd \<Rightarrow> Some (Inr fd)
     | AcceptFailed e \<Rightarrow> Some (Inl e)
     | AcceptInterrupted \<Rightarrow> None) 0"

text \<open>One turn of guestd's main loop: \<open>None\<close> is the exit of the process; otherwise the connection to serve, if
  its descriptor could be cloned.\<close>

definition main_turn :: "string + nat \<Rightarrow> bool \<Rightarrow> gd_agent \<Rightarrow> (gd_agent \<times> nat option) option" where
  "main_turn accept cloned a =
     (case accept of
        Inl _ \<Rightarrow> None
      | Inr conn \<Rightarrow> if cloned then Some (set_conn conn a, Some conn) else Some (a, None))"

text \<open>The requests that a connection dispatches, in order; a line that does not parse is skipped.\<close>

fun served :: "(string \<Rightarrow> string + gd_request) \<Rightarrow> (string + string) list \<Rightarrow> gd_request list" where
  "served parse [] = []"
| "served parse (Inl e # ls) = []"
| "served parse (Inr line # ls) =
     (case parse line of Inr req \<Rightarrow> req # served parse ls | Inl _ \<Rightarrow> served parse ls)"

section \<open>Lines\<close>

lemma json_string_printable: "c \<in> set (json_string s) \<Longrightarrow> 32 \<le> (of_char c :: nat)"
  using json_char_printable by (auto simp: json_string_def)

lemma digit_printable: "is_digit c \<Longrightarrow> 32 \<le> (of_char c :: nat)"
  by (auto simp: is_digit_def)

lemma json_text_printable: "c \<in> set (json_text v) \<Longrightarrow> 32 \<le> (of_char c :: nat)"
proof (induction v)
  case (JNum n)
  then show ?case using dec_digits digit_printable by (auto simp: show_json_int_def split: if_splits)
next
  case (JArr vs)
  then show ?case using join_with_set[of "'',''" "map json_text vs"] by auto
next
  case (JObj kvs)
  let ?f = "\<lambda>(k, v). json_string k @ '':'' @ json_text v"
  have "32 \<le> (of_char c :: nat)" if "kv \<in> set kvs" "c \<in> set (?f kv)" for kv
    using JObj(1)[OF that(1)] that(2) json_string_printable by (cases kv) auto
  moreover have "c \<in> set (join_with '','' (map ?f kvs)) \<or> c \<in> set ''{}''" using JObj(2) by auto
  ultimately show ?case using join_with_set[of "'',''" "map ?f kvs"] by auto
qed (use json_string_printable in \<open>auto split: if_splits\<close>)

lemma lines_of_lines:
  assumes "\<And>l c. l \<in> set ls \<Longrightarrow> c \<in> set l \<Longrightarrow> 32 \<le> (of_char c :: nat)"
  shows "str_lines (concat (map (\<lambda>l. l @ [CHR 0x0A]) ls)) = ls"
proof -
  have nl: "char_of (10 :: nat) = CHR 0x0A" by code_simp
  have "CHR 0x0A \<notin> set l" if "l \<in> set ls" for l using assms[OF that] by fastforce
  then have "split_char (CHR 0x0A) (concat (map (\<lambda>l. l @ [CHR 0x0A]) ls)) = ls @ [[]]"
    by (induction ls) (simp_all add: split_char_append)
  moreover have "strip_cr l = l" if "l \<in> set ls" for l
    using assms[OF that, of "last l"] last_in_set by (cases "l = []") fastforce+
  ultimately show ?thesis by (simp add: str_lines_def nl map_idI)
qed

lemma printed_lines: "str_lines (concat (map (line_of \<circ> f) xs)) = map (json_text \<circ> f) xs"
proof -
  have "concat (map (line_of \<circ> f) xs) = concat (map (\<lambda>l. l @ [CHR 0x0A]) (map (json_text \<circ> f) xs))"
    by (simp add: line_of_def comp_def)
  then show ?thesis using lines_of_lines[of "map (json_text \<circ> f) xs"] json_text_printable by fastforce
qed

section \<open>What one end writes the other end reads\<close>

text \<open>The requests a connection task wrote before it ended.\<close>

fun sent :: "conn_input list \<Rightarrow> guest_request list" where
  "sent [] = []"
| "sent (LineIn now line # is) = sent is"
| "sent (RequestIn req written # is) = (if written then req # sent is else [])"
| "sent (_ # is) = []"

lemma conn_output:
  "fst (snd (run_guest_conn parse vm_id dir h is v out effs)) = out @ concat (map (line_of \<circ> request_json) (sent is))"
  by (induction parse vm_id dir h "is" v out effs rule: run_guest_conn.induct) (auto split: sum.split prod.split)

lemma served_parsed:
  assumes "\<forall>x \<in> set xs. parse (f x) = Inr (g x)"
  shows "served parse (map Inr (map f xs)) = map g xs"
  using assms by (induction xs) auto

lemma events_handled:
  assumes "\<forall>ev \<in> set evs. parse (json_text (event_json (snd ev))) = Inr (host_event (snd ev))"
  shows "fst (run_guest_conn parse vm_id dir h (map (\<lambda>ev. LineIn (fst ev) (json_text (event_json (snd ev)))) evs) v out effs) =
    deliver vm_id dir evs v"
  using assms
proof (induction evs arbitrary: v effs)
  case (Cons ev evs)
  then show ?case by (cases ev) (auto simp: deliver_def split: prod.split)
qed (simp add: deliver_def)

text \<open>C26: The channel loses, splits and reorders nothing, whatever the texts contain: guestd serves exactly the
  requests hostd's task wrote, and hostd handles exactly the events guestd wrote, in their order, as
  long as each side's JSON reader inverts the other side's printer on these messages.\<close>

theorem channel_faithful:
  assumes "\<forall>req \<in> set (sent inputs). guest_parse (json_text (request_json req)) = Inr (guest_side req)"
    and "\<forall>ev \<in> set evs. host_parse (json_text (event_json (snd ev))) = Inr (host_event (snd ev))"
  shows "served guest_parse (map Inr (str_lines (fst (snd (run_guest_conn parse vm_id dir h inputs v [] effs))))) =
      map guest_side (sent inputs) \<and>
    fst (run_guest_conn host_parse vm_id dir h
      (map (\<lambda>(now, line). LineIn now line) (zip (map fst evs) (str_lines (concat (map (line_of \<circ> event_json) (map snd evs)))))) v out effs) =
      deliver vm_id dir evs v"
proof
  show "served guest_parse (map Inr (str_lines (fst (snd (run_guest_conn parse vm_id dir h inputs v [] effs))))) =
      map guest_side (sent inputs)"
    using served_parsed[of "sent inputs" guest_parse "json_text \<circ> request_json" guest_side] assms(1)
    by (simp add: conn_output printed_lines)
  have "map (\<lambda>(now, line). LineIn now line) (zip (map fst evs) (map (json_text \<circ> event_json) (map snd evs))) =
      map (\<lambda>ev. LineIn (fst ev) (json_text (event_json (snd ev)))) evs"
    by (induction evs) auto
  then show "fst (run_guest_conn host_parse vm_id dir h
      (map (\<lambda>(now, line). LineIn now line) (zip (map fst evs) (str_lines (concat (map (line_of \<circ> event_json) (map snd evs)))))) v out effs) =
      deliver vm_id dir evs v"
    unfolding printed_lines using events_handled[OF assms(2)] by simp
qed

lemma channel_faithful_witness:
  "served (\<lambda>l. if l = json_text (request_json (ReqStop [CHR 0x0A])) then Inr (GdStop [CHR 0x0A]) else Inl ''unknown'')
     (map Inr (str_lines (fst (snd (run_guest_conn (\<lambda>_. Inl '''') ''vm-1'' ''w'' 1
       [RequestIn (ReqStop [CHR 0x0A]) True, ReadsEnd, RequestIn ReqList True] demo_running [] [])))))
     = [GdStop [CHR 0x0A]]"
  using channel_faithful[of "[RequestIn (ReqStop [CHR 0x0A]) True, ReadsEnd, RequestIn ReqList True]"
      "\<lambda>l. if l = json_text (request_json (ReqStop [CHR 0x0A])) then Inr (GdStop [CHR 0x0A]) else Inl ''unknown''"
      "[]" "\<lambda>_. Inl ''''" "\<lambda>_. Inl ''''" "''vm-1''" "''w''" 1 demo_running "[]" "[]"]
  by simp

text \<open>A connection that ends takes its handle back, and only its own.\<close>

lemma conn_closed_own:
  assumes "map_of (fm_vms (conn_closed vm_id h v)) vm_id = Some e"
  shows "fe_guest_conn e \<noteq> Some h"
proof -
  obtain e0 where "e = (if fe_guest_conn e0 = Some h then e0\<lparr>fe_guest_conn := None\<rparr> else e0)"
    using assms by (auto simp: conn_closed_def set_entry_def map_simps split: option.splits)
  then show ?thesis by simp
qed

lemma ended_task_clears_own:
  assumes "run_guest_conn parse vm_id dir h is v out effs = (v', out', effs', True)"
    and "map_of (fm_vms v') vm_id = Some e"
  shows "fe_guest_conn e \<noteq> Some h"
  using assms
  by (induction parse vm_id dir h "is" v out effs rule: run_guest_conn.induct)
    (auto dest: conn_closed_own split: sum.splits prod.splits if_splits)

section \<open>The listener\<close>

text \<open>An accept that is interrupted is repeated; the first other answer is the result.\<close>

lemma vsock_accept_first:
  assumes "\<forall>j < k. accept j = AcceptInterrupted" "accept k \<noteq> AcceptInterrupted"
  shows "vsock_accept accept = Some (k, case accept k of AcceptFd fd \<Rightarrow> Inr fd | AcceptFailed e \<Rightarrow> Inl e)"
  unfolding vsock_accept_def using assms
  by (cases "accept k") (auto intro!: poll_loop_first[where k = 0, simplified])

text \<open>A socket that was opened is closed exactly when the binding fails.\<close>

lemma vsock_bind_closes:
  "vsock_bind works port = (calls, ok) \<Longrightarrow> works SockOpen \<Longrightarrow> SockClose \<in> set calls \<longleftrightarrow> \<not> ok"
  by (auto simp: vsock_bind_def split: if_splits)

end
