(* ===== verification/FcProcess.thy ===== *)
theory FcProcess
  imports Setup Lifecycle
begin

text \<open>
  The Firecracker process of a VM: \<open>spawn_fc_process\<close> of \<open>setup.rs\<close>, the set-up in \<open>create_vm\<close> and the part of
  \<open>restore_vm\<close> between its two transitions (\<open>vmm.rs\<close>).  The child is spawned with \<open>kill_on_drop\<close>, so it is
  killed where a path drops it.
\<close>

section \<open>Spawning\<close>

datatype proc_call =
    RemoveFile string
  | CreateFile string
  | Spawned child string "string list"
  | Killed child
  | Called setup_call

text \<open>What the outside answers: creating the log, the spawn, whether the socket is there at the \<open>k\<close>-th look,
  and the clock then.\<close>

record spawn_env =
  se_create_log :: "unit result"
  se_spawn :: "string + child"
  se_exists :: "nat \<Rightarrow> bool"
  se_clock :: "nat \<Rightarrow> instant"
  se_began :: instant

definition fc_args :: "vm_instance \<Rightarrow> string list" where
  "fc_args i = [''--api-sock'', vi_socket_path i, ''--no-seccomp'', ''--enable-pci'', ''--id'', vi_vm_id i]"

definition socket_wait :: "spawn_env \<Rightarrow> string \<Rightarrow> (nat \<times> unit result) option" where
  "socket_wait env socket = poll_loop (\<lambda>k.
     if se_exists env k then Some (Inr ())
     else if se_began env + 5000 < se_clock env k
     then Some (Inl (error.Vmm (''Firecracker API socket '' @ socket @ '' did not appear within 5s'')))
     else None) 0"

definition spawn_fc_process :: "spawn_env \<Rightarrow> string \<Rightarrow> vm_instance \<Rightarrow> (proc_call list \<times> child result) option" where
  "spawn_fc_process env fc_bin i =
     (let calls = [RemoveFile (vi_socket_path i), RemoveFile (vi_vsock_uds_path i), CreateFile (vi_error_log i)]
      in case se_create_log env of
           Inl e \<Rightarrow> Some (calls, Inl e)
         | Inr _ \<Rightarrow>
             (case se_spawn env of
                Inl e \<Rightarrow> Some (calls, Inl (error.Vmm (''spawn firecracker: '' @ e)))
              | Inr child \<Rightarrow>
                  let calls = calls @ [Spawned child fc_bin (fc_args i)]
                  in (case socket_wait env (vi_socket_path i) of
                        None \<Rightarrow> None
                      | Some (_, Inr _) \<Rightarrow> Some (calls, Inr child)
                      | Some (_, Inl e) \<Rightarrow> Some (calls @ [Killed child], Inl e))))"

text \<open>In \<open>create_vm\<close>: spawn, then configure.\<close>

definition create_process ::
  "spawn_env \<Rightarrow> answers \<Rightarrow> string \<Rightarrow> vm_instance \<Rightarrow> (proc_call list \<times> child result) option" where
  "create_process env ans fc_bin i =
     (case spawn_fc_process env fc_bin i of
        None \<Rightarrow> None
      | Some (calls, Inl e) \<Rightarrow> Some (calls, Inl e)
      | Some (calls, Inr child) \<Rightarrow>
          (case configure_vm ans i [] of
             (made, Inr _) \<Rightarrow> Some (calls @ map Called made, Inr child)
           | (made, Inl e) \<Rightarrow> Some (calls @ map Called made @ [Killed child], Inl e)))"

section \<open>Restoring\<close>

text \<open>What the load of the snapshot and the polls of the state answer.\<close>

record restore_env = spawn_env +
  re_load :: "unit result"
  re_state :: "nat \<Rightarrow> string result"
  re_clock :: "nat \<Rightarrow> instant"
  re_began :: instant

definition snapshot_load :: "vm_snapshot \<Rightarrow> setup_call" where
  "snapshot_load snap = ApiPut ''/snapshot/load'' (JObj
     [(''enable_diff_snapshots'', JBool False), (''mem_file_path'', JStr (sn_mem_path snap)),
      (''resume_vm'', JBool True), (''snapshot_path'', JStr (sn_state_path snap))])"

definition restore_process ::
  "restore_env \<Rightarrow> string \<Rightarrow> vm_instance \<Rightarrow> vm_snapshot \<Rightarrow> (proc_call list \<times> child result) option" where
  "restore_process env fc_bin i snap =
     (case spawn_fc_process (spawn_env.truncate env) fc_bin i of
        None \<Rightarrow> None
      | Some (calls, Inl e) \<Rightarrow> Some (calls, Inl e)
      | Some (calls, Inr child) \<Rightarrow>
          let calls = calls @ [Called (snapshot_load snap)]
          in (case re_load env of
                Inl e \<Rightarrow> Some (calls @ [Killed child], Inl e)
              | Inr _ \<Rightarrow>
                  (case wait_until_running (re_state env) (re_clock env) (re_began env) 5 of
                     None \<Rightarrow> None
                   | Some (_, Inl e) \<Rightarrow> Some (calls @ [Killed child], Inl e)
                   | Some (_, Inr _) \<Rightarrow> Some (calls, Inr child))))"

text \<open>\<open>restore_vm\<close> as a whole, when \<open>meanwhile\<close> is what the other tasks do to the VMM between its two
  transitions.  A VM that is gone then drops the child.\<close>

definition restore_vm ::
  "restore_env \<Rightarrow> string \<Rightarrow> ('h vmm \<Rightarrow> 'h vmm) \<Rightarrow> instant \<Rightarrow> vm_id \<Rightarrow> 'h vmm \<Rightarrow> (proc_call list \<times> 'h vmm \<times> unit result) option" where
  "restore_vm env fc_bin meanwhile now vm_id v =
     (case restore_enter vm_id v of
        (v1, Inl e) \<Rightarrow> Some ([], v1, Inl e)
      | (v1, Inr j) \<Rightarrow>
          (case (inst v1 (jb_ref j), jb_snapshot j) of
             (Some i, Some snap) \<Rightarrow>
               (case restore_process env fc_bin i snap of
                  None \<Rightarrow> None
                | Some (calls, outcome) \<Rightarrow>
                    let v2 = meanwhile v1;
                        dropped = (case outcome of
                          Inr child \<Rightarrow> if map_of (fm_vms v2) vm_id = None then [Killed child] else []
                        | Inl _ \<Rightarrow> []);
                        (v3, r) = restore_finish now outcome j v2
                    in Some (calls @ dropped, v3, r))
           | _ \<Rightarrow> None))"

section \<open>No process is left behind\<close>

text \<open>The processes that run after these calls.\<close>

definition proc_step :: "child list \<Rightarrow> proc_call \<Rightarrow> child list" where
  "proc_step ps c = (case c of Spawned p _ _ \<Rightarrow> ps @ [p] | Killed p \<Rightarrow> remove1 p ps | _ \<Rightarrow> ps)"

definition running :: "proc_call list \<Rightarrow> child list" where
  "running calls = foldl proc_step [] calls"

definition kept :: "child result \<Rightarrow> child list" where
  "kept r = (case r of Inr child \<Rightarrow> [child] | Inl _ \<Rightarrow> [])"

lemma running_snoc [simp]: "running (calls @ [c]) = proc_step (running calls) c"
  by (simp add: running_def)

lemma running_called [simp]: "running (calls @ map Called made) = running calls"
  by (induction made rule: rev_induct) (simp_all add: append_assoc[symmetric] proc_step_def del: append_assoc)

lemma spawn_kept: "spawn_fc_process env fc_bin i = Some (calls, r) \<Longrightarrow> running calls = kept r"
  by (auto simp: spawn_fc_process_def running_def proc_step_def kept_def Let_def split: sum.splits option.splits)

lemma process_kept:
  "create_process env ans fc_bin i = Some (calls, r) \<Longrightarrow> running calls = kept r"
  "restore_process renv fc_bin i snap = Some (calls, r) \<Longrightarrow> running calls = kept r"
  by (auto simp: create_process_def restore_process_def Let_def append_assoc[symmetric] proc_step_def kept_def
      simp del: append_assoc dest!: spawn_kept split: option.splits sum.splits prod.splits)

text \<open>The restore of a suspended VM, unfolded.\<close>

lemma restore_enter_suspended:
  assumes "map_of (fm_vms v) vm_id = Some e" "inst v (fe_instance e) = Some i" "vi_state i = Suspended"
    "vi_snapshot i = Some snap"
  shows "restore_enter vm_id v = (set_inst (fe_instance e) (\<lambda>i. i\<lparr>vi_state := Restoring\<rparr>) v,
    Inr \<lparr>jb_vm = vm_id, jb_ref = fe_instance e, jb_op = OpRestore, jb_snapshot = Some snap, jb_stopped = False\<rparr>)"
proof -
  have "can_transition_to Suspended Restoring" using op_begin_from[of Suspended OpRestore] by simp
  then show ?thesis
    using assms by (simp add: restore_enter_def entry_parts_def inst_transition_ok)
qed


text \<open>With the documented pauses of 50 ms the wait for the socket ends after at most 101 looks.\<close>

lemma spawn_returns:
  assumes "\<And>k. se_began env + 50 * k \<le> se_clock env k"
  shows "\<exists>calls r. spawn_fc_process env fc_bin i = Some (calls, r)"
proof -
  let ?probe = "\<lambda>k. if se_exists env k then Some (Inr ())
     else if se_began env + 5000 < se_clock env k
     then Some (Inl (error.Vmm (''Firecracker API socket '' @ vi_socket_path i @ '' did not appear within 5s'')))
     else None"
  have "?probe 101 \<noteq> None" using assms[of 101] by simp
  then obtain k w where "poll_loop ?probe 0 = Some (k, w)" by (rule poll_loop_decides)
  then show ?thesis
    by (auto simp: spawn_fc_process_def socket_wait_def Let_def split: sum.splits)
qed

text \<open>A suspended VM, and an outside that answers; in between another task destroys the VM.\<close>

definition demo_restore_env :: restore_env where
  "demo_restore_env = \<lparr>se_create_log = Inr (), se_spawn = Inr 9, se_exists = (\<lambda>_. True), se_clock = (\<lambda>k. 50 * k),
     se_began = 0, re_load = Inr (), re_state = (\<lambda>_. Inr ''Running''), re_clock = (\<lambda>k. 50 * k), re_began = 0\<rparr>"

definition demo_suspended :: "unit vmm" where
  "demo_suspended = demo_vmm\<lparr>fm_heap := [(0, demo_seed_inst\<lparr>vi_state := Suspended,
       vi_snapshot := Some (vm_snapshot_new 0 ''vm-1'' ''w'')\<rparr>)],
     fm_vms := [(''vm-1'', fc_entry_new 0 demo_seed_inst)]\<rparr>"


end
