(* ===== verification/Hostd.thy ===== *)
theory Hostd
  imports Api FcProcess
begin

text \<open>
  hostd's start: \<open>main.rs\<close>, the constructors it calls (\<open>FirecrackerVmm::new\<close>, \<open>StorageManager::new\<close>), the
  start-up clean-up of \<open>storage/manager.rs\<close>, and the worker's \<open>run\<close> of \<open>storage/ublk_worker.rs\<close> up to the
  serving of its device.  The command line is parsed by clap; ublk is libublk's.
\<close>

section \<open>The storage side\<close>

text \<open>\<open>mkfs_ext4\<close>: \<open>None\<close> is the timeout, otherwise the spawn's error or the exit status, as success and text.\<close>

definition mkfs_args :: "string \<Rightarrow> string list" where
  "mkfs_args dev = [''-F'', ''-q'', ''-m'', ''0'', ''-L'', ''tikovm-data'', dev]"

definition mkfs_ext4 :: "(string list \<Rightarrow> (string + bool \<times> string) option) \<Rightarrow> string \<Rightarrow> unit result" where
  "mkfs_ext4 run dev =
     (case run (mkfs_args dev) of
        None \<Rightarrow> Inl (Storage (''mkfs.ext4 '' @ dev @ '' timed out''))
      | Some (Inl e) \<Rightarrow> Inl (Storage (''spawn mkfs.ext4: '' @ e))
      | Some (Inr (success, status)) \<Rightarrow>
          if success then Inr () else Inl (Storage (''mkfs.ext4 '' @ dev @ '' failed: '' @ status)))"

text \<open>\<open>worker::stop\<close>: whether the device was asked to go, and whether the child was killed.\<close>

definition worker_stop :: "unit result \<Rightarrow> bool result \<Rightarrow> unit result \<Rightarrow> bool \<times> unit result" where
  "worker_stop join_del try_wait kill =
     (case join_del of
        Inl e \<Rightarrow> (False, Inl e)
      | Inr _ \<Rightarrow>
          (case try_wait of
             Inl e \<Rightarrow> (False, Inl e)
           | Inr exited \<Rightarrow> if exited then (False, Inr ()) else (True, kill)))"

text \<open>The clean-up at the start: the devices that are deleted, out of all there are; and the volume
  directories that are only reported.\<close>

definition storage_reconcile :: "(nat \<Rightarrow> string + unit) \<Rightarrow> nat list \<Rightarrow> string list option \<Rightarrow> nat list \<times> string list" where
  "storage_reconcile open_dev devices entries =
     (filter (\<lambda>d. case open_dev d of Inr _ \<Rightarrow> True | Inl _ \<Rightarrow> False) devices,
      (case entries of None \<Rightarrow> [] | Some names \<Rightarrow> filter (starts_with ''proj-'') names))"

section \<open>The worker\<close>

record worker_args =
  wa_dir :: string
  wa_size_mb :: "nat option"
  wa_chunk_kb :: "nat option"
  wa_recover :: bool
  wa_dev_id :: int
  wa_queues :: nat
  wa_depth :: nat

definition IO_BUF_BYTES :: nat where
  "IO_BUF_BYTES = 512 * 1024"

record ublk_request =
  ub_name :: string
  ub_id :: int
  ub_queues :: nat
  ub_depth :: nat
  ub_io_buf_bytes :: nat
  ub_recover :: bool
  ub_user_recovery :: bool

text \<open>What the worker prints, and the volume it then serves.\<close>

definition worker_run ::
  "(bytes \<Rightarrow> string + volume_meta) \<Rightarrow> (volume_meta \<Rightarrow> string + bytes) \<Rightarrow> nat \<Rightarrow> (ublk_request \<Rightarrow> string + int) \<Rightarrow>
   worker_args \<Rightarrow> store \<Rightarrow> store \<times> (string \<times> volume) result" where
  "worker_run from_json to_json ppid build args s =
     (if ppid = 1 then (s, Inl (Storage ''ublk-worker: parent hostd already gone''))
      else case worker_volume from_json to_json (wa_recover args) (wa_dir args) (wa_size_mb args) (wa_chunk_kb args) s of
        (s', Inl e) \<Rightarrow> (s', Inl e)
      | (s', Inr vol) \<Rightarrow>
          (case build \<lparr>ub_name = ''tikovm_data'', ub_id = wa_dev_id args, ub_queues = wa_queues args, ub_depth = wa_depth args,
                       ub_io_buf_bytes = IO_BUF_BYTES, ub_recover = wa_recover args, ub_user_recovery = True\<rparr> of
             Inl e \<Rightarrow> (s', Inl (Storage (''build ublk device: '' @ e)))
           | Inr dev_id \<Rightarrow> (s', Inr (''device id: '' @ show_int dev_id, vol))))"

section \<open>The server\<close>

record main_args =
  ma_assets_dir :: "string option"
  ma_work_dir :: string
  ma_net_supernet :: string
  ma_net_subnet_prefix :: nat
  ma_storage_root :: string

record main_env =
  me_work_dir :: "unit result"
  me_root_is_dir :: bool
  me_devices :: "nat list"
  me_open :: "nat \<Rightarrow> string + unit"
  me_root_entries :: "string list option"
  me_is_file :: "string \<Rightarrow> bool"
  me_fc_bin :: "string option"
  me_path :: "string option"
  me_token :: "string option"

definition vmm_new :: "string \<Rightarrow> string \<Rightarrow> string \<Rightarrow> net_manager \<Rightarrow> 'h \<Rightarrow> 'h vmm" where
  "vmm_new assets_dir work_dir storage_root net h =
     \<lparr>fm_assets_dir = assets_dir, fm_work_dir = work_dir, fm_storage_root = storage_root, fm_heap = [],
      fm_next_ref = 0, fm_vms = [], fm_next_cid = 3, fm_activity = [], fm_wake_times = [], fm_run_locks = [],
      fm_net = net, fm_workers = [], fm_host = h\<rparr>"

text \<open>\<open>main\<close> up to the servers: the host, the devices that were deleted, and the path of Firecracker, the API's
  token and the VMM.\<close>

definition start_hostd ::
  "('h, 'm) host_os_scheme \<Rightarrow> (string \<Rightarrow> string + net_state) \<Rightarrow> (net_state \<Rightarrow> string + string) \<Rightarrow> main_env \<Rightarrow>
   main_args \<Rightarrow> 'h \<Rightarrow> 'h \<times> nat list \<times> (string \<times> string \<times> 'h vmm) result" where
  "start_hostd os from_json to_json env args h =
     (case me_work_dir env of
        Inl e \<Rightarrow> (h, [], Inl e)
      | Inr _ \<Rightarrow>
     (case ma_assets_dir args of
        None \<Rightarrow> (h, [], Inl (error.Vmm ''--assets-dir is required in server mode''))
      | Some assets_dir \<Rightarrow>
     (case net_manager_new os from_json (ma_work_dir args) (ma_net_supernet args) (ma_net_subnet_prefix args) h of
        (h1, Inl e) \<Rightarrow> (h1, [], Inl e)
      | (h1, Inr net) \<Rightarrow>
     (case reconcile_on_startup os to_json net h1 of
        ((net', h2), Inl e) \<Rightarrow> (h2, [], Inl e)
      | ((net', h2), Inr _) \<Rightarrow>
          let deleted = (if me_root_is_dir env then fst (storage_reconcile (me_open env) (me_devices env) (me_root_entries env)) else []);
              fc_bin = from_path_or_env (me_is_file env) (me_fc_bin env) (me_path env) ''firecracker''
          in (case api_token (me_token env) of
                Inl e \<Rightarrow> (h2, deleted, Inl e)
              | Inr token \<Rightarrow>
                  (h2, deleted, Inr (fc_bin, token, vmm_new assets_dir (ma_work_dir args) (ma_storage_root args) net' h2)))))))"

text \<open>The hidden subcommand, with clap's defaults, runs a worker instead of the server.\<close>

record worker_cli =
  wc_dir :: string
  wc_size_mb :: "nat option"
  wc_chunk_kb :: "nat option"
  wc_recover :: bool
  wc_dev_id :: "int option"
  wc_queues :: "nat option"
  wc_depth :: "nat option"

definition worker_args_of :: "worker_cli \<Rightarrow> worker_args" where
  "worker_args_of c = \<lparr>wa_dir = wc_dir c, wa_size_mb = wc_size_mb c, wa_chunk_kb = wc_chunk_kb c, wa_recover = wc_recover c,
     wa_dev_id = case_option (- 1) id (wc_dev_id c), wa_queues = case_option 8 id (wc_queues c),
     wa_depth = case_option 64 id (wc_depth c)\<rparr>"

text \<open>The proxy's loop: what comes out of the listener, until it fails; the connections served, and the error
  \<open>run\<close> returns with, if it has returned.\<close>

datatype listener_event = NewConn nat | ListenerError string

fun proxy_accepts :: "listener_event list \<Rightarrow> nat list \<times> error option" where
  "proxy_accepts [] = ([], None)"
| "proxy_accepts (NewConn c # es) = (case proxy_accepts es of (cs, e) \<Rightarrow> (c # cs, e))"
| "proxy_accepts (ListenerError e # es) = ([], Some (error.Io e))"

definition proxy_run :: "unit result \<Rightarrow> listener_event list \<Rightarrow> nat list \<times> error option" where
  "proxy_run bind es = (case bind of Inl e \<Rightarrow> ([], Some e) | Inr _ \<Rightarrow> proxy_accepts es)"

text \<open>The servers run side by side; hostd ends with the error of either.  \<open>api_end\<close> is the API server's.\<close>

definition hostd_end :: "error option \<Rightarrow> unit result \<Rightarrow> listener_event list \<Rightarrow> error option" where
  "hostd_end api_end bind es = (case api_end of Some e \<Rightarrow> Some e | None \<Rightarrow> snd (proxy_run bind es))"

text \<open>One failed \<open>accept\<close>, such as a want of descriptors while many clients are connected, ends hostd and with it
  every VM, however many connections were served before.\<close>

lemma proxy_accepts_until_error:
  "proxy_accepts (map NewConn cs @ ListenerError e # es) = (cs, Some (error.Io e))"
  by (induction cs) simp_all

lemma accept_error_ends_hostd:
  "hostd_end None (Inr ()) (map NewConn cs @ ListenerError e # es) = Some (error.Io e)"
  "fst (proxy_run (Inr ()) (map NewConn cs @ ListenerError e # es)) = cs"
  by (simp_all add: hostd_end_def proxy_run_def proxy_accepts_until_error)

section \<open>What a started hostd starts from\<close>

lemma net_manager_new_plan:
  "net_manager_new os from_json dir cidr prefix h = (h', Inr m) \<Longrightarrow> plan_ok (nm_supernet m) (nm_subnet_prefix m)"
  using net_parse_wf by (auto simp: net_manager_new_def plan_ok_def Let_def
      split: sum.splits if_splits prod.splits io_error.splits)

lemma reconciled:
  "reconcile_on_startup os to_json m h = ((m', h'), Inr ()) \<Longrightarrow> m' = m\<lparr>nm_state := net_state_default\<rparr>"
  by (auto simp: reconcile_on_startup_def Let_def split: prod.splits sum.splits)

lemma started_parts:
  assumes "start_hostd os from_json to_json env args h = (h', deleted, Inr (fc_bin, token, v))"
  shows "sys_init (v, []) \<and> nm_wf (fm_net v) \<and> nm_state (fm_net v) = net_state_default \<and> fm_workers v = [] \<and>
    fm_activity v = [] \<and> me_token env = Some token \<and> token \<noteq> []"
proof -
  obtain assets h1 net net' where start: "ma_assets_dir args = Some assets"
    "net_manager_new os from_json (ma_work_dir args) (ma_net_supernet args) (ma_net_subnet_prefix args) h = (h1, Inr net)"
    "reconcile_on_startup os to_json net h1 = ((net', h'), Inr ())"
    "api_token (me_token env) = Inr token"
    "v = vmm_new assets (ma_work_dir args) (ma_storage_root args) net' h'"
    using assms by (auto simp: start_hostd_def Let_def split: sum.splits option.splits prod.splits)
  have "net' = net\<lparr>nm_state := net_state_default\<rparr>" by (rule reconciled[OF start(3)])
  then show ?thesis
    using net_manager_new_plan[OF start(2)] start(4,5)
    by (auto simp: vmm_new_def sys_init_def ipam_default_wf api_token_def split: option.splits if_splits)
qed

text \<open>C15: Whatever an earlier hostd left behind, in the state file too, a hostd that starts begins in the initial
  state of the lifecycle system with no address taken and a well-formed address plan, and its API is
  guarded by the non-empty token it was given.\<close>

theorem hostd_starts_clean:
  assumes "start_hostd os from_json to_json env args h = (h', deleted, Inr (fc_bin, token, v))"
  shows "sys_init (v, []) \<and> nm_wf (fm_net v) \<and> nm_state (fm_net v) = net_state_default \<and> fm_workers v = [] \<and>
    fm_activity v = [] \<and> me_token env = Some token \<and> token \<noteq> []"
  by (rule started_parts[OF assms])

text \<open>The token is looked at last: a hostd that refuses to start for want of one has already deleted every
  ublk device of the machine and every bridge, those of a running hostd too.\<close>

theorem refused_start_deletes_devices:
  assumes "me_work_dir env = Inr ()" "ma_assets_dir args = Some assets" "me_root_is_dir env"
    "net_manager_new os from_json (ma_work_dir args) (ma_net_supernet args) (ma_net_subnet_prefix args) h = (h1, Inr net)"
    "reconcile_on_startup os to_json net h1 = ((net', h2), Inr ())"
    "me_token env = None" "\<And>d. me_open env d = Inr ()"
  shows "start_hostd os from_json to_json env args h = (h2, me_devices env, Inl MissingApiToken)"
  using assms by (simp add: start_hostd_def storage_reconcile_def api_token_def Let_def)

section \<open>The worker is heard\<close>

text \<open>The line the worker prints is the one its parent waits for.\<close>

lemma worker_is_heard:
  assumes "worker_run from_json to_json ppid build args s = (s', Inr (line, vol))"
    and "\<And>req d. build req = Inr d \<Longrightarrow> - (2 ^ 31) \<le> d \<and> d < 2 ^ 31"
  shows "\<exists>d. (\<exists>req. build req = Inr d) \<and> handshake [line @ [CHR 0x0A]] = Inr d"
proof -
  obtain req d where d: "build req = Inr d" "line = ''device id: '' @ show_int d"
    using assms(1) by (auto simp: worker_run_def split: if_splits prod.splits sum.splits)
  have nl: "char_of (10 :: nat) = CHR 0x0A" by code_simp
  have "handshake [line @ [CHR 0x0A]] = Inr d"
    using handshake_reads_device_id[of d "[]" "[]"] assms(2)[OF d(1)] by (simp add: d(2) nl)
  with d show ?thesis by blast
qed

section \<open>A start on a machine that works\<close>

definition demo_main_args :: main_args where
  "demo_main_args = \<lparr>ma_assets_dir = Some ''assets'', ma_work_dir = ''work'', ma_net_supernet = net_display demo_net,
     ma_net_subnet_prefix = 29, ma_storage_root = ''store''\<rparr>"

definition demo_main_env :: "string option \<Rightarrow> main_env" where
  "demo_main_env token = \<lparr>me_work_dir = Inr (), me_root_is_dir = True, me_devices = [0, 3], me_open = (\<lambda>_. Inr ()),
     me_root_entries = None, me_is_file = (\<lambda>_. False), me_fc_bin = Some ''fc'', me_path = None, me_token = token\<rparr>"

lemma demo_manager_starts:
  "net_manager_new working_host fj ''work'' (net_display demo_net) 29 () = ((), Inr demo_manager)"
  "reconcile_on_startup working_host (\<lambda>_. Inr ''{}'') demo_manager () = ((demo_manager, ()), Inr ())"
proof -
  have "net_parse (net_display demo_net) = Inr demo_net"
    by (rule net_parse_display) (simp add: net_wf_def)
  then show "net_manager_new working_host fj ''work'' (net_display demo_net) 29 () = ((), Inr demo_manager)"
    by (simp add: net_manager_new_def working_host_def empty_host_def path_join_def starts_with_def)
  have stray: "stray_bridges working_host () = ((), Inr (stray_names []))"
    by (simp add: stray_bridges_def working_host_def empty_host_def)
  show "reconcile_on_startup working_host (\<lambda>_. Inr ''{}'') demo_manager () = ((demo_manager, ()), Inr ())"
    by (simp add: reconcile_on_startup_def stray working_host_commands Let_def)
qed

lemma demo_started:
  "start_hostd working_host fj (\<lambda>_. Inr ''{}'') (demo_main_env (Some ''secret'')) demo_main_args () =
     ((), [0, 3], Inr (''fc'', ''secret'', demo_vmm))"
  by (simp add: start_hostd_def demo_main_env_def demo_main_args_def demo_manager_starts storage_reconcile_def
      from_path_or_env_def api_token_def vmm_new_def demo_vmm_def Let_def)

lemma hostd_starts_clean_witness: "sys_init (demo_vmm, []) \<and> nm_wf (fm_net demo_vmm)"
  using hostd_starts_clean[OF demo_started] by blast

lemma refused_start_deletes_devices_witness:
  "start_hostd working_host (\<lambda>_. Inl '''') (\<lambda>_. Inr ''{}'') (demo_main_env None) demo_main_args () = ((), [0, 3], Inl MissingApiToken)"
  using refused_start_deletes_devices[of "demo_main_env None" demo_main_args "''assets''" working_host "\<lambda>_. Inl ''''" "()"
      "()" demo_manager "\<lambda>_. Inr ''{}''" demo_manager "()"]
  by (simp add: demo_main_env_def demo_main_args_def demo_manager_starts)

end
