(* ===== verification/Wake.thy ===== *)
theory Wake
  imports VmmOps
begin

text \<open>
  Concurrent wake-ups: \<open>ensure_started\<close> of \<open>vmm.rs\<close> with its per-VM locks, called by any number of requests
  while the lifecycle operations go on.  The body of one call alone is \<open>VmmOps.ensure_started\<close>; here it
  is cut where it lets others run: before the lock, between looking at the state and restoring, and
  while the restore is under way.
\<close>

section \<open>Locks by key\<close>

text \<open>The map of shared mutexes that \<open>wake_locks\<close> and \<open>ScheduleRunLocks\<close> are; a mutex is a number.\<close>

record keyed_locks =
  kl_map :: "(string, nat) amap"
  kl_next :: nat

definition lock_for :: "string \<Rightarrow> keyed_locks \<Rightarrow> keyed_locks \<times> nat" where
  "lock_for key l =
     (case map_of (kl_map l) key of
        Some n \<Rightarrow> (l, n)
      | None \<Rightarrow> (l\<lparr>kl_map := AList.update key (kl_next l) (kl_map l), kl_next := kl_next l + 1\<rparr>, kl_next l))"

definition lock_forget :: "string \<Rightarrow> keyed_locks \<Rightarrow> keyed_locks" where
  "lock_forget key l = l\<lparr>kl_map := AList.delete key (kl_map l)\<rparr>"

section \<open>The callers\<close>

datatype wake_phase =
    Queued
  | Polling instant
  | SeenSuspended
  | Restores job
  | Returned "unit result"

record waker =
  wk_vm :: vm_id
  wk_lock :: nat
  wk_phase :: wake_phase

text \<open>\<open>ws_destroys\<close> are the VMs whose destruction has taken the entry but not yet dropped the lock.\<close>

record 'h wake_sys =
  ws_vmm :: "'h vmm"
  ws_jobs :: "job list"
  ws_locks :: keyed_locks
  ws_wakers :: "waker list"
  ws_destroys :: "vm_id list"

fun past_lock :: "wake_phase \<Rightarrow> bool" where
  "past_lock Queued = False"
| "past_lock (Returned r) = False"
| "past_lock _ = True"

fun returned :: "wake_phase \<Rightarrow> bool" where
  "returned (Returned r) = True"
| "returned _ = False"

definition set_phase :: "nat \<Rightarrow> wake_phase \<Rightarrow> 'h wake_sys \<Rightarrow> 'h wake_sys" where
  "set_phase k p s = s\<lparr>ws_wakers := (ws_wakers s)[k := (ws_wakers s ! k)\<lparr>wk_phase := p\<rparr>]\<rparr>"

section \<open>The steps of a call\<close>

text \<open>Taking the VM's lock out of the map, or putting a new one there.\<close>

definition wake_call :: "vm_id \<Rightarrow> 'h wake_sys \<Rightarrow> 'h wake_sys" where
  "wake_call vm_id s =
     (let (l, n) = lock_for vm_id (ws_locks s)
      in s\<lparr>ws_locks := l, ws_wakers := ws_wakers s @ [\<lparr>wk_vm = vm_id, wk_lock = n, wk_phase = Queued\<rparr>]\<rparr>)"

definition lock_free :: "nat \<Rightarrow> 'h wake_sys \<Rightarrow> bool" where
  "lock_free n s \<longleftrightarrow> list_all (\<lambda>w. wk_lock w = n \<longrightarrow> \<not> past_lock (wk_phase w)) (ws_wakers s)"

definition wake_acquire :: "instant \<Rightarrow> nat \<Rightarrow> 'h wake_sys \<Rightarrow> 'h wake_sys option" where
  "wake_acquire now k s =
     (if wk_phase (ws_wakers s ! k) = Queued \<and> lock_free (wk_lock (ws_wakers s ! k)) s
      then Some (set_phase k (Polling (now + 30000)) s) else None)"

text \<open>One turn of the loop: the state is read under the lock of the map, then acted upon.\<close>

definition wake_seen :: "vm_id \<Rightarrow> instant \<Rightarrow> instant \<Rightarrow> vm_state option \<Rightarrow> wake_phase" where
  "wake_seen vm_id deadline now state =
     (case state of
        None \<Rightarrow> Returned (Inl (VmNotFound vm_id))
      | Some Started \<Rightarrow> Returned (Inr ())
      | Some Suspended \<Rightarrow> SeenSuspended
      | Some st \<Rightarrow>
          if st = Suspending \<or> st = Restoring then
            if deadline \<le> now
            then Returned (Inl (error.Vmm (''vm '' @ vm_id @ '' is still '' @ debug_vm_state st @ '' after 30s'')))
            else Polling deadline
          else Returned (Inl (error.Vmm (''vm '' @ vm_id @ '' is '' @ debug_vm_state st @
                                ''; only a suspended vm can be woken''))))"

definition wake_look :: "instant \<Rightarrow> nat \<Rightarrow> 'h wake_sys \<Rightarrow> 'h wake_sys option" where
  "wake_look now k s =
     (case wk_phase (ws_wakers s ! k) of
        Polling deadline \<Rightarrow>
          (let vm_id = wk_vm (ws_wakers s ! k)
           in Some (set_phase k (wake_seen vm_id deadline now (vm_state_of vm_id (ws_vmm s))) s))
      | _ \<Rightarrow> None)"

definition wake_restore :: "nat \<Rightarrow> 'h wake_sys \<Rightarrow> 'h wake_sys option" where
  "wake_restore k s =
     (if wk_phase (ws_wakers s ! k) = SeenSuspended
      then Some (case restore_enter (wk_vm (ws_wakers s ! k)) (ws_vmm s) of
             (v, Inl e) \<Rightarrow> set_phase k (Returned (Inl e)) (s\<lparr>ws_vmm := v\<rparr>)
           | (v, Inr j) \<Rightarrow> set_phase k (Restores j) (s\<lparr>ws_vmm := v, ws_jobs := j # ws_jobs s\<rparr>))
      else None)"

definition wake_restored :: "instant \<Rightarrow> child result \<Rightarrow> nat \<Rightarrow> 'h wake_sys \<Rightarrow> 'h wake_sys option" where
  "wake_restored now outcome k s =
     (case wk_phase (ws_wakers s ! k) of
        Restores j \<Rightarrow>
          if j \<in> set (ws_jobs s) then
            (let (v, r) = restore_finish now outcome j (ws_vmm s)
             in Some (set_phase k (Returned r) (s\<lparr>ws_vmm := v, ws_jobs := remove1 j (ws_jobs s)\<rparr>)))
          else None
      | _ \<Rightarrow> None)"

text \<open>\<open>destroy_vm\<close> takes the entry at once; the lock goes when the rest of its clean-up is done.\<close>

definition wake_destroy ::
  "('h, 'm) host_os_scheme \<Rightarrow> (net_state \<Rightarrow> string + string) \<Rightarrow> vm_id \<Rightarrow> 'h wake_sys \<Rightarrow> 'h wake_sys" where
  "wake_destroy os to_json vm_id s =
     (case destroy_vm os to_json vm_id (ws_vmm s) of
        (v, Inl _) \<Rightarrow> s\<lparr>ws_vmm := v\<rparr>
      | (v, Inr _) \<Rightarrow> s\<lparr>ws_vmm := v, ws_destroys := vm_id # ws_destroys s\<rparr>)"

definition wake_forget :: "vm_id \<Rightarrow> 'h wake_sys \<Rightarrow> 'h wake_sys" where
  "wake_forget vm_id s =
     s\<lparr>ws_locks := lock_forget vm_id (ws_locks s), ws_destroys := remove1 vm_id (ws_destroys s)\<rparr>"

section \<open>The system\<close>

text \<open>The ids that somebody still asks for; a creation is taken not to draw one of them.\<close>

definition asked :: "'h wake_sys \<Rightarrow> vm_id set" where
  "asked s = {wk_vm w |w. w \<in> set (ws_wakers s) \<and> \<not> returned (wk_phase w)} \<union> set (ws_destroys s)"

abbreviation known :: "vm_id \<Rightarrow> 'h vmm \<Rightarrow> bool" where
  "known vm v \<equiv> map_of (fm_vms v) vm \<noteq> None"

text \<open>\<open>Rest\<close> is every other step of the lifecycle; it finishes no caller's restore, and with \<open>api = False\<close> it
  begins no restore of its own.\<close>

inductive wake_step :: "bool \<Rightarrow> 'h wake_sys \<Rightarrow> 'h wake_sys \<Rightarrow> bool" for api where
  Call: "wake_step api s (wake_call vm_id s)"
| Acquire: "k < length (ws_wakers s) \<Longrightarrow> wake_acquire now k s = Some s' \<Longrightarrow> wake_step api s s'"
| Look: "k < length (ws_wakers s) \<Longrightarrow> wake_look now k s = Some s' \<Longrightarrow> wake_step api s s'"
| Restore: "k < length (ws_wakers s) \<Longrightarrow> wake_restore k s = Some s' \<Longrightarrow> wake_step api s s'"
| Restored: "k < length (ws_wakers s) \<Longrightarrow> wake_restored now outcome k s = Some s' \<Longrightarrow> wake_step api s s'"
| Destroying: "wake_step api s (wake_destroy (os :: 'h host_os) to_json vm_id s)"
| Forget: "vm_id \<in> set (ws_destroys s) \<Longrightarrow> wake_step api s (wake_forget vm_id s)"
| Rest: "sys_step (ws_vmm s, ws_jobs s) (v', js') \<Longrightarrow>
    (\<forall>vm. known vm (ws_vmm s) \<longrightarrow> known vm v') \<Longrightarrow>
    (\<forall>vm \<in> asked s. known vm v' \<longrightarrow> known vm (ws_vmm s)) \<Longrightarrow>
    (\<forall>w \<in> set (ws_wakers s). \<forall>j. wk_phase w = Restores j \<longrightarrow> j \<in> set (ws_jobs s) \<longrightarrow> j \<in> set js') \<Longrightarrow>
    (api \<or> (\<forall>j \<in> set js' - set (ws_jobs s). jb_op j \<noteq> OpRestore)) \<Longrightarrow>
    wake_step api s (s\<lparr>ws_vmm := v', ws_jobs := js'\<rparr>)"

definition wake_init :: "'h wake_sys \<Rightarrow> bool" where
  "wake_init s \<longleftrightarrow> reachable (ws_vmm s, ws_jobs s) \<and> kl_map (ws_locks s) = [] \<and> ws_wakers s = [] \<and> ws_destroys s = []"

abbreviation wake_reachable :: "bool \<Rightarrow> 'h wake_sys \<Rightarrow> bool" where
  "wake_reachable api s \<equiv> \<exists>s0. wake_init s0 \<and> (wake_step api)\<^sup>*\<^sup>* s0 s"

text \<open>When nothing comes between looking and restoring, a turn of the loop is \<open>wake_poll\<close>.\<close>

lemma wake_seen_poll:
  "wake_poll vm_id deadline now v =
     (case wake_seen vm_id deadline now (vm_state_of vm_id v) of
        Returned (Inl e) \<Rightarrow> Some (v, WakeError e)
      | Returned (Inr _) \<Rightarrow> Some (v, AlreadyStarted)
      | SeenSuspended \<Rightarrow> Some (case restore_enter vm_id v of (v', Inl e) \<Rightarrow> (v', WakeError e) | (v', Inr j) \<Rightarrow> (v', RestoreBegun j))
      | _ \<Rightarrow> None)"
  by (auto simp: wake_poll_def wake_seen_def split: option.split vm_state.split)

section \<open>What a step leaves alone\<close>

definition keeps_but :: "inst_ref \<Rightarrow> 'h vmm \<Rightarrow> 'h vmm \<Rightarrow> bool" where
  "keeps_but r v v' \<longleftrightarrow>
     (\<forall>q. q \<noteq> r \<longrightarrow> inst v' q = inst v q) \<and> fm_next_ref v' = fm_next_ref v \<and>
     (\<forall>vm. map_option fe_instance (map_of (fm_vms v') vm) = map_option fe_instance (map_of (fm_vms v) vm))"

lemma keeps_but_refl [simp]: "keeps_but r v v"
  by (simp add: keeps_but_def)

lemma keeps_but_trans: "keeps_but r v u \<Longrightarrow> keeps_but r u w \<Longrightarrow> keeps_but r v w"
  by (simp add: keeps_but_def)

lemma keeps_but_set [simp]:
  "keeps_but r v (set_inst r f v)" "keeps_but r v (woken now vm v)"
  "(\<And>e. fe_instance (g e) = fe_instance e) \<Longrightarrow> keeps_but r v (set_entry vm g v)"
  by (auto simp: keeps_but_def inst_set_inst vms_set_entry option.map_comp comp_def)

lemma keeps_but_transition: "keeps_but r v (fst (inst_transition r next v))"
  by (auto simp: inst_transition_def split: option.split sum.split)

lemma keeps_but_leave:
  assumes "\<And>u. keeps_but r u (fst (k u))"
  shows "keeps_but r v (fst (leave r next k v))"
  using keeps_but_transition[of r v "next"] assms keeps_but_trans
  by (fastforce simp: leave_def split: prod.splits sum.splits)

lemma finish_keeps_but:
  "keeps_but (jb_ref j) v (fst (start_finish now p w j v))"
  "keeps_but (jb_ref j) v (fst (pause_finish p j v))"
  "keeps_but (jb_ref j) v (fst (resume_finish p j v))"
  "keeps_but (jb_ref j) v (fst (snapshot_failed e j v))"
  "keeps_but (jb_ref j) v (fst (snapshot_stop now j v))"
  by (auto simp: start_finish_def pause_finish_def resume_finish_def snapshot_failed_def snapshot_stop_def Let_def
      intro!: keeps_but_leave split: sum.split)

lemma snapshot_finish_keeps_but: "keeps_but (jb_ref j) v (fst (snapshot_finish j v))"
proof -
  let ?v1 = "set_inst (jb_ref j) (\<lambda>i. i\<lparr>vi_snapshot := jb_snapshot j\<rparr>) v"
  have "keeps_but (jb_ref j) v (fst (inst_transition (jb_ref j) Suspended ?v1))"
    by (rule keeps_but_trans[OF keeps_but_set(1) keeps_but_transition])
  then show ?thesis by (auto simp: snapshot_finish_def split: prod.split sum.split)
qed

lemma restore_finish_keeps_but: "keeps_but (jb_ref j) v (fst (restore_finish now oc j v))"
proof (cases "\<exists>child. oc = Inr child \<and> map_of (fm_vms v) (jb_vm j) \<noteq> None")
  case True
  then obtain child e where oc: "oc = Inr child" "map_of (fm_vms v) (jb_vm j) = Some e" by auto
  have "keeps_but (jb_ref j) v (set_entry (jb_vm j) (\<lambda>e. e\<lparr>fe_fc := Some child\<rparr>) v)" by simp
  from keeps_but_trans[OF this keeps_but_leave] show ?thesis by (simp add: restore_finish_def oc)
next
  case False
  then show ?thesis by (auto simp: restore_finish_def intro!: keeps_but_leave split: sum.split option.split)
qed

lemma enter_keeps_but:
  assumes "lifecycle_enter op vm v = (v', Inr j)"
  shows "keeps_but (jb_ref j) v v' \<and> jb_op j = op \<and> jb_vm j = vm \<and>
    (\<forall>i. inst v (jb_ref j) = Some i \<longrightarrow> can_transition_to (vi_state i) (op_begin op)) \<and>
    map_option fe_instance (map_of (fm_vms v) vm) = Some (jb_ref j)"
  using assms
  by (auto simp: lifecycle_enter_def op_enter_def restore_enter_def entry_parts_def inst_transition_def transition_def
      split: option.splits prod.splits sum.splits if_splits)

text \<open>Every step works on one instance, or creates one, or changes no state.\<close>

lemma sys_step_keeps:
  assumes "sys_step (v, js) (v', js')"
  obtains (job) j where "j \<in> set js" "keeps_but (jb_ref j) v v'" "jb_ref ` set js' \<subseteq> jb_ref ` set js"
      "\<forall>k \<in> set js' - set js. jb_op k = OpSnapshot"
  | (enter) op vm j where "lifecycle_enter op vm v = (v', Inr j)" "js' = j # js"
  | (quiet) "js' = js" "\<forall>r i. inst v r = Some i \<longrightarrow> r < fm_next_ref v \<longrightarrow> map_option vi_state (inst v' r) = Some (vi_state i)"
      "fm_next_ref v \<le> fm_next_ref v'"
      "\<forall>vm e'. map_of (fm_vms v) vm \<noteq> None \<longrightarrow> map_of (fm_vms v') vm = Some e' \<longrightarrow>
         map_option fe_instance (map_of (fm_vms v) vm) = Some (fe_instance e')"
  using assms
proof (cases rule: sys_step.cases)
  case (Enter op vm_id j)
  then show ?thesis using enter by blast
next
  case (StartDone j p w now)
  then show ?thesis using job[of j] finish_keeps_but(1)[of j v] set_remove1_subset[of j js] by (simp add: image_mono) blast
next
  case (PauseDone j p)
  then show ?thesis using job[of j] finish_keeps_but(2)[of j v] set_remove1_subset[of j js] by (simp add: image_mono) blast
next
  case (ResumeDone j p)
  then show ?thesis using job[of j] finish_keeps_but(3)[of j v] set_remove1_subset[of j js] by (simp add: image_mono) blast
next
  case (SnapshotStop j now j')
  have "jb_ref j' = jb_ref j \<and> jb_op j' = jb_op j" using SnapshotStop by (auto simp: snapshot_stop_def Let_def)
  then show ?thesis
    using SnapshotStop job[of j] finish_keeps_but(5)[of j v now] set_remove1_subset[of j js] by auto
next
  case (SnapshotDone j)
  then show ?thesis using job[of j] snapshot_finish_keeps_but[of j v] set_remove1_subset[of j js] by (simp add: image_mono) blast
next
  case (SnapshotFailed j e)
  then show ?thesis using job[of j] finish_keeps_but(4)[of j v] set_remove1_subset[of j js] by (simp add: image_mono) blast
next
  case (RestoreDone j now oc)
  then show ?thesis using job[of j] restore_finish_keeps_but[of j v] set_remove1_subset[of j js] by (simp add: image_mono) blast
next
  case (Destroy os to_json vm_id)
  then show ?thesis using quiet by (auto simp: destroy_vm_view)
next
  case (Create env config os to_json parse_cron)
  obtain res where c: "create_vm os to_json parse_cron env config v = (v', res)" using Create by (metis prod.collapse)
  show ?thesis
    by (rule create_vm_view[OF c]) (use Create quiet in \<open>auto simp: fresh_id_def split: if_splits\<close>)
next
  case Other
  then have s: "map_option (\<lambda>e. (fe_instance e, fe_fc e)) (map_of (fm_vms v') vm) =
      map_option (\<lambda>e. (fe_instance e, fe_fc e)) (map_of (fm_vms v) vm)"
    "map_option (\<lambda>i. (vi_vm_id i, vi_state i, vi_snapshot i)) (inst v' r) =
      map_option (\<lambda>i. (vi_vm_id i, vi_state i, vi_snapshot i)) (inst v r)" "fm_next_ref v' = fm_next_ref v" for vm r
    by (simp_all add: same_lifecycle_def fun_eq_iff)
  show ?thesis
  proof (rule quiet)
    show "\<forall>r i. inst v r = Some i \<longrightarrow> r < fm_next_ref v \<longrightarrow> map_option vi_state (inst v' r) = Some (vi_state i)"
    proof (intro allI impI)
      fix r i assume "inst v r = Some i"
      then show "map_option vi_state (inst v' r) = Some (vi_state i)" using s(2)[of r] by auto
    qed
    show "\<forall>vm e'. map_of (fm_vms v) vm \<noteq> None \<longrightarrow> map_of (fm_vms v') vm = Some e' \<longrightarrow>
         map_option fe_instance (map_of (fm_vms v) vm) = Some (fe_instance e')"
    proof (intro allI impI)
      fix vm e' assume "map_of (fm_vms v') vm = Some e'"
      then show "map_option fe_instance (map_of (fm_vms v) vm) = Some (fe_instance e')" using s(1)[of vm] by (cases "map_of (fm_vms v) vm") auto
    qed
  qed (use Other s(3) in auto)
qed

section \<open>An operation that is dropped\<close>

text \<open>The future of a handler is dropped when its client goes away: an operation begun by it then ends at the
  await point it is at, with no transition after the first.\<close>

inductive cancel_step :: "'h sys \<Rightarrow> 'h sys \<Rightarrow> bool" where
  Goes: "sys_step s s' \<Longrightarrow> cancel_step s s'"
| Drops: "j \<in> set js \<Longrightarrow> cancel_step (v, js) (v, remove1 j js)"

definition wedged :: "inst_ref \<Rightarrow> vm_state \<Rightarrow> 'h sys \<Rightarrow> bool" where
  "wedged r st s \<longleftrightarrow>
     map_option vi_state (inst (fst s) r) = Some st \<and> r < fm_next_ref (fst s) \<and> r \<notin> jb_ref ` set (snd s)"

lemma transitional_no_enter: "transitional st \<Longrightarrow> \<not> can_transition_to st (op_begin op)"
  using can_transition_alternates[of st "op_begin op"] lc.enter_busy[of op] by auto

lemma step_keeps_wedged:
  assumes "sys_step s s'" "wedged r st s" "transitional st"
  shows "wedged r st s'"
proof -
  obtain v js v' js' where s: "s = (v, js)" "s' = (v', js')" by (metis surj_pair)
  obtain i where i: "inst v r = Some i" "vi_state i = st" and lt: "r < fm_next_ref v" and nj: "r \<notin> jb_ref ` set js"
    using assms(2) by (auto simp: wedged_def s)
  from assms(1)[unfolded s] show ?thesis
  proof (cases rule: sys_step_keeps)
    case (job j)
    then have "jb_ref j \<noteq> r" using nj by auto
    then have "inst v' r = Some i" "fm_next_ref v' = fm_next_ref v" using job(2) i(1) by (auto simp: keeps_but_def)
    then show ?thesis using i(2) lt nj job(3) by (auto simp: wedged_def s)
  next
    case (enter op vm j)
    note k = enter_keeps_but[OF enter(1)]
    have "jb_ref j \<noteq> r" using k i transitional_no_enter[OF assms(3)] by auto
    then have "inst v' r = Some i" "fm_next_ref v' = fm_next_ref v" using k i(1) by (auto simp: keeps_but_def)
    then show ?thesis using i(2) lt nj enter(2) \<open>jb_ref j \<noteq> r\<close> by (auto simp: wedged_def s)
  next
    case quiet
    then show ?thesis using i lt nj by (auto simp: wedged_def s)
  qed
qed

lemma cancel_keeps_wedged: "cancel_step s s' \<Longrightarrow> wedged r st s \<Longrightarrow> transitional st \<Longrightarrow> wedged r st s'"
proof (induction rule: cancel_step.induct)
  case (Drops j js v)
  then show ?case using set_remove1_subset[of j js] by (auto simp: wedged_def)
qed (rule step_keeps_wedged)

text \<open>C5: An operation whose caller goes away leaves its VM stuck: whatever happens afterwards, the instance
  stays in the state the operation had entered, every operation on it is refused, and waking it never
  succeeds.  Only destroying the VM is left.\<close>

theorem dropped_operation_wedges:
  assumes "reachable (v, js)" "j \<in> set js" "cancel_step\<^sup>*\<^sup>* (v, remove1 j js) (v', js')"
  shows "map_option vi_state (inst v' (jb_ref j)) = Some (op_begin (jb_op j)) \<and>
    (\<forall>vm e. map_of (fm_vms v') vm = Some e \<longrightarrow> fe_instance e = jb_ref j \<longrightarrow>
       (\<forall>op u k. lifecycle_enter op vm v' \<noteq> (u, Inr k)) \<and>
       (\<forall>deadline now. wake_seen vm deadline now (vm_state_of vm v') \<notin> {SeenSuspended, Returned (Inr ())}))"
proof -
  note inv = reachable_inv[OF assms(1)]
  let ?st = "op_begin (jb_op j)"
  have tr: "transitional ?st" by (rule lc.enter_busy)
  obtain i where "inst v (jb_ref j) = Some i" "vi_state i = ?st" by (rule job_inst[OF inv assms(2)])
  then have "wedged (jb_ref j) ?st (v, remove1 j js)"
    using lc_invD(1)[OF inv] jobs_removed(1)[OF inv] job_unique[OF inv _ assms(2)] by (auto simp: wedged_def)
  with assms(3) have "wedged (jb_ref j) ?st (v', js')"
    by (induction rule: rtranclp_induct) (auto intro: cancel_keeps_wedged[OF _ _ tr])
  then obtain i' where i': "inst v' (jb_ref j) = Some i'" "vi_state i' = ?st" by (auto simp: wedged_def)
  have "lifecycle_enter op vm v' \<noteq> (u, Inr k)" if "map_of (fm_vms v') vm = Some e" "fe_instance e = jb_ref j" for vm e op u k
    using enter_keeps_but[of op vm v' u k] that i' transitional_no_enter[OF tr] by auto
  moreover have "wake_seen vm d now (vm_state_of vm v') \<notin> {SeenSuspended, Returned (Inr ())}"
    if "map_of (fm_vms v') vm = Some e" "fe_instance e = jb_ref j" for vm e d now
    using that i' by (cases "jb_op j") (auto simp: wake_seen_def vm_state_of_def)
  ultimately show ?thesis using i' by auto
qed

section \<open>A suspended VM is left to its wakers\<close>

lemma wake_state_of_entry: "map_of (fm_vms v) vm = Some e \<Longrightarrow> vm_state_of vm v = map_option vi_state (inst v (fe_instance e))"
  by (simp add: vm_state_of_def)

lemma keeps_but_state:
  assumes "keeps_but r v v'" "map_of (fm_vms v) vm = Some e" "fe_instance e \<noteq> r"
  shows "vm_state_of vm v' = vm_state_of vm v"
proof -
  obtain e' where "map_of (fm_vms v') vm = Some e'" "fe_instance e' = fe_instance e"
    using assms(1,2) unfolding keeps_but_def by (metis (no_types, lifting) map_option_eq_Some)
  then show ?thesis using assms by (simp add: wake_state_of_entry keeps_but_def)
qed

lemma suspended_stays:
  assumes inv: "lc_inv (v, js)" and step: "sys_step (v, js) (v', js')"
    and others: "\<forall>j \<in> set js' - set js. jb_op j = OpRestore \<longrightarrow> jb_vm j \<noteq> vm"
    and susp: "vm_state_of vm v = Some Suspended" and there: "known vm v'"
  shows "vm_state_of vm v' = Some Suspended"
proof -
  obtain e i where e: "map_of (fm_vms v) vm = Some e" "inst v (fe_instance e) = Some i" "vi_state i = Suspended" "vi_vm_id i = vm"
    using susp lc_invD(5)[OF inv] by (fastforce simp: vm_state_of_def bind_eq_Some_conv)
  have free: "jb_ref j \<noteq> fe_instance e" if "j \<in> set js" for j
    using lc_invD(4)[OF inv that] e(2,3) op_begin_from lc.enter_busy[of "jb_op j"]
    by (auto simp: job_ok_def transitional_def)
  from step show ?thesis
  proof (cases rule: sys_step_keeps)
    case (job j)
    then show ?thesis using keeps_but_state[OF job(2) e(1)] free[OF job(1)] susp by simp
  next
    case (enter op vm0 j)
    note k = enter_keeps_but[OF enter(1)]
    have "jb_ref j \<noteq> fe_instance e"
    proof
      assume r: "jb_ref j = fe_instance e"
      then have "can_transition_to Suspended (op_begin op)" using k e by auto
      then have "op = OpRestore" by (cases op) (simp_all add: can_transition_to.simps)
      then have op: "jb_op j = OpRestore" using k by simp
      obtain e0 where e0: "map_of (fm_vms v) vm0 = Some e0" "fe_instance e0 = fe_instance e" using k r by auto
      have "vm0 = vm" using lc_invD(5)[OF inv e0(1)] e0(2) e(2,4) by auto
      moreover have "j \<notin> set js" using free r by blast
      ultimately show False using others op enter(2) k by auto
    qed
    then show ?thesis using keeps_but_state[of "jb_ref j" v v' vm e] k e(1) susp by auto
  next
    case quiet
    obtain e' where e': "map_of (fm_vms v') vm = Some e'" using there by auto
    then have "fe_instance e' = fe_instance e" using quiet(4) e(1) by (metis option.distinct(1) option.inject option.map(2))
    moreover have "map_option vi_state (inst v' (fe_instance e)) = Some Suspended"
      using quiet(2) e lc_invD(1)[OF inv e(2)] by metis
    ultimately show ?thesis using wake_state_of_entry[OF e'] by simp
  qed
qed

section \<open>The invariant of the wakers\<close>

definition wake_inv :: "'h wake_sys \<Rightarrow> bool" where
  "wake_inv s \<longleftrightarrow>
     lc_inv (ws_vmm s, ws_jobs s) \<and>
     (\<forall>w \<in> set (ws_wakers s). \<not> returned (wk_phase w) \<longrightarrow> known (wk_vm w) (ws_vmm s) \<longrightarrow>
        map_of (kl_map (ws_locks s)) (wk_vm w) = Some (wk_lock w)) \<and>
     (\<forall>k < length (ws_wakers s). \<forall>m < length (ws_wakers s). k \<noteq> m \<longrightarrow> past_lock (wk_phase (ws_wakers s ! k)) \<longrightarrow>
        past_lock (wk_phase (ws_wakers s ! m)) \<longrightarrow> wk_lock (ws_wakers s ! k) \<noteq> wk_lock (ws_wakers s ! m)) \<and>
     (\<forall>w \<in> set (ws_wakers s). wk_phase w = SeenSuspended \<longrightarrow> known (wk_vm w) (ws_vmm s) \<longrightarrow>
        vm_state_of (wk_vm w) (ws_vmm s) = Some Suspended) \<and>
     (\<forall>vm \<in> set (ws_destroys s). \<not> known vm (ws_vmm s)) \<and>
     (\<forall>w \<in> set (ws_wakers s). \<forall>j. wk_phase w = Restores j \<longrightarrow> jb_op j = OpRestore)"

lemma wake_invD:
  assumes "wake_inv s"
  shows "lc_inv (ws_vmm s, ws_jobs s)"
    "w \<in> set (ws_wakers s) \<Longrightarrow> \<not> returned (wk_phase w) \<Longrightarrow> known (wk_vm w) (ws_vmm s) \<Longrightarrow>
       map_of (kl_map (ws_locks s)) (wk_vm w) = Some (wk_lock w)"
    "k < length (ws_wakers s) \<Longrightarrow> m < length (ws_wakers s) \<Longrightarrow> past_lock (wk_phase (ws_wakers s ! k)) \<Longrightarrow>
       past_lock (wk_phase (ws_wakers s ! m)) \<Longrightarrow> wk_lock (ws_wakers s ! k) = wk_lock (ws_wakers s ! m) \<Longrightarrow> k = m"
    "w \<in> set (ws_wakers s) \<Longrightarrow> wk_phase w = SeenSuspended \<Longrightarrow> known (wk_vm w) (ws_vmm s) \<Longrightarrow>
       vm_state_of (wk_vm w) (ws_vmm s) = Some Suspended"
    "vm \<in> set (ws_destroys s) \<Longrightarrow> \<not> known vm (ws_vmm s)"
    "w \<in> set (ws_wakers s) \<Longrightarrow> wk_phase w = Restores j \<Longrightarrow> jb_op j = OpRestore"
  using assms unfolding wake_inv_def by blast+

lemma wake_invI:
  assumes "lc_inv (ws_vmm s, ws_jobs s)"
    "\<And>w. w \<in> set (ws_wakers s) \<Longrightarrow> \<not> returned (wk_phase w) \<Longrightarrow> known (wk_vm w) (ws_vmm s) \<Longrightarrow>
       map_of (kl_map (ws_locks s)) (wk_vm w) = Some (wk_lock w)"
    "\<And>k m. k < length (ws_wakers s) \<Longrightarrow> m < length (ws_wakers s) \<Longrightarrow> k \<noteq> m \<Longrightarrow> past_lock (wk_phase (ws_wakers s ! k)) \<Longrightarrow>
       past_lock (wk_phase (ws_wakers s ! m)) \<Longrightarrow> wk_lock (ws_wakers s ! k) \<noteq> wk_lock (ws_wakers s ! m)"
    "\<And>w. w \<in> set (ws_wakers s) \<Longrightarrow> wk_phase w = SeenSuspended \<Longrightarrow> known (wk_vm w) (ws_vmm s) \<Longrightarrow>
       vm_state_of (wk_vm w) (ws_vmm s) = Some Suspended"
    "\<And>vm. vm \<in> set (ws_destroys s) \<Longrightarrow> \<not> known vm (ws_vmm s)"
    "\<And>w j. w \<in> set (ws_wakers s) \<Longrightarrow> wk_phase w = Restores j \<Longrightarrow> jb_op j = OpRestore"
  shows "wake_inv s"
  unfolding wake_inv_def using assms by meson

lemma past_not_returned: "past_lock p \<Longrightarrow> \<not> returned p"
  by (cases p) auto

text \<open>Among the wakers of a VM that exists only one is past the lock.\<close>

lemma one_past_lock:
  assumes "wake_inv s" "k < length (ws_wakers s)" "m < length (ws_wakers s)"
    "wk_vm (ws_wakers s ! k) = vm" "wk_vm (ws_wakers s ! m) = vm" "known vm (ws_vmm s)"
    "past_lock (wk_phase (ws_wakers s ! k))" "past_lock (wk_phase (ws_wakers s ! m))"
  shows "k = m"
proof (rule wake_invD(3)[OF assms(1-3,7,8)])
  show "wk_lock (ws_wakers s ! k) = wk_lock (ws_wakers s ! m)"
    using wake_invD(2)[OF assms(1) nth_mem[OF assms(2)]] wake_invD(2)[OF assms(1) nth_mem[OF assms(3)]]
      past_not_returned[OF assms(7)] past_not_returned[OF assms(8)] assms(4-6) by simp
qed

lemma phase_keeps_inv:
  assumes inv: "wake_inv s" and k: "k < length (ws_wakers s)" "\<not> returned (wk_phase (ws_wakers s ! k))"
    and past: "past_lock p \<Longrightarrow> past_lock (wk_phase (ws_wakers s ! k)) \<or> lock_free (wk_lock (ws_wakers s ! k)) s"
    and seen: "p = SeenSuspended \<Longrightarrow> known (wk_vm (ws_wakers s ! k)) (ws_vmm s) \<Longrightarrow>
      vm_state_of (wk_vm (ws_wakers s ! k)) (ws_vmm s) = Some Suspended"
    and op: "\<And>j. p = Restores j \<Longrightarrow> jb_op j = OpRestore"
  shows "wake_inv (set_phase k p s)"
proof -
  let ?w = "ws_wakers s ! k"
  let ?ws = "(ws_wakers s)[k := ?w\<lparr>wk_phase := p\<rparr>]"
  have elem: "w = ?w\<lparr>wk_phase := p\<rparr> \<or> w \<in> set (ws_wakers s)" if "w \<in> set ?ws" for w
    using that set_update_subset_insert[of "ws_wakers s" k "?w\<lparr>wk_phase := p\<rparr>"] by auto
  have fields: "ws_vmm (set_phase k p s) = ws_vmm s" "ws_jobs (set_phase k p s) = ws_jobs s" "ws_locks (set_phase k p s) = ws_locks s"
    "ws_wakers (set_phase k p s) = ?ws" "ws_destroys (set_phase k p s) = ws_destroys s" by (simp_all add: set_phase_def)
  have clash: "wk_lock (ws_wakers s ! m) \<noteq> wk_lock ?w"
    if "m \<noteq> k" "m < length (ws_wakers s)" "past_lock (wk_phase (ws_wakers s ! m))" "past_lock p" for m
    using past[OF that(4)]
  proof
    assume "past_lock (wk_phase ?w)"
    then show ?thesis using wake_invD(3)[OF inv that(2) k(1) that(3)] that(1) by blast
  next
    assume "lock_free (wk_lock ?w) s"
    then show ?thesis using that(2,3) unfolding lock_free_def list_all_length by blast
  qed
  have locks: "wk_lock (?ws ! m) \<noteq> wk_lock (?ws ! n)"
    if "m < length ?ws" "n < length ?ws" "m \<noteq> n" "past_lock (wk_phase (?ws ! m))" "past_lock (wk_phase (?ws ! n))" for m n
  proof (cases "m = k \<or> n = k")
    case True
    then show ?thesis using that clash[of m] clash[of n] by auto
  next
    case False
    then show ?thesis using that wake_invD(3)[OF inv, of m n] by auto
  qed
  have reg: "map_of (kl_map (ws_locks s)) (wk_vm w) = Some (wk_lock w)"
    if "w \<in> set ?ws" "\<not> returned (wk_phase w)" "known (wk_vm w) (ws_vmm s)" for w
    using elem[OF that(1)] that(2,3) wake_invD(2)[OF inv] wake_invD(2)[OF inv nth_mem[OF k(1)] k(2)] by auto
  have susp: "vm_state_of (wk_vm w) (ws_vmm s) = Some Suspended"
    if "w \<in> set ?ws" "wk_phase w = SeenSuspended" "known (wk_vm w) (ws_vmm s)" for w
    using elem[OF that(1)] that(2,3) wake_invD(4)[OF inv] seen by auto
  show ?thesis
  proof (rule wake_invI, unfold fields)
    show "lc_inv (ws_vmm s, ws_jobs s)" by (rule wake_invD(1)[OF inv])
    show "\<And>w. w \<in> set ?ws \<Longrightarrow> \<not> returned (wk_phase w) \<Longrightarrow> known (wk_vm w) (ws_vmm s) \<Longrightarrow>
       map_of (kl_map (ws_locks s)) (wk_vm w) = Some (wk_lock w)" by (rule reg)
    show "\<And>m n. m < length ?ws \<Longrightarrow> n < length ?ws \<Longrightarrow> m \<noteq> n \<Longrightarrow> past_lock (wk_phase (?ws ! m)) \<Longrightarrow>
       past_lock (wk_phase (?ws ! n)) \<Longrightarrow> wk_lock (?ws ! m) \<noteq> wk_lock (?ws ! n)" by (rule locks)
    show "\<And>w. w \<in> set ?ws \<Longrightarrow> wk_phase w = SeenSuspended \<Longrightarrow> known (wk_vm w) (ws_vmm s) \<Longrightarrow>
       vm_state_of (wk_vm w) (ws_vmm s) = Some Suspended" by (rule susp)
    show "\<And>vm. vm \<in> set (ws_destroys s) \<Longrightarrow> \<not> known vm (ws_vmm s)" by (rule wake_invD(5)[OF inv])
    show "\<And>w j. w \<in> set ?ws \<Longrightarrow> wk_phase w = Restores j \<Longrightarrow> jb_op j = OpRestore"
      using elem wake_invD(6)[OF inv] op by fastforce
  qed
qed

lemma vmm_keeps_inv:
  assumes inv: "wake_inv s" and step: "sys_step (ws_vmm s, ws_jobs s) (v', js')"
    and ids: "\<And>vm. vm \<in> asked s \<Longrightarrow> known vm v' \<Longrightarrow> known vm (ws_vmm s)"
    and restores: "\<And>w j. w \<in> set (ws_wakers s) \<Longrightarrow> wk_phase w = SeenSuspended \<Longrightarrow> known (wk_vm w) v' \<Longrightarrow>
      j \<in> set js' - set (ws_jobs s) \<Longrightarrow> jb_op j = OpRestore \<Longrightarrow> jb_vm j \<noteq> wk_vm w"
  shows "wake_inv (s\<lparr>ws_vmm := v', ws_jobs := js'\<rparr>)"
proof -
  have ask: "wk_vm w \<in> asked s" if "w \<in> set (ws_wakers s)" "\<not> returned (wk_phase w)" for w
    using that by (auto simp: asked_def)
  have seen: "vm_state_of (wk_vm w) v' = Some Suspended"
    if w: "w \<in> set (ws_wakers s)" "wk_phase w = SeenSuspended" "known (wk_vm w) v'" for w
  proof (rule suspended_stays[OF wake_invD(1)[OF inv] step])
    have "known (wk_vm w) (ws_vmm s)" using ids ask w by simp
    then show "vm_state_of (wk_vm w) (ws_vmm s) = Some Suspended" by (rule wake_invD(4)[OF inv w(1,2)])
    show "\<forall>j \<in> set js' - set (ws_jobs s). jb_op j = OpRestore \<longrightarrow> jb_vm j \<noteq> wk_vm w"
      using restores[OF w] by blast
  qed (rule w(3))
  have des: "\<not> known vm v'" if "vm \<in> set (ws_destroys s)" for vm
    using wake_invD(5)[OF inv that] ids[of vm] that unfolding asked_def by blast
  show ?thesis
  proof (rule wake_invI)
    show "lc_inv (ws_vmm (s\<lparr>ws_vmm := v', ws_jobs := js'\<rparr>), ws_jobs (s\<lparr>ws_vmm := v', ws_jobs := js'\<rparr>))"
      using step_keeps_inv[OF step wake_invD(1)[OF inv]] by simp
  qed (use wake_invD(2,3,6)[OF inv] seen des ids ask in auto)
qed

lemma lock_for_cases:
  "lock_for key l = (l', n) \<Longrightarrow> map_of (kl_map l') key = Some n \<and> (\<forall>x m. map_of (kl_map l) x = Some m \<longrightarrow> map_of (kl_map l') x = Some m)"
  by (auto simp: lock_for_def map_simps split: option.splits)

lemma call_keeps_inv: "wake_inv s \<Longrightarrow> wake_inv (wake_call vm_id s)"
proof (rule wake_invI)
  assume inv: "wake_inv s"
  obtain l n where l: "lock_for vm_id (ws_locks s) = (l, n)" by (metis surj_pair)
  note lf = lock_for_cases[OF l]
  have d: "wake_call vm_id s = s\<lparr>ws_locks := l, ws_wakers := ws_wakers s @ [\<lparr>wk_vm = vm_id, wk_lock = n, wk_phase = Queued\<rparr>]\<rparr>"
    by (simp add: wake_call_def l)
  show "lc_inv (ws_vmm (wake_call vm_id s), ws_jobs (wake_call vm_id s))" using wake_invD(1)[OF inv] by (simp add: d)
  show "map_of (kl_map (ws_locks (wake_call vm_id s))) (wk_vm w) = Some (wk_lock w)"
    if "w \<in> set (ws_wakers (wake_call vm_id s))" "\<not> returned (wk_phase w)" "known (wk_vm w) (ws_vmm (wake_call vm_id s))" for w
    using that wake_invD(2)[OF inv, of w] lf by (auto simp: d)
  show "wk_lock (ws_wakers (wake_call vm_id s) ! k) \<noteq> wk_lock (ws_wakers (wake_call vm_id s) ! m)"
    if "k < length (ws_wakers (wake_call vm_id s))" "m < length (ws_wakers (wake_call vm_id s))" "k \<noteq> m"
      "past_lock (wk_phase (ws_wakers (wake_call vm_id s) ! k))" "past_lock (wk_phase (ws_wakers (wake_call vm_id s) ! m))" for k m
    using that wake_invD(3)[OF inv, of k m] by (auto simp: d nth_append less_Suc_eq split: if_splits)
qed (use wake_invD(4,5,6) in \<open>auto simp: wake_call_def split: prod.splits\<close>)

lemma keeps_but_known: "keeps_but r v v' \<Longrightarrow> known vm v' \<longleftrightarrow> known vm v"
  unfolding keeps_but_def by (metis map_option_is_None)

lemma set_phase_commute:
  "set_phase k p (s\<lparr>ws_vmm := v, ws_jobs := js\<rparr>) = (set_phase k p s)\<lparr>ws_vmm := v, ws_jobs := js\<rparr>"
  "ws_vmm (set_phase k p s) = ws_vmm s" "ws_jobs (set_phase k p s) = ws_jobs s"
  "ws_wakers (set_phase k p s) = (ws_wakers s)[k := (ws_wakers s ! k)\<lparr>wk_phase := p\<rparr>]"
  by (simp_all add: set_phase_def)

lemma restore_keeps_inv:
  assumes inv: "wake_inv s" and k: "k < length (ws_wakers s)" and st: "wake_restore k s = Some s'"
  shows "wake_inv s'"
proof -
  let ?w = "ws_wakers s ! k"
  have ph: "wk_phase ?w = SeenSuspended" using st by (simp add: wake_restore_def split: if_splits)
  obtain v' res where en: "restore_enter (wk_vm ?w) (ws_vmm s) = (v', res)" by (metis surj_pair)
  show ?thesis
  proof (cases res)
    case (Inl e)
    then have "v' = ws_vmm s"
      using en by (auto simp: restore_enter_def inst_transition_def split: sum.splits option.splits prod.splits)
    then have "s' = set_phase k (Returned (Inl e)) s" using st ph en Inl by (simp add: wake_restore_def)
    then show ?thesis using phase_keeps_inv[OF inv k, of "Returned (Inl e)"] ph by simp
  next
    case (Inr j)
    let ?s = "set_phase k (Restores j) s"
    have le: "lifecycle_enter OpRestore (wk_vm ?w) (ws_vmm s) = (v', Inr j)"
      using en Inr by (simp add: lifecycle_enter_def)
    note kb = enter_keeps_but[OF le]
    have s': "s' = ?s\<lparr>ws_vmm := v', ws_jobs := j # ws_jobs s\<rparr>"
      using st ph en Inr by (simp add: wake_restore_def set_phase_commute)
    have inv1: "wake_inv ?s" by (rule phase_keeps_inv[OF inv k]) (use ph kb in simp_all)
    show ?thesis unfolding s'
    proof (rule vmm_keeps_inv[OF inv1])
      show "sys_step (ws_vmm ?s, ws_jobs ?s) (v', j # ws_jobs s)"
        unfolding set_phase_commute by (rule sys_step.Enter[OF le])
      show "known vm (ws_vmm ?s)" if "known vm v'" for vm
        using that kb keeps_but_known[of "jb_ref j" "ws_vmm s" v' vm] by (simp add: set_phase_commute)
      fix w j' assume w: "w \<in> set (ws_wakers ?s)" "wk_phase w = SeenSuspended" "known (wk_vm w) v'"
        and j': "j' \<in> set (j # ws_jobs s) - set (ws_jobs ?s)"
      obtain m where m: "m < length (ws_wakers ?s)" "w = ws_wakers ?s ! m" using w(1) by (metis in_set_conv_nth)
      have len: "length (ws_wakers ?s) = length (ws_wakers s)" by (simp add: set_phase_commute)
      have k': "wk_vm (ws_wakers ?s ! k) = wk_vm ?w" "wk_phase (ws_wakers ?s ! k) = Restores j"
        using k by (simp_all add: set_phase_commute)
      have "jb_vm j \<noteq> wk_vm w"
      proof
        assume same: "jb_vm j = wk_vm w"
        have "known (wk_vm w) (ws_vmm ?s)"
          using w(3) kb keeps_but_known[of "jb_ref j" "ws_vmm s" v'] by (simp add: set_phase_commute)
        then have "k = m"
        proof (rule one_past_lock[OF inv1, rotated 4])
          show "k < length (ws_wakers ?s)" "m < length (ws_wakers ?s)" using k m(1) len by simp_all
          show "wk_vm (ws_wakers ?s ! k) = wk_vm w" using k'(1) same kb by simp
          show "past_lock (wk_phase (ws_wakers ?s ! k))" unfolding k'(2) by simp
        qed (use m(2) w(2) in simp_all)
        then show False using m(2) k'(2) w(2) by simp
      qed
      then show "jb_vm j' \<noteq> wk_vm w" using j' by (auto simp: set_phase_commute)
    qed
  qed
qed

lemma restored_keeps_inv:
  assumes inv: "wake_inv s" and k: "k < length (ws_wakers s)" and st: "wake_restored now outcome k s = Some s'"
  shows "wake_inv s'"
proof -
  obtain j where ph: "wk_phase (ws_wakers s ! k) = Restores j" "j \<in> set (ws_jobs s)"
    using st by (auto simp: wake_restored_def split: wake_phase.splits if_splits)
  obtain v' r where fin: "restore_finish now outcome j (ws_vmm s) = (v', r)" by (metis surj_pair)
  let ?s = "set_phase k (Returned r) s"
  have s': "s' = ?s\<lparr>ws_vmm := v', ws_jobs := remove1 j (ws_jobs s)\<rparr>"
    using st ph fin by (simp add: wake_restored_def set_phase_commute)
  have inv1: "wake_inv ?s" by (rule phase_keeps_inv[OF inv k]) (use ph in simp_all)
  have op: "jb_op j = OpRestore" by (rule wake_invD(6)[OF inv nth_mem[OF k] ph(1)])
  have kb: "keeps_but (jb_ref j) (ws_vmm s) v'"
    using restore_finish_keeps_but[of j "ws_vmm s" now outcome] fin by simp
  show ?thesis unfolding s'
  proof (rule vmm_keeps_inv[OF inv1])
    show "sys_step (ws_vmm ?s, ws_jobs ?s) (v', remove1 j (ws_jobs s))"
      unfolding set_phase_commute using sys_step.RestoreDone[OF ph(2) op, of "ws_vmm s" now outcome] fin by simp
    show "known vm (ws_vmm ?s)" if "known vm v'" for vm
      using that keeps_but_known[OF kb] by (simp add: set_phase_commute)
  qed (auto simp: set_phase_commute dest: notin_set_remove1)
qed

lemma destroy_keeps_wake_inv: "wake_inv s \<Longrightarrow> wake_inv (wake_destroy (os :: 'h host_os) to_json vm_id s)"
proof -
  assume inv: "wake_inv s"
  obtain v' r where d: "destroy_vm os to_json vm_id (ws_vmm s) = (v', r)" by (metis surj_pair)
  then have v': "map_of (fm_vms v') vm = (if vm = vm_id then None else map_of (fm_vms (ws_vmm s)) vm)" for vm
    using destroy_vm_view(3)[of os to_json vm_id "ws_vmm s"] by simp
  have "wake_inv (s\<lparr>ws_vmm := v', ws_jobs := ws_jobs s\<rparr>)"
    by (rule vmm_keeps_inv[OF inv]) (use sys_step.Destroy[of "ws_vmm s" "ws_jobs s" os to_json vm_id] d v' in \<open>auto split: if_splits\<close>)
  then have inv1: "wake_inv (s\<lparr>ws_vmm := v'\<rparr>)" by simp
  have "wake_inv (s\<lparr>ws_vmm := v', ws_destroys := vm_id # ws_destroys s\<rparr>)"
  proof (rule wake_invI)
    show "\<not> known vm (ws_vmm (s\<lparr>ws_vmm := v', ws_destroys := vm_id # ws_destroys s\<rparr>))"
      if "vm \<in> set (ws_destroys (s\<lparr>ws_vmm := v', ws_destroys := vm_id # ws_destroys s\<rparr>))" for vm
      using that wake_invD(5)[OF inv, of vm] v' by (cases "vm = vm_id") simp_all
  qed (use wake_invD(1-4,6)[OF inv1] in auto)
  with inv1 d show ?thesis by (cases r) (simp_all add: wake_destroy_def)
qed

lemma forget_keeps_inv:
  assumes inv: "wake_inv s" and vm: "vm_id \<in> set (ws_destroys s)"
  shows "wake_inv (wake_forget vm_id s)"
proof (rule wake_invI)
  show "map_of (kl_map (ws_locks (wake_forget vm_id s))) (wk_vm w) = Some (wk_lock w)"
    if "w \<in> set (ws_wakers (wake_forget vm_id s))" "\<not> returned (wk_phase w)" "known (wk_vm w) (ws_vmm (wake_forget vm_id s))" for w
    using that wake_invD(2)[OF inv, of w] wake_invD(5)[OF inv vm] by (auto simp: wake_forget_def lock_forget_def map_simps)
  show "\<not> known vm (ws_vmm (wake_forget vm_id s))" if "vm \<in> set (ws_destroys (wake_forget vm_id s))" for vm
    using that wake_invD(5)[OF inv, of vm] notin_set_remove1 by (fastforce simp: wake_forget_def)
qed (use wake_invD(1,3,4,6)[OF inv] in \<open>auto simp: wake_forget_def\<close>)

lemma wake_step_keeps_inv: "wake_step False s s' \<Longrightarrow> wake_inv s \<Longrightarrow> wake_inv s'"
proof (induction rule: wake_step.induct)
  case (Call s vm_id)
  then show ?case by (simp add: call_keeps_inv)
next
  case (Acquire k s now s')
  then show ?case using phase_keeps_inv[of s k "Polling (now + 30000)"]
    by (auto simp: wake_acquire_def split: if_splits)
next
  case (Look k s now s')
  then obtain d where d: "wk_phase (ws_wakers s ! k) = Polling d"
    "s' = set_phase k (wake_seen (wk_vm (ws_wakers s ! k)) d now (vm_state_of (wk_vm (ws_wakers s ! k)) (ws_vmm s))) s"
    by (cases "wk_phase (ws_wakers s ! k)") (simp_all add: wake_look_def Let_def)
  show ?case unfolding d(2)
    by (rule phase_keeps_inv[OF Look(3,1)])
      (use d(1) in \<open>auto simp: wake_seen_def split: option.splits vm_state.splits if_splits\<close>)
next
  case (Rest s v' js')
  then show ?case by (intro vmm_keeps_inv) auto
qed (auto intro: restore_keeps_inv restored_keeps_inv destroy_keeps_wake_inv forget_keeps_inv)

lemma wake_reachable_inv: "wake_reachable False s \<Longrightarrow> wake_inv s"
proof -
  assume "wake_reachable False s"
  then obtain s0 where s0: "wake_init s0" "(wake_step False)\<^sup>*\<^sup>* s0 s" by blast
  have "lc_inv (ws_vmm s0, ws_jobs s0)" using reachable_inv s0(1) by (auto simp: wake_init_def)
  then have "wake_inv s0" using s0(1) by (simp add: wake_inv_def wake_init_def)
  with s0(2) show ?thesis by (induction rule: rtranclp_induct) (auto intro: wake_step_keeps_inv)
qed

section \<open>Wakers do not spoil each other\<close>


text \<open>A call that finds its VM suspended.\<close>

lemma waker_sees:
  assumes "wake_init s" "vm_state_of vm (ws_vmm s) = Some Suspended"
  obtains l n where "(wake_step api)\<^sup>*\<^sup>* s
    (s\<lparr>ws_locks := l, ws_wakers := [\<lparr>wk_vm = vm, wk_lock = n, wk_phase = SeenSuspended\<rparr>]\<rparr>)"
proof -
  obtain l n where l: "lock_for vm (ws_locks s) = (l, n)" by (metis surj_pair)
  let ?at = "\<lambda>p. s\<lparr>ws_locks := l, ws_wakers := [\<lparr>wk_vm = vm, wk_lock = n, wk_phase = p\<rparr>]\<rparr>"
  have "wake_step api s (?at Queued)"
    using wake_step.Call[of api s vm] assms(1) l by (simp add: wake_call_def wake_init_def)
  moreover have "wake_step api (?at Queued) (?at (Polling (0 + 30000)))"
    by (rule wake_step.Acquire[of 0 _ 0]) (simp_all add: wake_acquire_def lock_free_def set_phase_def)
  moreover have "wake_step api (?at (Polling (0 + 30000))) (?at SeenSuspended)"
    by (rule wake_step.Look[of 0 _ 0]) (simp_all add: wake_look_def wake_seen_def set_phase_def assms(2))
  ultimately have "(wake_step api)\<^sup>*\<^sup>* s (?at SeenSuspended)" by (meson converse_rtranclp_into_rtranclp r_into_rtranclp)
  then show thesis by (rule that)
qed

text \<open>A restore asked for through the API can come between the look and the restore of a waker, which then fails
  although the VM is on its way up.\<close>

theorem waker_overtaken:
  assumes "wake_init s" "vm_state_of vm (ws_vmm s) = Some Suspended"
  shows "\<exists>s'. (wake_step True)\<^sup>*\<^sup>* s s' \<and> vm_state_of vm (ws_vmm s') = Some Restoring \<and>
    map wk_phase (ws_wakers s') = [Returned (Inl (InvalidStateTransition Restoring Restoring))]"
proof -
  have inv: "lc_inv (ws_vmm s, ws_jobs s)" using reachable_inv assms(1) by (auto simp: wake_init_def)
  obtain e i where e: "map_of (fm_vms (ws_vmm s)) vm = Some e" "inst (ws_vmm s) (fe_instance e) = Some i"
    "vi_state i = Suspended" using assms(2) by (auto simp: vm_state_of_def bind_eq_Some_conv)
  obtain snap where snap: "vi_snapshot i = Some snap" using lc_invD(2)[OF inv e(2)] e(3) by (auto simp: suspended_state_def)
  let ?v = "set_inst (fe_instance e) (\<lambda>i. i\<lparr>vi_state := Restoring\<rparr>) (ws_vmm s)"
  let ?j = "\<lparr>jb_vm = vm, jb_ref = fe_instance e, jb_op = OpRestore, jb_snapshot = Some snap, jb_stopped = False\<rparr>"
  let ?err = "Inl (InvalidStateTransition Restoring Restoring)"
  have tr: "can_transition_to Suspended Restoring" "\<not> can_transition_to Restoring Restoring"
    by (simp_all add: can_transition_to.simps)
  obtain l n where seen: "(wake_step True)\<^sup>*\<^sup>* s (s\<lparr>ws_locks := l, ws_wakers := [\<lparr>wk_vm = vm, wk_lock = n, wk_phase = SeenSuspended\<rparr>]\<rparr>)"
    by (rule waker_sees[OF assms])
  let ?s3 = "s\<lparr>ws_locks := l, ws_wakers := [\<lparr>wk_vm = vm, wk_lock = n, wk_phase = SeenSuspended\<rparr>]\<rparr>"
  let ?s4 = "?s3\<lparr>ws_vmm := ?v, ws_jobs := ?j # ws_jobs s\<rparr>"
  let ?s5 = "set_phase 0 (Returned ?err) ?s4"
  have st4: "wake_step True ?s3 ?s4"
  proof (rule wake_step.Rest)
    have "lifecycle_enter OpRestore vm (ws_vmm s) = (?v, Inr ?j)"
      using e snap tr by (simp add: lifecycle_enter_def restore_enter_def entry_parts_def inst_transition_ok)
    then show "sys_step (ws_vmm ?s3, ws_jobs ?s3) (?v, ?j # ws_jobs s)" by (simp add: sys_step.Enter)
  qed (use assms(1) in \<open>simp_all add: wake_init_def\<close>)
  have st5: "wake_step True ?s4 ?s5"
  proof (rule wake_step.Restore[of 0])
    have "restore_enter vm ?v = (?v, ?err)"
      using e snap tr by (simp add: restore_enter_def entry_parts_def inst_transition_def inst_set_inst transition_def)
    then show "wake_restore 0 ?s4 = Some ?s5" by (simp add: wake_restore_def set_phase_def)
  qed simp
  have "(wake_step True)\<^sup>*\<^sup>* s ?s5"
    using rtranclp.rtrancl_into_rtrancl[OF rtranclp.rtrancl_into_rtrancl[OF seen st4] st5] .
  moreover have "vm_state_of vm (ws_vmm ?s5) = Some Restoring"
    using e by (simp add: vm_state_of_def inst_set_inst set_phase_def)
  ultimately show ?thesis by (intro exI[of _ ?s5]) (simp add: set_phase_def)
qed

section \<open>Locks of VMs that never were\<close>

text \<open>A call for an id that no VM has leaves its lock in the map.\<close>

lemma unknown_lock_stays:
  assumes "wake_step api s s'" "map_of (kl_map (ws_locks s)) vm = Some n"
    "\<not> known vm (ws_vmm s)" "vm \<notin> set (ws_destroys s)"
  shows "map_of (kl_map (ws_locks s')) vm = Some n \<and> vm \<notin> set (ws_destroys s')"
  using assms
proof (cases rule: wake_step.cases)
  case (Call vm_id)
  obtain l m where "lock_for vm_id (ws_locks s) = (l, m)" by (metis surj_pair)
  then show ?thesis using Call assms lock_for_cases by (fastforce simp: wake_call_def)
next
  case (Destroying os to_json vm_id)
  then show ?thesis using assms by (auto simp: wake_destroy_def destroy_vm_def Let_def split: option.splits prod.splits)
next
  case (Forget vm_id)
  then show ?thesis using assms by (auto simp: wake_forget_def lock_forget_def map_simps dest: notin_set_remove1)
qed (auto simp: wake_acquire_def wake_look_def wake_restore_def wake_restored_def set_phase_def Let_def
    split: if_splits wake_phase.splits prod.splits sum.splits)

section \<open>On a concrete VM\<close>

lemma reachable_step: "reachable s \<Longrightarrow> sys_step s s' \<Longrightarrow> reachable s'"
  by (meson rtranclp.rtrancl_into_rtrancl)

lemma demo_asleep:
  obtains v where "reachable (v :: unit vmm, [])" "vm_state_of ''vm-7-'' v = Some Suspended"
proof (rule demo_starting)
  fix v :: "unit vmm" and e i j
  assume a: "reachable (v, [j])" "map_of (fm_vms v) ''vm-7-'' = Some e" "inst v (fe_instance e) = Some i"
    "vi_state i = Starting" "jb_op j = OpStart"
  note inv = reachable_inv[OF a(1)]
  have r: "jb_ref j = fe_instance e"
    using lc_invD(5)[OF inv a(2)] a(3,4) by (auto simp: entry_ok_def transitional_def)
  have tr: "can_transition_to Starting Started" "can_transition_to Started Suspending" "can_transition_to Suspending Suspended"
    by (simp_all add: can_transition_to.simps)
  let ?vm = "''vm-7-''" and ?r = "fe_instance e"
  let ?v1 = "fst (start_finish 5 (Inr ()) (Inr ()) j v)"
  have v1: "inst ?v1 ?r = Some (i\<lparr>vi_state := Started\<rparr>)" "map_of (fm_vms ?v1) ?vm = Some e"
    using a(2-4) tr(1) r by (simp_all add: start_finish_def leave_ok inst_set_inst)
  have s1: "reachable (?v1, [])"
    using reachable_step[OF a(1) sys_step.StartDone[of j "[j]" v 5 "Inr ()" "Inr ()"]] a(5) by simp
  let ?v2 = "set_inst ?r (\<lambda>i. i\<lparr>vi_state := Suspending\<rparr>) ?v1"
  let ?k = "\<lparr>jb_vm = ?vm, jb_ref = ?r, jb_op = OpSnapshot, jb_snapshot = None, jb_stopped = False\<rparr>"
  have "lifecycle_enter OpSnapshot ?vm ?v1 = (?v2, Inr ?k)"
    using v1 tr(2) by (simp add: lifecycle_enter_def op_enter_def entry_parts_def inst_transition_ok)
  from reachable_step[OF s1 sys_step.Enter[OF this]] have s2: "reachable (?v2, [?k])" .
  obtain v3 k' where stop: "snapshot_stop 6 ?k ?v2 = (v3, k')" by (metis surj_pair)
  then have k': "jb_op k' = OpSnapshot" "jb_stopped k'" "jb_ref k' = ?r" by (auto simp: snapshot_stop_def Let_def)
  have s3: "reachable (v3, [k'])"
    using reachable_step[OF s2 sys_step.SnapshotStop[OF _ _ _ stop, of "[?k]"]] by simp
  have v3: "inst v3 ?r = Some (i\<lparr>vi_state := Suspending\<rparr>)" "map_option fe_instance (map_of (fm_vms v3) ?vm) = Some ?r"
    using stop v1 by (auto simp: snapshot_stop_def Let_def inst_set_inst vms_set_entry)
  obtain v4 where v4: "snapshot_finish k' v3 = (v4, Inr (jb_snapshot k'))" "fm_vms v4 = fm_vms v3"
    "inst v4 = (inst v3)(?r \<mapsto> i\<lparr>vi_snapshot := jb_snapshot k', vi_state := Suspended\<rparr>)"
    using snapshot_finish_cases[of v3 k' "i\<lparr>vi_state := Suspending\<rparr>"] v3(1) k'(3) by auto
  have "reachable (v4, [])"
    using reachable_step[OF s3 sys_step.SnapshotDone[of k' "[k']" v3]] k' v4(1) by simp
  moreover have "vm_state_of ?vm v4 = Some Suspended" using v3(2) v4(2,3) by (auto simp: vm_state_of_def)
  ultimately show thesis by (rule that)
qed

definition demo_wake_sys :: "unit vmm \<Rightarrow> unit wake_sys" where
  "demo_wake_sys v = \<lparr>ws_vmm = v, ws_jobs = [], ws_locks = \<lparr>kl_map = [], kl_next = 0\<rparr>, ws_wakers = [], ws_destroys = []\<rparr>"


lemma waker_overtaken_witness:
  "\<exists>s s' :: unit wake_sys. wake_init s \<and> (wake_step True)\<^sup>*\<^sup>* s s' \<and>
     map wk_phase (ws_wakers s') = [Returned (Inl (InvalidStateTransition Restoring Restoring))]"
proof (rule demo_asleep)
  fix v :: "unit vmm" assume v: "reachable (v, [])" "vm_state_of ''vm-7-'' v = Some Suspended"
  then have init: "wake_init (demo_wake_sys v)" "vm_state_of ''vm-7-'' (ws_vmm (demo_wake_sys v)) = Some Suspended"
    by (simp_all add: demo_wake_sys_def wake_init_def)
  obtain s' where "(wake_step True)\<^sup>*\<^sup>* (demo_wake_sys v) s'"
    "map wk_phase (ws_wakers s') = [Returned (Inl (InvalidStateTransition Restoring Restoring))]"
    using waker_overtaken[OF init] by auto
  with init(1) show ?thesis by (intro exI[of _ "demo_wake_sys v"] exI[of _ s']) simp
qed

lemma dropped_operation_wedges_witness:
  "\<exists>(v :: unit vmm) j. reachable (v, [j]) \<and> jb_op j = OpStart \<and> cancel_step (v, [j]) (v, []) \<and>
     map_option vi_state (inst v (jb_ref j)) = Some Starting"
proof (rule demo_starting)
  fix v :: "unit vmm" and e i j
  assume a: "reachable (v, [j])" "jb_op j = OpStart"
  have "cancel_step (v, [j]) (v, [])" using cancel_step.Drops[of j "[j]" v] by simp
  moreover have "map_option vi_state (inst v (jb_ref j)) = Some Starting"
    using dropped_operation_wedges[OF a(1), of j v "[]"] a(2) by simp
  ultimately show ?thesis using a by blast
qed

end
