(* ===== verification/Inventory.thy ===== *)
theory Inventory
  imports Api VmtopApp "HOL-Library.Monad_Syntax"
begin

text \<open>
  The JSON of the API's answers: what hostd's \<open>Serialize\<close> derives print for its records (\<open>vmm/vm.rs\<close>,
  \<open>vmm/workload.rs\<close>, \<open>net/types.rs\<close>, \<open>net/cidr.rs\<close>), field by field and with their attributes, and what the
  \<open>Deserialize\<close> derives of vmtop (\<open>vmtop/src/model.rs\<close>) accept.  The text of a time is chrono's and a parameter.
\<close>

section \<open>What hostd prints\<close>

fun state_wire :: "vm_state \<Rightarrow> string" where
  "state_wire Creating = ''creating''"
| "state_wire Starting = ''starting''"
| "state_wire Pausing = ''pausing''"
| "state_wire Resuming = ''resuming''"
| "state_wire Suspending = ''suspending''"
| "state_wire Restoring = ''restoring''"
| "state_wire Destroying = ''destroying''"
| "state_wire Created = ''created''"
| "state_wire Started = ''started''"
| "state_wire Paused = ''paused''"
| "state_wire Suspended = ''suspended''"
| "state_wire Destroyed = ''destroyed''"

fun mode_wire :: "vm_mode \<Rightarrow> string" where
  "mode_wire Ephemeral = ''ephemeral''"
| "mode_wire Permanent = ''permanent''"
| "mode_wire ScheduleMode = ''schedule''"

definition json_nat :: "nat \<Rightarrow> json" where
  "json_nat n = JNum (int n)"

definition port_json :: "exposed_port \<Rightarrow> json" where
  "port_json p = JObj [(''port'', json_nat (unat (ep_port p))), (''label'', JStr (ep_label p))]"

definition network_json :: "network_config \<Rightarrow> json" where
  "network_json n = JObj
     [(''allow_internet'', JBool (allow_internet n)), (''exposed_ports'', JArr (map port_json (exposed_ports n))),
      (''egress'', JArr (map JStr (egress n))), (''public_access'', JBool (public_access n))]"

definition subnet_json :: "ipv4net \<Rightarrow> json" where
  "subnet_json n = JStr (net_display n)"

definition net_json :: "vm_net \<Rightarrow> json" where
  "net_json n = JObj
     [(''tap_name'', JStr (vn_tap_name n)), (''guest_ip'', JStr (ipv4_display (vn_guest_ip n))),
      (''gateway_ip'', JStr (ipv4_display (vn_gateway_ip n))), (''subnet'', subnet_json (vn_subnet n)),
      (''guest_mac'', JStr (vn_guest_mac n))]"

definition env_json :: "env_var \<Rightarrow> json" where
  "env_json e = JObj [(''key'', JStr (ev_key e)), (''value'', JStr (ev_value e))]"

definition auto_suspend_json :: "auto_suspend_config \<Rightarrow> json" where
  "auto_suspend_json a = JObj
     [(''idle_timeout_secs'', json_nat (asc_idle_timeout_secs a)),
      (''idle_check_cmd'', JArr (map JStr (asc_idle_check_cmd a))),
      (''check_interval_secs'', json_nat (asc_check_interval_secs a))]"

definition block_storage_json :: "block_storage_config \<Rightarrow> json" where
  "block_storage_json b = JObj
     [(''size_mb'', json_nat (bs_size_mb b)), (''chunk_kb'', json_opt json_nat (bs_chunk_kb b)),
      (''mount_path'', JStr (bs_mount_path b))]"

definition config_json :: "vm_config \<Rightarrow> json" where
  "config_json c = JObj
     [(''name'', JStr (vc_name c)), (''project_id'', json_nat (vc_project_id c)), (''mode'', JStr (mode_wire (vc_mode c))),
      (''image'', JStr (vc_image c)), (''cpus'', json_nat (vc_cpus c)), (''memory_mb'', json_nat (vc_memory_mb c)),
      (''disk_size_mb'', json_nat (vc_disk_size_mb c)), (''network_config'', network_json (vc_network_config c)),
      (''ssh_access'', JBool (vc_ssh_access c)), (''env'', JArr (map env_json (vc_env c))),
      (''cmd'', JArr (map JStr (vc_cmd c))), (''services'', JArr (map JStr (vc_services c))),
      (''cron_schedule'', json_opt JStr (vc_cron_schedule c)), (''timeout_secs'', json_opt json_nat (vc_timeout_secs c)),
      (''tags'', JArr (map JStr (vc_tags c))), (''auto_suspend'', json_opt auto_suspend_json (vc_auto_suspend c)),
      (''block_storage'', json_opt block_storage_json (vc_block_storage c))]"

definition snapshot_json :: "(instant \<Rightarrow> string) \<Rightarrow> vm_snapshot \<Rightarrow> json" where
  "snapshot_json show_time s = JObj
     [(''state_path'', JStr (sn_state_path s)), (''mem_path'', JStr (sn_mem_path s)),
      (''created_at'', JStr (show_time (sn_created_at s)))]"

definition instance_json :: "(instant \<Rightarrow> string) \<Rightarrow> vm_instance \<Rightarrow> json" where
  "instance_json show_time i = JObj
     [(''vm_id'', JStr (vi_vm_id i)), (''state'', JStr (state_wire (vi_state i))), (''work_dir'', JStr (vi_work_dir i)),
      (''socket_path'', JStr (vi_socket_path i)), (''kernel_path'', JStr (vi_kernel_path i)),
      (''initramfs_path'', JStr (vi_initramfs_path i)), (''boot_args'', JStr (vi_boot_args i)),
      (''rootfs_path'', JStr (vi_rootfs_path i)), (''overlay_disk'', JStr (vi_overlay_disk i)),
      (''block_device'', json_opt JStr (vi_block_device i)), (''net'', json_opt net_json (vi_net i)),
      (''guest_cid'', json_opt (json_nat \<circ> unat) (vi_guest_cid i)), (''vsock_uds_path'', JStr (vi_vsock_uds_path i)),
      (''snapshot'', json_opt (snapshot_json show_time) (vi_snapshot i)), (''serial_log'', JStr (vi_serial_log i)),
      (''error_log'', JStr (vi_error_log i)), (''created_at'', JStr (show_time (vi_created_at i))),
      (''vm_config'', config_json (vi_vm_config i))]"

fun wl_state_wire :: "workload_state \<Rightarrow> string" where
  "wl_state_wire WlStarting = ''starting''"
| "wl_state_wire WlRunning = ''running''"
| "wl_state_wire WlExited = ''exited''"
| "wl_state_wire WlStopped = ''stopped''"
| "wl_state_wire WlFailed = ''failed''"

fun origin_wire :: "workload_origin \<Rightarrow> string" where
  "origin_wire ApiOrigin = ''api''"
| "origin_wire ScheduleOrigin = ''schedule''"

definition spec_json :: "workload_spec \<Rightarrow> json" where
  "spec_json s = JObj [(''cmd'', JArr (map JStr (ws_cmd s))), (''env'', JArr (map env_json (ws_env s))),
     (''cwd'', json_opt JStr (ws_cwd s))]"

text \<open>\<open>stop_requested\<close> is skipped.\<close>

definition workload_fields :: "(instant \<Rightarrow> string) \<Rightarrow> workload \<Rightarrow> (string \<times> json) list" where
  "workload_fields show_time w =
     [(''workload_id'', JStr (wl_id w)), (''vm_id'', JStr (wl_vm_id w)), (''spec'', spec_json (wl_spec w)),
      (''state'', JStr (wl_state_wire (wl_state w))), (''origin'', JStr (origin_wire (wl_origin w))),
      (''pid'', json_opt (json_nat \<circ> unat) (wl_pid w)), (''exit_code'', json_opt JNum (wl_exit_code w)),
      (''signal'', json_opt JNum (wl_signal w)), (''created_at'', JStr (show_time (wl_created_at w))),
      (''started_at'', json_opt (JStr \<circ> show_time) (wl_started_at w)),
      (''finished_at'', json_opt (JStr \<circ> show_time) (wl_finished_at w))]"

definition log_entry_json :: "(instant \<Rightarrow> string) \<Rightarrow> workload_log_entry \<Rightarrow> json" where
  "log_entry_json show_time e = JObj
     [(''ts'', JStr (show_time (le_ts e))), (''stream'', JStr (le_stream e)), (''data'', JStr (le_data e))]"

section \<open>What vmtop accepts\<close>

text \<open>A field of an object, if it is there; a field that is there twice is an error.\<close>

definition get_field :: "string \<Rightarrow> (string \<times> json) list \<Rightarrow> json option option" where
  "get_field k kvs = (case filter (\<lambda>kv. fst kv = k) kvs of [] \<Rightarrow> Some None | [kv] \<Rightarrow> Some (Some (snd kv)) | _ \<Rightarrow> None)"

definition de_field :: "string \<Rightarrow> (json \<Rightarrow> 'a option) \<Rightarrow> (string \<times> json) list \<Rightarrow> 'a option" where
  "de_field k f kvs = Option.bind (get_field k kvs) (\<lambda>x. case x of None \<Rightarrow> None | Some j \<Rightarrow> f j)"

text \<open>With \<open>serde(default)\<close>: the default of a missing field.\<close>

definition de_default :: "string \<Rightarrow> 'a \<Rightarrow> (json \<Rightarrow> 'a option) \<Rightarrow> (string \<times> json) list \<Rightarrow> 'a option" where
  "de_default k d f kvs = Option.bind (get_field k kvs) (\<lambda>x. case x of None \<Rightarrow> Some d | Some j \<Rightarrow> f j)"

fun de_option :: "(json \<Rightarrow> 'a option) \<Rightarrow> json \<Rightarrow> 'a option option" where
  "de_option f JNull = Some None"
| "de_option f j = map_option Some (f j)"

fun de_string :: "json \<Rightarrow> string option" where
  "de_string (JStr s) = Some s"
| "de_string _ = None"

fun de_uint :: "nat \<Rightarrow> json \<Rightarrow> nat option" where
  "de_uint bits (JNum n) = (if 0 \<le> n \<and> n < 2 ^ bits then Some (nat n) else None)"
| "de_uint bits _ = None"

fun de_array :: "(json \<Rightarrow> 'a option) \<Rightarrow> json \<Rightarrow> 'a list option" where
  "de_array f (JArr js) = those (map f js)"
| "de_array f _ = None"

fun de_object :: "((string \<times> json) list \<Rightarrow> 'a option) \<Rightarrow> json \<Rightarrow> 'a option" where
  "de_object f (JObj kvs) = f kvs"
| "de_object f _ = None"

definition de_variant :: "('a \<Rightarrow> string) \<Rightarrow> 'a list \<Rightarrow> json \<Rightarrow> 'a option" where
  "de_variant name variants j = Option.bind (de_string j) (\<lambda>s. find (\<lambda>v. name v = s) variants)"

definition vt_states :: "vm_state list" where
  "vt_states = [Creating, Starting, Pausing, Resuming, Suspending, Restoring, Destroying, Created, Started, Paused,
     Suspended, Destroyed]"

text \<open>\<open>read_time\<close> is chrono's reader, \<open>v6\<close> the standard library's for an address that is not an IPv4 one.\<close>

record vt_reader =
  rd_time :: "string \<Rightarrow> instant option"
  rd_v6 :: "string \<Rightarrow> string option"

definition de_time :: "vt_reader \<Rightarrow> json \<Rightarrow> instant option" where
  "de_time rd j = Option.bind (de_string j) (rd_time rd)"

definition de_ip :: "vt_reader \<Rightarrow> json \<Rightarrow> string option" where
  "de_ip rd j = Option.bind (de_string j) (\<lambda>s. case parse_ipv4 s of Inr a \<Rightarrow> Some (ipv4_display a) | Inl _ \<Rightarrow> rd_v6 rd s)"

definition de_vt_net :: "vt_reader \<Rightarrow> json \<Rightarrow> vt_net option" where
  "de_vt_net rd = de_object (\<lambda>o'. do {
     tap \<leftarrow> de_field ''tap_name'' de_string o';
     ip \<leftarrow> de_field ''guest_ip'' (de_ip rd) o';
     gw \<leftarrow> de_field ''gateway_ip'' (de_ip rd) o';
     subnet \<leftarrow> de_field ''subnet'' de_string o';
     Some \<lparr>tn_tap_name = tap, tn_guest_ip = ip, tn_gateway_ip = gw, tn_subnet = subnet\<rparr> })"

definition de_vt_snapshot :: "vt_reader \<Rightarrow> json \<Rightarrow> instant option" where
  "de_vt_snapshot rd = de_object (de_field ''created_at'' (de_time rd))"

definition de_vt_port :: "json \<Rightarrow> nat option" where
  "de_vt_port = de_object (de_field ''port'' (de_uint 16))"

definition de_vt_network :: "json \<Rightarrow> nat list option" where
  "de_vt_network = de_object (de_default ''exposed_ports'' [] (de_array de_vt_port))"

definition de_vt_auto_suspend :: "json \<Rightarrow> nat option" where
  "de_vt_auto_suspend = de_object (de_field ''idle_timeout_secs'' (de_uint 64))"

definition de_vt_block_storage :: "json \<Rightarrow> nat option" where
  "de_vt_block_storage = de_object (de_field ''size_mb'' (de_uint 32))"

definition de_vt_config :: "json \<Rightarrow> vt_config option" where
  "de_vt_config = de_object (\<lambda>o'. do {
     name \<leftarrow> de_field ''name'' de_string o';
     project_id \<leftarrow> de_field ''project_id'' (de_uint 64) o';
     mode \<leftarrow> de_field ''mode'' (de_variant mode_wire [Ephemeral, Permanent, ScheduleMode]) o';
     image \<leftarrow> de_field ''image'' de_string o';
     cpus \<leftarrow> de_field ''cpus'' (de_uint 32) o';
     memory_mb \<leftarrow> de_field ''memory_mb'' (de_uint 32) o';
     disk_size_mb \<leftarrow> de_field ''disk_size_mb'' (de_uint 32) o';
     tags \<leftarrow> de_default ''tags'' [] (de_array de_string) o';
     ports \<leftarrow> de_default ''network_config'' [] de_vt_network o';
     idle \<leftarrow> de_default ''auto_suspend'' None (de_option de_vt_auto_suspend) o';
     block \<leftarrow> de_default ''block_storage'' None (de_option de_vt_block_storage) o';
     Some \<lparr>tc_name = name, tc_project_id = project_id, tc_mode = mode, tc_image = image, tc_cpus = of_nat cpus,
       tc_memory_mb = memory_mb, tc_disk_size_mb = disk_size_mb, tc_tags = tags, tc_exposed_ports = ports,
       tc_idle_timeout_secs = idle, tc_block_size_mb = block\<rparr> })"

definition de_vt_vm :: "vt_reader \<Rightarrow> json \<Rightarrow> vt_vm option" where
  "de_vt_vm rd = de_object (\<lambda>o'. do {
     vm_id \<leftarrow> de_field ''vm_id'' de_string o';
     state \<leftarrow> de_field ''state'' (de_variant vt_state_text vt_states) o';
     net \<leftarrow> de_default ''net'' None (de_option (de_vt_net rd)) o';
     snapshot \<leftarrow> de_default ''snapshot'' None (de_option (de_vt_snapshot rd)) o';
     created_at \<leftarrow> de_field ''created_at'' (de_time rd) o';
     config \<leftarrow> de_field ''vm_config'' de_vt_config o';
     Some \<lparr>tv_vm_id = vm_id, tv_state = state, tv_net = net, tv_snapshot = snapshot, tv_created_at = created_at,
       tv_config = config\<rparr> })"

section \<open>vmtop reads what hostd prints\<close>

definition vt_of_net :: "vm_net \<Rightarrow> vt_net" where
  "vt_of_net n = \<lparr>tn_tap_name = vn_tap_name n, tn_guest_ip = ipv4_display (vn_guest_ip n),
     tn_gateway_ip = ipv4_display (vn_gateway_ip n), tn_subnet = net_display (vn_subnet n)\<rparr>"

definition vt_of_config :: "vm_config \<Rightarrow> vt_config" where
  "vt_of_config c = \<lparr>tc_name = vc_name c, tc_project_id = vc_project_id c, tc_mode = vc_mode c, tc_image = vc_image c,
     tc_cpus = of_nat (vc_cpus c), tc_memory_mb = vc_memory_mb c, tc_disk_size_mb = vc_disk_size_mb c, tc_tags = vc_tags c,
     tc_exposed_ports = map (unat \<circ> ep_port) (exposed_ports (vc_network_config c)),
     tc_idle_timeout_secs = map_option asc_idle_timeout_secs (vc_auto_suspend c),
     tc_block_size_mb = map_option bs_size_mb (vc_block_storage c)\<rparr>"

definition vt_of_inst :: "vm_instance \<Rightarrow> vt_vm" where
  "vt_of_inst i = \<lparr>tv_vm_id = vi_vm_id i, tv_state = vi_state i, tv_net = map_option vt_of_net (vi_net i),
     tv_snapshot = map_option sn_created_at (vi_snapshot i), tv_created_at = vi_created_at i,
     tv_config = vt_of_config (vi_vm_config i)\<rparr>"

text \<open>The ranges of the Rust types, which the model's numbers do not carry.\<close>

definition config_ranges :: "vm_config \<Rightarrow> bool" where
  "config_ranges c \<longleftrightarrow> vc_project_id c < 2 ^ 64 \<and> vc_cpus c < 2 ^ 32 \<and> vc_memory_mb c < 2 ^ 32 \<and>
     vc_disk_size_mb c < 2 ^ 32 \<and> (case vc_auto_suspend c of None \<Rightarrow> True | Some a \<Rightarrow> asc_idle_timeout_secs a < 2 ^ 64) \<and>
     (case vc_block_storage c of None \<Rightarrow> True | Some b \<Rightarrow> bs_size_mb b < 2 ^ 32)"

lemma those_map: "(\<And>x. x \<in> set xs \<Longrightarrow> f x = Some (g x)) \<Longrightarrow> those (map f xs) = Some (map g xs)"
  by (induction xs) auto

lemma de_array_map: "(\<And>x. f (p x) = Some (g x)) \<Longrightarrow> de_array f (JArr (map p xs)) = Some (map g xs)"
  using those_map[of xs "f \<circ> p" g] by (simp add: comp_def)

lemma de_option_json: "(\<And>x. p x \<noteq> JNull) \<Longrightarrow> de_option f (json_opt p x) = (case x of None \<Rightarrow> Some None | Some y \<Rightarrow> map_option Some (f (p y)))"
proof (cases x)
  case (Some y)
  assume "\<And>x. p x \<noteq> JNull"
  then show ?thesis using Some by (cases "p y") (auto simp: json_opt_def)
qed (simp add: json_opt_def)

lemma de_state: "de_variant vt_state_text vt_states (JStr (state_wire st)) = Some st"
  by (cases st) (simp_all add: de_variant_def vt_states_def)

lemma de_mode: "de_variant mode_wire [Ephemeral, Permanent, ScheduleMode] (JStr (mode_wire m)) = Some m"
  by (cases m) (simp_all add: de_variant_def)

lemma de_nat: "n < 2 ^ b \<Longrightarrow> de_uint b (json_nat n) = Some n"
proof -
  assume "n < 2 ^ b"
  then have "int n < int (2 ^ b)" by linarith
  then show ?thesis by (simp add: json_nat_def)
qed

lemma de_ip_display: "de_ip rd (JStr (ipv4_display a)) = Some (ipv4_display a)"
  by (simp add: de_ip_def parse_ipv4_display)

lemmas de_simps = de_field_def de_default_def get_field_def

lemma de_port_json: "de_vt_port (port_json p) = Some (unat (ep_port p))"
proof -
  have "unat (ep_port p) < 2 ^ 16" using unsigned_less[of "ep_port p"] by simp
  then show ?thesis by (simp add: de_vt_port_def port_json_def de_simps de_nat)
qed

lemma de_network_json: "de_vt_network (network_json n) = Some (map (unat \<circ> ep_port) (exposed_ports n))"
proof -
  have "those (map (de_vt_port \<circ> port_json) (exposed_ports n)) = Some (map (unat \<circ> ep_port) (exposed_ports n))"
    by (rule those_map) (simp add: de_port_json)
  then show ?thesis by (simp add: de_vt_network_def network_json_def de_simps)
qed

lemma de_net_json: "de_vt_net rd (net_json n) = Some (vt_of_net n)"
  by (simp add: de_vt_net_def net_json_def subnet_json_def de_simps de_ip_display vt_of_net_def)

lemma de_config_json:
  assumes "config_ranges c"
  shows "de_vt_config (config_json c) = Some (vt_of_config c)"
proof -
  have idle: "de_option de_vt_auto_suspend (json_opt auto_suspend_json (vc_auto_suspend c)) =
      Some (map_option asc_idle_timeout_secs (vc_auto_suspend c))"
    using assms by (auto simp: de_option_json auto_suspend_json_def de_vt_auto_suspend_def de_simps de_nat config_ranges_def split: option.splits)
  have block: "de_option de_vt_block_storage (json_opt block_storage_json (vc_block_storage c)) =
      Some (map_option bs_size_mb (vc_block_storage c))"
    using assms by (auto simp: de_option_json block_storage_json_def de_vt_block_storage_def de_simps de_nat config_ranges_def split: option.splits)
  have tags: "de_array de_string (JArr (map JStr (vc_tags c))) = Some (vc_tags c)"
    using de_array_map[of de_string JStr "\<lambda>s. s"] by simp
  have field: "de_vt_config (config_json c) = (do {
     project_id \<leftarrow> de_uint 64 (json_nat (vc_project_id c));
     cpus \<leftarrow> de_uint 32 (json_nat (vc_cpus c));
     memory_mb \<leftarrow> de_uint 32 (json_nat (vc_memory_mb c));
     disk_size_mb \<leftarrow> de_uint 32 (json_nat (vc_disk_size_mb c));
     Some \<lparr>tc_name = vc_name c, tc_project_id = project_id, tc_mode = vc_mode c, tc_image = vc_image c, tc_cpus = of_nat cpus,
       tc_memory_mb = memory_mb, tc_disk_size_mb = disk_size_mb, tc_tags = vc_tags c,
       tc_exposed_ports = map (unat \<circ> ep_port) (exposed_ports (vc_network_config c)),
       tc_idle_timeout_secs = map_option asc_idle_timeout_secs (vc_auto_suspend c),
       tc_block_size_mb = map_option bs_size_mb (vc_block_storage c)\<rparr> })"
    unfolding de_vt_config_def config_json_def de_object.simps de_default_def de_field_def
    by (simp add: get_field_def de_mode de_network_json idle block tags
        del: de_array.simps de_uint.simps)
  show ?thesis using assms unfolding field by (simp add: de_nat config_ranges_def vt_of_config_def del: de_uint.simps)
qed

lemma instance_json_read:
  assumes "config_ranges (vi_vm_config i)" "\<And>t. rd_time rd (show_time t) = Some t"
  shows "de_vt_vm rd (instance_json show_time i) = Some (vt_of_inst i)"
proof -
  have time: "de_time rd (JStr (show_time t)) = Some t" for t by (simp add: de_time_def assms(2))
  have net: "de_option (de_vt_net rd) (json_opt net_json (vi_net i)) = Some (map_option vt_of_net (vi_net i))"
    by (subst de_option_json) (simp add: net_json_def, simp add: de_net_json split: option.split)
  have snap: "de_option (de_vt_snapshot rd) (json_opt (snapshot_json show_time) (vi_snapshot i)) =
      Some (map_option sn_created_at (vi_snapshot i))"
    by (auto simp: de_option_json snapshot_json_def de_vt_snapshot_def de_simps time split: option.split)
  show ?thesis
    unfolding de_vt_vm_def instance_json_def de_object.simps de_default_def de_field_def
    by (simp add: get_field_def de_state net snap time de_config_json[OF assms(1)] vt_of_inst_def)
qed

end
