(* ===== verification/Routes.thy ===== *)
theory Routes
  imports Inventory
begin

text \<open>
  The API as its clients see it: the route tables (\<open>routes/*.rs\<close> and \<open>api_routes\<close> of \<open>server.rs\<close>), the
  extraction of arguments, and the status and text of every answer.  The rules of axum that are used
  are its documented ones: a capture matches one non-empty segment, the routes of a nested router
  match behind its prefix, \<open>get\<close> also answers \<open>HEAD\<close> (without the body), a path that no route matches is
  404 and another method 405, and a layer runs before either.  What a body or a captured segment
  decodes to is a parameter.
\<close>

section \<open>The tables\<close>

datatype http_method = MGet | MHead | MPost | MPut | MDelete | MOther

datatype api_route =
    RHealth
  | RListVms | RCreateVm | RGetVm string | RUpdateVm string | RDeleteVm string
  | RPauseVm string | RResumeVm string | RSnapshotVm string | RRestoreVm string | RExec string
  | RGetNetwork string
  | RListPorts string | RAddPort string | RRemovePort string string | RMintToken string string
  | RListWorkloads string | RStartWorkload string | RGetWorkload string string | RStopWorkload string string
  | RWorkloadLogs string string

definition network_routes :: "string \<Rightarrow> string list \<Rightarrow> (http_method \<times> api_route) list" where
  "network_routes vm segs = (if segs = [] then [(MGet, RGetNetwork vm)] else [])"

definition ports_routes :: "string \<Rightarrow> string list \<Rightarrow> (http_method \<times> api_route) list" where
  "ports_routes vm segs =
     (case segs of
        [] \<Rightarrow> [(MGet, RListPorts vm), (MPost, RAddPort vm)]
      | [port] \<Rightarrow> [(MDelete, RRemovePort vm port)]
      | [port, op] \<Rightarrow> if op = ''token'' then [(MPost, RMintToken vm port)] else []
      | _ \<Rightarrow> [])"

definition workload_routes :: "string \<Rightarrow> string list \<Rightarrow> (http_method \<times> api_route) list" where
  "workload_routes vm segs =
     (case segs of
        [] \<Rightarrow> [(MGet, RListWorkloads vm), (MPost, RStartWorkload vm)]
      | [wl] \<Rightarrow> [(MGet, RGetWorkload vm wl)]
      | [wl, op] \<Rightarrow>
          if op = ''stop'' then [(MPost, RStopWorkload vm wl)]
          else if op = ''logs'' then [(MGet, RWorkloadLogs vm wl)] else []
      | _ \<Rightarrow> [])"

definition vm_routes :: "string list \<Rightarrow> (http_method \<times> api_route) list" where
  "vm_routes segs =
     (case segs of
        [] \<Rightarrow> [(MGet, RListVms), (MPost, RCreateVm)]
      | [vm] \<Rightarrow> [(MGet, RGetVm vm), (MPut, RUpdateVm vm), (MDelete, RDeleteVm vm)]
      | vm # op # rest \<Rightarrow>
          if op = ''network'' then network_routes vm rest
          else if op = ''ports'' then ports_routes vm rest
          else if op = ''workloads'' then workload_routes vm rest
          else if rest \<noteq> [] then []
          else if op = ''pause'' then [(MPost, RPauseVm vm)]
          else if op = ''resume'' then [(MPost, RResumeVm vm)]
          else if op = ''snapshot'' then [(MPost, RSnapshotVm vm)]
          else if op = ''restore'' then [(MPost, RRestoreVm vm)]
          else if op = ''exec'' then [(MPost, RExec vm)]
          else [])"

definition api_routes :: "string list \<Rightarrow> (http_method \<times> api_route) list" where
  "api_routes segs =
     (case segs of
        [] \<Rightarrow> []
      | first # rest \<Rightarrow>
          if first = ''health'' then (if rest = [] then [(MGet, RHealth)] else [])
          else if first = ''vms'' then vm_routes rest
          else [])"

definition path_segments :: "string \<Rightarrow> string list" where
  "path_segments path = (case strip_prefix ''/'' path of None \<Rightarrow> [[]] | Some rest \<Rightarrow> split_char CHR ''/'' rest)"

definition server_routes :: "string \<Rightarrow> (http_method \<times> api_route) list" where
  "server_routes path =
     (let segs = path_segments path
      in if [] \<in> set segs then []
         else case segs of first # rest \<Rightarrow> if first = ''api'' then api_routes rest else [] | [] \<Rightarrow> [])"

definition route_of :: "http_method \<Rightarrow> string \<Rightarrow> api_route option" where
  "route_of m path = map_of (server_routes path) (if m = MHead then MGet else m)"

section \<open>The handlers, from the request's text to the answer's\<close>

record ('h, 'k) api_env =
  rq_vt :: "'h vmm_trait"
  rq_obs :: "nat \<Rightarrow> 'h vmm"
  rq_clock :: "nat \<Rightarrow> nat"
  rq_show_time :: "instant \<Rightarrow> string"
  rq_encode :: "'k \<Rightarrow> claims \<Rightarrow> string + string"
  rq_secret :: 'k
  rq_now :: instant
  rq_segment :: "string \<Rightarrow> string + string"
  rq_port_error :: "string \<Rightarrow> string"
  rq_config :: "string \<Rightarrow> nat \<times> string + vm_config"
  rq_spec :: "string \<Rightarrow> nat \<times> string + workload_spec"
  rq_port :: "string \<Rightarrow> nat \<times> string + exposed_port"
  rq_mint :: "string \<Rightarrow> nat \<times> string + mint_token_request"

type_synonym answer = "nat \<times> string"

definition api_json :: "(string \<Rightarrow> nat \<times> string + 'a) \<Rightarrow> string \<Rightarrow> 'a api_result" where
  "api_json decode body = (case decode body of Inl (status, text) \<Rightarrow> Inl (api_error_new status text) | Inr x \<Rightarrow> Inr x)"

definition respond :: "('a \<Rightarrow> answer) \<Rightarrow> 'a api_result \<Rightarrow> answer" where
  "respond f r = (case r of Inl e \<Rightarrow> api_into_response e | Inr x \<Rightarrow> f x)"

definition json_answer :: "nat \<Rightarrow> json \<Rightarrow> answer" where
  "json_answer status j = (status, json_text j)"

text \<open>The keys of a \<open>Value\<close> are sorted.\<close>

fun sort_keys :: "json \<Rightarrow> json" where
  "sort_keys (JObj kvs) = JObj (sort_key fst (map (\<lambda>(k, v). (k, sort_keys v)) kvs))"
| "sort_keys (JArr vs) = JArr (map sort_keys vs)"
| "sort_keys v = v"

definition created_json :: "vm_config \<Rightarrow> vm_id \<Rightarrow> json" where
  "created_json payload vm_id =
     sort_keys (JObj [(''status'', JStr ''created''), (''payload'', config_json payload), (''id'', JStr vm_id)])"

definition workload_json :: "(instant \<Rightarrow> string) \<Rightarrow> workload \<Rightarrow> json" where
  "workload_json show_time w = JObj (workload_fields show_time w)"

definition exec_json :: "(instant \<Rightarrow> string) \<Rightarrow> workload \<Rightarrow> workload_log_entry list \<Rightarrow> json" where
  "exec_json show_time w logs =
     JObj (workload_fields show_time w @ [(''logs'', JArr (map (log_entry_json show_time) logs))])"

definition token_json :: "(instant \<Rightarrow> string) \<Rightarrow> string \<Rightarrow> instant \<Rightarrow> json" where
  "token_json show_time token expires_at =
     JObj [(''token'', JStr token), (''expires_at'', JStr (show_time expires_at))]"

definition api_list_workloads :: "vm_id \<Rightarrow> 'h vmm \<Rightarrow> workload list api_result" where
  "api_list_workloads vm v = api_try (list_workloads vm v)"

definition api_get_workload :: "vm_id \<Rightarrow> workload_id \<Rightarrow> 'h vmm \<Rightarrow> workload api_result" where
  "api_get_workload vm wl v = api_try (get_workload vm wl v)"

definition api_workload_logs :: "'h vmm_trait \<Rightarrow> vm_id \<Rightarrow> workload_id \<Rightarrow> 'h vmm \<Rightarrow> workload_log_entry list api_result" where
  "api_workload_logs vt vm wl v = api_try (vt_workload_logs vt vm wl v)"

definition api_list_ports :: "vm_id \<Rightarrow> 'h vmm \<Rightarrow> exposed_port list api_result" where
  "api_list_ports vm v = api_try (list_exposed_ports vm v)"

definition api_restore_vm :: "'h vmm_trait \<Rightarrow> vm_id \<Rightarrow> 'h vmm \<Rightarrow> 'h vmm \<times> vm_instance api_result" where
  "api_restore_vm vt vm v = api_then_get (vt_restore_vm vt) vm v"

definition update_vm :: "vm_config \<Rightarrow> json" where
  "update_vm payload = JObj [(''status'', JStr ''not implemented'')]"

definition health :: json where
  "health = JObj [(''status'', JStr ''ok'')]"

text \<open>One request whose path has been matched; no result is an \<open>exec\<close> that never ends.\<close>

definition api_handle :: "('h, 'k) api_env \<Rightarrow> api_route \<Rightarrow> string \<Rightarrow> 'h vmm \<Rightarrow> ('h vmm \<times> answer) option" where
  "api_handle env r body v =
     (let vt = rq_vt env;
          time = rq_show_time env;
          vm_json = (\<lambda>i. json_answer 200 (instance_json time i));
          wl_json = (\<lambda>w. json_answer 200 (workload_json time w));
          done = (\<lambda>(v', a). Some (v', a));
          seg = (\<lambda>s k. case rq_segment env s of Inl text \<Rightarrow> Some (v, (400, text)) | Inr x \<Rightarrow> k x);
          port = (\<lambda>s k. case parse_uint 65535 s of Inl _ \<Rightarrow> Some (v, (400, rq_port_error env s)) | Inr p \<Rightarrow> k (of_nat p :: u16))
      in case r of
           RHealth \<Rightarrow> Some (v, json_answer 200 health)
         | RListVms \<Rightarrow> Some (v, json_answer 200 (JArr (map (instance_json time) (api_list_vms v))))
         | RCreateVm \<Rightarrow> (case api_json (rq_config env) body of
               Inl e \<Rightarrow> Some (v, api_into_response e)
             | Inr payload \<Rightarrow> done (apsnd (respond (\<lambda>(st, vm). json_answer st (created_json payload vm))) (api_create_vm vt payload v)))
         | RGetVm s \<Rightarrow> seg s (\<lambda>vm. Some (v, respond vm_json (api_get_vm vm v)))
         | RUpdateVm s \<Rightarrow> seg s (\<lambda>vm. case api_json (rq_config env) body of
               Inl e \<Rightarrow> Some (v, api_into_response e)
             | Inr payload \<Rightarrow> Some (v, json_answer 200 (update_vm payload)))
         | RDeleteVm s \<Rightarrow> seg s (\<lambda>vm. done (apsnd (respond (\<lambda>st. (st, []))) (api_delete_vm vt vm v)))
         | RPauseVm s \<Rightarrow> seg s (\<lambda>vm. done (apsnd (respond vm_json) (api_then_get (vt_pause_vm vt) vm v)))
         | RResumeVm s \<Rightarrow> seg s (\<lambda>vm. done (apsnd (respond vm_json) (api_then_get (vt_resume_vm vt) vm v)))
         | RSnapshotVm s \<Rightarrow> seg s (\<lambda>vm. done (apsnd (respond (\<lambda>x. json_answer 200 (snapshot_json time x))) (api_snapshot_vm vt vm v)))
         | RRestoreVm s \<Rightarrow> seg s (\<lambda>vm. done (apsnd (respond vm_json) (api_restore_vm vt vm v)))
         | RExec s \<Rightarrow> seg s (\<lambda>vm. case api_json (rq_spec env) body of
               Inl e \<Rightarrow> Some (v, api_into_response e)
             | Inr spec \<Rightarrow> map_option (apsnd (respond (\<lambda>(w, logs). json_answer 200 (exec_json time w logs))))
                 (exec_command vt (rq_obs env) (rq_clock env) vm spec v))
         | RGetNetwork s \<Rightarrow> seg s (\<lambda>vm. Some (v, respond (\<lambda>n. json_answer 200 (network_json n)) (api_get_network vm v)))
         | RListPorts s \<Rightarrow> seg s (\<lambda>vm. Some (v, respond (\<lambda>ps. json_answer 200 (JArr (map port_json ps))) (api_list_ports vm v)))
         | RAddPort s \<Rightarrow> seg s (\<lambda>vm. case api_json (rq_port env) body of
               Inl e \<Rightarrow> Some (v, api_into_response e)
             | Inr p \<Rightarrow> done (apsnd (respond (\<lambda>(st, p). json_answer st (port_json p))) (api_add_port vm p v)))
         | RRemovePort s t \<Rightarrow> seg s (\<lambda>vm. seg t (\<lambda>t'. port t' (\<lambda>p. done (apsnd (respond (\<lambda>st. (st, []))) (api_remove_port vm p v)))))
         | RMintToken s t \<Rightarrow> seg s (\<lambda>vm. seg t (\<lambda>t'. port t' (\<lambda>p. case api_json (rq_mint env) body of
               Inl e \<Rightarrow> Some (v, api_into_response e)
             | Inr b \<Rightarrow> Some (v, respond (\<lambda>(st, token, exp). json_answer st (token_json time token exp))
                 (mint_port_token (rq_encode env) (rq_secret env) (rq_now env) vm p b v)))))
         | RListWorkloads s \<Rightarrow> seg s (\<lambda>vm. Some (v, respond (\<lambda>ws. json_answer 200 (JArr (map (workload_json time) ws))) (api_list_workloads vm v)))
         | RStartWorkload s \<Rightarrow> seg s (\<lambda>vm. case api_json (rq_spec env) body of
               Inl e \<Rightarrow> Some (v, api_into_response e)
             | Inr spec \<Rightarrow> done (apsnd (respond (\<lambda>(st, w). json_answer st (workload_json time w))) (api_start_workload vt vm spec v)))
         | RGetWorkload s t \<Rightarrow> seg s (\<lambda>vm. seg t (\<lambda>wl. Some (v, respond wl_json (api_get_workload vm wl v))))
         | RStopWorkload s t \<Rightarrow> seg s (\<lambda>vm. seg t (\<lambda>wl. done (apsnd (respond wl_json) (api_stop_workload vt vm wl v))))
         | RWorkloadLogs s t \<Rightarrow> seg s (\<lambda>vm. seg t (\<lambda>wl. Some (v,
               respond (\<lambda>ls. json_answer 200 (JArr (map (log_entry_json time) ls))) (api_workload_logs vt vm wl v)))))"

text \<open>Any request: the token first, then the path, then the method.\<close>

definition api_serve ::
  "('h, 'k) api_env \<Rightarrow> string \<Rightarrow> headers \<Rightarrow> http_method \<Rightarrow> string \<Rightarrow> string \<Rightarrow> 'h vmm \<Rightarrow> ('h vmm \<times> answer) option" where
  "api_serve env expected headers m path body v =
     (case require_bearer_token expected headers (\<lambda>_. Inr ()) of
        Inl e \<Rightarrow> Some (v, api_into_response e)
      | Inr _ \<Rightarrow>
          if server_routes path = [] then Some (v, (404, []))
          else (case route_of m path of
                  None \<Rightarrow> Some (v, (405, []))
                | Some r \<Rightarrow>
                    map_option (apsnd (\<lambda>(st, text). (st, if m = MHead then [] else text))) (api_handle env r body v)))"

section \<open>What a request can do\<close>

fun changes :: "api_route \<Rightarrow> bool" where
  "changes RCreateVm = True" | "changes (RDeleteVm _) = True" | "changes (RPauseVm _) = True"
| "changes (RResumeVm _) = True" | "changes (RSnapshotVm _) = True" | "changes (RRestoreVm _) = True"
| "changes (RExec _) = True" | "changes (RAddPort _) = True" | "changes (RRemovePort _ _) = True"
| "changes (RStartWorkload _) = True" | "changes (RStopWorkload _ _) = True" | "changes _ = False"

lemma handle_reads: "api_handle env r body v = Some (v', a) \<Longrightarrow> \<not> changes r \<Longrightarrow> v' = v"
  by (cases r) (auto simp: api_handle_def Let_def split: sum.splits)

lemma get_reads: "map_of (server_routes path) MGet = Some r \<Longrightarrow> \<not> changes r"
  by (auto simp: server_routes_def api_routes_def vm_routes_def network_routes_def ports_routes_def workload_routes_def Let_def
      split: list.splits if_splits)

lemma serve_guarded:
  "api_serve env expected headers m path body v =
     (if bearer_token headers \<noteq> Some expected
      then Some (v, api_into_response (api_error_new 401 ''missing or invalid bearer token''))
      else if server_routes path = [] then Some (v, (404, []))
      else (case route_of m path of
              None \<Rightarrow> Some (v, (405, []))
            | Some r \<Rightarrow> map_option (apsnd (\<lambda>(st, text). (st, if m = MHead then [] else text))) (api_handle env r body v)))"
  by (auto simp: api_serve_def require_bearer_token_def constant_time_eq_iff str_bytes_inj split: option.split)

text \<open>C16: Nothing happens without the token, and nothing changes on reading: a request whose bearer token is not the
  configured one is answered 401 whatever its path, a GET or HEAD leaves the VMM as it is, and a request that
  changes it came with the token to a route of the table that may change it.\<close>

theorem requests_guarded:
  assumes "api_serve env expected headers m path body v = Some (v', status, text)"
  shows "if bearer_token headers \<noteq> Some expected then status = 401 \<and> v' = v
    else v' = v \<or> (m \<noteq> MGet \<and> m \<noteq> MHead \<and> (\<exists>r. map_of (server_routes path) m = Some r \<and> changes r))"
proof (cases "bearer_token headers = Some expected")
  case False
  then show ?thesis using assms by (auto simp: serve_guarded api_into_response_def api_error_new_def)
next
  case True
  have "v' = v \<or> (\<exists>r. route_of m path = Some r \<and> changes r)"
    using assms True handle_reads by (fastforce simp: serve_guarded split: if_splits option.splits)
  then show ?thesis using True get_reads by (auto simp: route_of_def split: if_splits)
qed

section \<open>vmtop against hostd\<close>

text \<open>vmtop's HTTP client with hostd at the other end, and its JSON reader over a parser of the text.\<close>

definition hostd_send ::
  "('h, 'k) api_env \<Rightarrow> string \<Rightarrow> string \<Rightarrow> 'h vmm \<Rightarrow> string \<Rightarrow> headers \<Rightarrow> string + nat \<times> string" where
  "hostd_send env expected base v url headers =
     (case strip_prefix base url of
        None \<Rightarrow> Inl ''error sending request''
      | Some path \<Rightarrow>
          (case api_serve env expected headers MGet path [] v of
             None \<Rightarrow> Inl ''operation timed out''
           | Some (_, a) \<Rightarrow> Inr a))"

definition read_inventory :: "(string \<Rightarrow> json option) \<Rightarrow> vt_reader \<Rightarrow> string \<Rightarrow> string + vt_vm list" where
  "read_inventory parse rd body =
     (case Option.bind (parse body) (de_array (de_vt_vm rd)) of None \<Rightarrow> Inl ''error decoding response body'' | Some vms \<Rightarrow> Inr vms)"

lemma bearer_of_token: "header_text token = Some token \<Longrightarrow> bearer_token [(''authorization'', ''Bearer '' @ token)] = Some token"
  by (simp add: bearer_token_def header_text_def strip_prefix_def split: if_splits)

text \<open>C38: End to end, a poll of vmtop delivers exactly the VMs hostd has at that moment, with the values it has of
  them, if vmtop's token is hostd's; with any other token it delivers hostd's 401 and its message.\<close>

theorem vmtop_sees_hostd:
  assumes "header_text token = Some token" "\<And>t. rd_time rd (rq_show_time env t) = Some t"
    and "\<forall>i \<in> set (api_list_vms v). config_ranges (vi_vm_config i)"
    and "parse (json_text (JArr (map (instance_json (rq_show_time env)) (api_list_vms v)))) =
      Some (JArr (map (instance_json (rq_show_time env)) (api_list_vms v)))"
  shows "VmtopApp.list_vms (hostd_send env expected (trim_end_slashes base) v) (read_inventory parse rd) base token =
    (if token = expected then Inr (map vt_of_inst (api_list_vms v))
     else Inl (VtHttp 401 (snd (api_into_response (api_error_new 401 ''missing or invalid bearer token'')))))"
proof -
  have route: "server_routes ''/api/vms'' = [(MGet, RListVms), (MPost, RCreateVm)]"
    by (simp add: server_routes_def path_segments_def api_routes_def vm_routes_def strip_prefix_def Let_def)
  have json: "de_array (de_vt_vm rd) (JArr (map (instance_json (rq_show_time env)) (api_list_vms v))) =
      Some (map vt_of_inst (api_list_vms v))"
    using those_map[of "api_list_vms v" "de_vt_vm rd \<circ> instance_json (rq_show_time env)" vt_of_inst] assms(2,3)
      instance_json_read[of _ rd "rq_show_time env"] by simp
  have strip: "strip_prefix (trim_end_slashes base) (trim_end_slashes base @ ''/api/vms'') = Some ''/api/vms''"
    by (simp add: strip_prefix_def)
  note bt = bearer_of_token[OF assms(1), simplified]
  show ?thesis
  proof (cases "token = expected")
    case True
    have "api_serve env expected [(''authorization'', ''Bearer '' @ token)] MGet ''/api/vms'' [] v =
        Some (v, json_answer 200 (JArr (map (instance_json (rq_show_time env)) (api_list_vms v))))"
      by (simp add: serve_guarded bt True[symmetric] route route_of_def api_handle_def Let_def json_answer_def)
    then show ?thesis using True assms(4) json
      by (simp add: VmtopApp.list_vms_def client_get_def hostd_send_def get_url_def strip json_answer_def read_inventory_def)
  next
    case False
    have "api_serve env expected [(''authorization'', ''Bearer '' @ token)] MGet ''/api/vms'' [] v =
        Some (v, api_into_response (api_error_new 401 ''missing or invalid bearer token''))"
      using False by (simp add: serve_guarded bt)
    then show ?thesis using False
      by (simp add: VmtopApp.list_vms_def client_get_def hostd_send_def get_url_def strip api_into_response_def api_error_new_def)
  qed
qed

text \<open>A configured token with a character that a header's text may not have is accepted at the start, and lets
  nobody in.\<close>

lemma unusable_token:
  assumes "token \<noteq> []" "header_text token = None"
  shows "api_token (Some token) = Inr token \<and>
    api_serve env token headers m path body v = Some (v, api_into_response (api_error_new 401 ''missing or invalid bearer token''))"
proof -
  have "header_text (''Bearer '' @ token) = None" using assms(2) by (auto simp: header_text_def split: if_splits)
  then have "bearer_token headers \<noteq> Some token"
    by (auto simp: bearer_token_def bind_eq_Some_conv strip_prefix_def header_text_def list_all_iff
        split: if_splits dest: in_set_dropD)
  then show ?thesis using assms(1) by (simp add: api_token_def serve_guarded)
qed

section \<open>On a concrete server\<close>

definition demo_api_env :: "(unit, nat) api_env" where
  "demo_api_env = \<lparr>rq_vt = demo_vt, rq_obs = (\<lambda>_. demo_running), rq_clock = (\<lambda>k. 500 * k),
     rq_show_time = (\<lambda>t. replicate t (CHR ''x'')), rq_encode = (\<lambda>_ _. Inr ''t''), rq_secret = 0, rq_now = 0,
     rq_segment = Inr, rq_port_error = (\<lambda>s. s), rq_config = (\<lambda>_. Inl (400, ''bad'')), rq_spec = (\<lambda>_. Inl (400, ''bad'')),
     rq_port = (\<lambda>_. Inl (400, ''bad'')), rq_mint = (\<lambda>_. Inl (400, ''bad''))\<rparr>"

lemma requests_guarded_witness:
  "\<exists>v' status text. api_serve demo_api_env ''secret'' [(''authorization'', ''Bearer guess'')] MDelete ''/api/vms/vm-a'' [] demo_exposed =
     Some (v', status, text) \<and> status = 401 \<and> v' = demo_exposed"
proof -
  have other: "bearer_token [(''authorization'', ''Bearer guess'')] \<noteq> Some ''secret''"
    by (simp add: bearer_token_def header_text_def strip_prefix_def)
  obtain v' st msg where s: "api_serve demo_api_env ''secret'' [(''authorization'', ''Bearer guess'')] MDelete ''/api/vms/vm-a'' []
      demo_exposed = Some (v', st, msg)"
    using other by (simp add: serve_guarded) (metis surj_pair)
  from requests_guarded[OF this] other s show ?thesis by simp
qed

lemma vmtop_sees_hostd_witness:
  "VmtopApp.list_vms (hostd_send demo_api_env ''secret'' ''http://h'' demo_exposed)
     (read_inventory (\<lambda>s. if s = json_text (JArr [instance_json (rq_show_time demo_api_env) demo_port_inst])
        then Some (JArr [instance_json (rq_show_time demo_api_env) demo_port_inst]) else None)
        \<lparr>rd_time = Some \<circ> length, rd_v6 = (\<lambda>_. None)\<rparr>) ''http://h/'' ''secret'' =
   Inr [vt_of_inst demo_port_inst]"
proof -
  have vms: "api_list_vms demo_exposed = [demo_port_inst]"
    by (simp add: api_list_vms_def Vmm.list_vms_def demo_exposed_def demo_running_def fc_entry_new_def inst_def List.map_filter_def)
  have slash: "trim_end_slashes ''http://h/'' = ''http://h''" by (simp add: trim_end_slashes_def)
  have range: "config_ranges (vi_vm_config demo_port_inst)"
    by (simp add: config_ranges_def demo_port_inst_def demo_inst_def demo_config_def)
  have token: "header_text ''secret'' = Some ''secret''" by (simp add: header_text_def)
  show ?thesis
    using vmtop_sees_hostd[of "''secret''" "\<lparr>rd_time = Some \<circ> length, rd_v6 = (\<lambda>_. None)\<rparr>" demo_api_env demo_exposed
        "\<lambda>s. if s = json_text (JArr [instance_json (rq_show_time demo_api_env) demo_port_inst])
          then Some (JArr [instance_json (rq_show_time demo_api_env) demo_port_inst]) else None" "''secret''" "''http://h/''"]
      token range slash
    by (simp add: vms demo_api_env_def del: json_text.simps)
qed

end
