(* ===== verification/Device.thy ===== *)
theory Device
  imports Storage
begin

text \<open>
  \<open>hostd/src/storage/ublk_worker.rs\<close>: a queue of the block device (\<open>queue_fn\<close>), one task and one buffer
  per tag, all on one volume, and the disk the guest sees through it.  The tasks of a queue run on one
  thread and give it up only between requests, so a run is a list of what the ring delivers.
  What is proved: on a disk whose calls work, the device is a disk with a volatile write cache, for
  every list of requests.  The kernel's side of ublk (it copies what is written into the tag's buffer,
  and what is read out of it) is written out in \<open>kernel_fill\<close> and \<open>answer_of\<close>.
\<close>

section \<open>A queue\<close>

datatype ring_event =
    Request nat ublk_op nat nat bytes
  | CommandFailed nat bool

text \<open>A tag's task ends when its command fails, with \<open>QueueIsDown\<close> (\<open>True\<close>) or another error, which is
  logged.\<close>

record queue =
  qu_bufs :: "bytes list"
  qu_live :: "bool list"
  qu_logged :: "nat list"

type_synonym answer = "nat \<times> int \<times> bytes"

definition queue_new :: "nat \<Rightarrow> nat \<Rightarrow> queue" where
  "queue_new buf_bytes depth =
     \<lparr>qu_bufs = replicate depth (replicate buf_bytes 0), qu_live = replicate depth True, qu_logged = []\<rparr>"

definition kernel_fill :: "ublk_op \<Rightarrow> bytes \<Rightarrow> bytes \<Rightarrow> bytes" where
  "kernel_fill op data buf = (if op = UBLK_IO_OP_WRITE then data @ drop (length data) buf else buf)"

definition answer_of :: "nat \<Rightarrow> ublk_op \<Rightarrow> int \<Rightarrow> bytes \<Rightarrow> answer" where
  "answer_of tag op res buf = (tag, res, if op = UBLK_IO_OP_READ \<and> 0 \<le> res then take (nat res) buf else [])"

definition live_tag :: "nat \<Rightarrow> bool list \<Rightarrow> bool" where
  "live_tag tag live \<longleftrightarrow> tag < length live \<and> live ! tag"

text \<open>One event, served by the task of its tag.  \<open>None\<close> is a panic of the queue's thread.\<close>

fun queue_step :: "ring_event \<Rightarrow> queue \<times> volume \<times> store \<times> answer list \<Rightarrow> (queue \<times> volume \<times> store \<times> answer list) option" where
  "queue_step (Request tag op sector n data) (q, v, s, out) =
     (if \<not> live_tag tag (qu_live q) then Some (q, v, s, out)
      else case io_task op sector n (kernel_fill op data (qu_bufs q ! tag)) v s of
             None \<Rightarrow> None
           | Some (v', s', buf', res) \<Rightarrow>
               Some (q\<lparr>qu_bufs := (qu_bufs q)[tag := buf']\<rparr>, v', s', out @ [answer_of tag op res buf']))"
| "queue_step (CommandFailed tag down) (q, v, s, out) =
     (if \<not> live_tag tag (qu_live q) then Some (q, v, s, out)
      else Some (q\<lparr>qu_live := (qu_live q)[tag := False], qu_logged := qu_logged q @ (if down then [] else [tag])\<rparr>, v, s, out))"

text \<open>The queue runs until every task is done.\<close>

fun queue_run :: "ring_event list \<Rightarrow> queue \<times> volume \<times> store \<times> answer list \<Rightarrow> (queue \<times> volume \<times> store \<times> answer list) option" where
  "queue_run [] st = Some st"
| "queue_run (e # es) st =
     (if True \<notin> set (qu_live (fst st)) then Some st
      else case queue_step e st of None \<Rightarrow> None | Some st' \<Rightarrow> queue_run es st')"

section \<open>The disk it should be\<close>

text \<open>An ideal disk with a volatile write cache: what it reads as, and what survives a crash.\<close>

record ideal_disk =
  dk_content :: "nat \<Rightarrow> u8"
  dk_stable :: "nat \<Rightarrow> u8"

definition in_range :: "nat \<Rightarrow> nat \<Rightarrow> nat \<Rightarrow> bool" where
  "in_range sz sector n \<longleftrightarrow> sector * 512 + n * 512 \<le> sz"

fun disk_serve :: "nat \<Rightarrow> ublk_op \<Rightarrow> nat \<Rightarrow> nat \<Rightarrow> bytes \<Rightarrow> ideal_disk \<Rightarrow> ideal_disk \<times> int \<times> bytes" where
  "disk_serve sz UBLK_IO_OP_READ sector n data d =
     (if in_range sz sector n then (d, int (n * 512), map (\<lambda>j. dk_content d (sector * 512 + j)) [0..<n * 512]) else (d, -5, []))"
| "disk_serve sz UBLK_IO_OP_WRITE sector n data d =
     (if in_range sz sector n
      then (d\<lparr>dk_content := \<lambda>i. if sector * 512 \<le> i \<and> i < sector * 512 + n * 512 then data ! (i - sector * 512) else dk_content d i\<rparr>,
            int (n * 512), [])
      else (d, -5, []))"
| "disk_serve sz UBLK_IO_OP_FLUSH sector n data d = (d\<lparr>dk_stable := dk_content d\<rparr>, 0, [])"
| "disk_serve sz UBLK_IO_OP_DISCARD sector n data d = (d, 0, [])"
| "disk_serve sz (UblkOther k) sector n data d = (d, -95, [])"

fun disk_event :: "nat \<Rightarrow> ring_event \<Rightarrow> bool list \<Rightarrow> ideal_disk \<Rightarrow> ideal_disk \<times> bool list \<times> answer list" where
  "disk_event sz (Request tag op sector n data) live d =
     (if \<not> live_tag tag live then (d, live, [])
      else let (d', res, got) = disk_serve sz op sector n data d in (d', live, [(tag, res, got)]))"
| "disk_event sz (CommandFailed tag down) live d = (d, live[tag := False], [])"

fun disk_run :: "nat \<Rightarrow> ring_event list \<Rightarrow> bool list \<Rightarrow> ideal_disk \<Rightarrow> ideal_disk \<times> answer list" where
  "disk_run sz [] live d = (d, [])"
| "disk_run sz (e # es) live d =
     (let (d1, live1, out1) = disk_event sz e live d; (d2, out2) = disk_run sz es live1 d1 in (d2, out1 @ out2))"

definition abs_disk :: "volume \<Rightarrow> store \<Rightarrow> ideal_disk" where
  "abs_disk v s = \<lparr>dk_content = vol_disk v s, dk_stable = durable_disk v s\<rparr>"

section \<open>The device is that disk\<close>

text \<open>A volume whose chunks all fit the handle cache, on a disk whose calls work.\<close>

definition chunks :: "volume \<Rightarrow> nat set" where
  "chunks v = {..(vm_size_bytes (vo_meta v) - 1) div vm_chunk_size (vo_meta v)}"

definition ready :: "volume \<Rightarrow> store \<Rightarrow> bool" where
  "ready v s \<longleftrightarrow> volume_ok v s \<and> st_faults s = [] \<and> set (vo_dirty v) \<subseteq> chunks v \<and> card (chunks v) \<le> fc_cap (vo_fds v)"

lemma ready_room: "ready v s \<Longrightarrow> T \<subseteq> chunks v \<Longrightarrow> card (set (vo_dirty v) \<union> T) \<le> fc_cap (vo_fds v)"
  using card_mono[of "chunks v" "set (vo_dirty v) \<union> T"] by (simp add: ready_def chunks_def)

lemma touched_chunks:
  "0 < len \<Longrightarrow> off + len \<le> vm_size_bytes (vo_meta v) \<Longrightarrow> touched v off len \<subseteq> chunks v"
  using div_le_mono[of "off + len - 1" "vm_size_bytes (vo_meta v) - 1" "vm_chunk_size (vo_meta v)"]
  by (auto simp: touched_def chunks_def)

lemma do_io_serves:
  assumes "ready v s" "request_ok v off buf" "off + length buf < 2 ^ 64" "buf \<noteq> []"
  shows "\<exists>v' s' b. do_io write off buf v s = (v', s', IoOk (b, length buf)) \<and> ready v' s' \<and> vo_meta v' = vo_meta v \<and>
    durable_disk v' s' = durable_disk v s \<and> (vol_disk v' s', b) = array_request write off buf (vol_disk v s)"
proof -
  have ok: "volume_ok v s" "st_faults s = []" using assms(1) by (simp_all add: ready_def)
  have T: "touched v off (length buf) \<subseteq> chunks v"
    using assms(2,4) by (intro touched_chunks) (simp_all add: request_ok_def)
  obtain v' s' b where io: "io_loop write (vo_meta v) off (length buf) 0 v s
      (if write then buf else replicate (length buf) 0) = (v', s', IoOk b)"
    and kept: "io_kept v s (touched v off (length buf)) v' s'"
    using io_loop_completes[OF ok(1) refl ok(2) assms(3) _ ready_room[OF assms(1) T]] by blast
  note array = io_loop_array[OF ok(1) assms(3) io]
  have "ready v' s'" using kept array assms(1) T by (auto simp: ready_def io_kept_def chunks_def)
  with io kept array assms(2) show ?thesis by (simp add: do_io_cases[OF assms(3)] io_kept_def)
qed

lemma flush_serves:
  assumes "ready v s"
  shows "\<exists>v' s'. flush v s = (v', s', IoOk ()) \<and> ready v' s' \<and> vo_meta v' = vo_meta v \<and>
    abs_disk v' s' = (abs_disk v s)\<lparr>dk_stable := vol_disk v s\<rparr>"
proof -
  have ok: "volume_ok v s" "st_faults s = []" using assms by (simp_all add: ready_def)
  have "card (set (vo_dirty v)) \<le> fc_cap (vo_fds v)" using ready_room[OF assms, of "{}"] by simp
  from flush_completes[OF ok this] obtain v' s' where f: "flush v s = (v', s', IoOk ())" "st_faults s' = []"
    "fc_cap (vo_fds v') = fc_cap (vo_fds v)" by blast
  note props = flush_props[OF f(1) ok(1)]
  then have "ready v' s'" using f assms by (auto simp: ready_def chunks_def)
  with f(1) props flushed_disk[OF ok(1) f(1)] show ?thesis by (simp add: abs_disk_def)
qed

text \<open>What the kernel sends: no request larger than the buffer or past the address space, and the data of
  a write.\<close>

definition request_fits :: "nat \<Rightarrow> ring_event \<Rightarrow> bool" where
  "request_fits buf_bytes e \<longleftrightarrow> (case e of
     Request tag op sector n data \<Rightarrow>
       (op = UBLK_IO_OP_READ \<or> op = UBLK_IO_OP_WRITE \<longrightarrow>
          0 < n \<and> n * 512 \<le> buf_bytes \<and> sector * 512 + n * 512 < 2 ^ 64) \<and>
       (op = UBLK_IO_OP_WRITE \<longrightarrow> length data = n * 512)
   | CommandFailed _ _ \<Rightarrow> True)"

text \<open>One request, read or written: the simulation of a step.\<close>

lemma io_task_rw:
  assumes "n * 512 \<le> length buf" "length buf < 2 ^ 31" "sector * 512 + n * 512 < 2 ^ 64"
  shows "io_task UBLK_IO_OP_READ sector n buf v s =
      (case do_io False (sector * 512) (take (n * 512) buf) v s of
         (v', s', IoOk (b, m)) \<Rightarrow> Some (v', s', b @ drop (n * 512) buf, int m)
       | (v', s', IoErr e) \<Rightarrow> Some (v', s', buf, -5)
       | (v', s', Panicked m) \<Rightarrow> None)"
    "io_task UBLK_IO_OP_WRITE sector n buf v s =
      (case do_io True (sector * 512) (take (n * 512) buf) v s of
         (v', s', IoOk (b, m)) \<Rightarrow> Some (v', s', b @ drop (n * 512) buf, int m)
       | (v', s', IoErr e) \<Rightarrow> Some (v', s', buf, -5)
       | (v', s', Panicked m) \<Rightarrow> None)"
proof -
  have sizes: "(sector * 512) mod 2 ^ 64 = sector * 512" "(n * 512) mod 2 ^ 32 = n * 512" "(length buf < n * 512) = False"
    using assms by simp_all
  show "io_task UBLK_IO_OP_READ sector n buf v s =
      (case do_io False (sector * 512) (take (n * 512) buf) v s of
         (v', s', IoOk (b, m)) \<Rightarrow> Some (v', s', b @ drop (n * 512) buf, int m)
       | (v', s', IoErr e) \<Rightarrow> Some (v', s', buf, -5)
       | (v', s', Panicked m) \<Rightarrow> None)"
    "io_task UBLK_IO_OP_WRITE sector n buf v s =
      (case do_io True (sector * 512) (take (n * 512) buf) v s of
         (v', s', IoOk (b, m)) \<Rightarrow> Some (v', s', b @ drop (n * 512) buf, int m)
       | (v', s', IoErr e) \<Rightarrow> Some (v', s', buf, -5)
       | (v', s', Panicked m) \<Rightarrow> None)"
    by (simp_all only: io_task_def Let_def sizes ublk_op.case if_False)
qed

lemma task_reads:
  assumes "ready v s" "0 < n" "n * 512 \<le> length buf" "length buf < 2 ^ 31" "sector * 512 + n * 512 < 2 ^ 64"
  shows "\<exists>v' s' buf' res. io_task UBLK_IO_OP_READ sector n buf v s = Some (v', s', buf', res) \<and> ready v' s' \<and>
    vo_meta v' = vo_meta v \<and> length buf' = length buf \<and>
    (abs_disk v' s', snd (answer_of tag UBLK_IO_OP_READ res buf')) =
      disk_serve (vm_size_bytes (vo_meta v)) UBLK_IO_OP_READ sector n data (abs_disk v s)"
proof -
  let ?b = "take (n * 512) buf"
  note rw = io_task_rw(1)[OF assms(3-5)]
  have len: "length ?b = n * 512" "sector * 512 + length ?b < 2 ^ 64" "?b \<noteq> []" using assms by auto
  show ?thesis
  proof (cases "in_range (vm_size_bytes (vo_meta v)) sector n")
    case True
    then have "request_ok v (sector * 512) ?b" using len(1) by (simp add: request_ok_def in_range_def)
    from do_io_serves[OF assms(1) this len(2,3), of False] len(1) True assms(3) show ?thesis
      by (auto simp: rw array_request_def abs_disk_def answer_of_def)
  next
    case False
    then have "\<not> request_ok v (sector * 512) ?b" using len(1) by (simp add: request_ok_def in_range_def)
    with False assms(1) show ?thesis
      by (simp add: rw do_io_cases[OF len(2)] answer_of_def)
  qed
qed

lemma task_writes:
  assumes "ready v s" "0 < n" "n * 512 \<le> length buf" "length buf < 2 ^ 31" "sector * 512 + n * 512 < 2 ^ 64"
    and "length data = n * 512"
  shows "\<exists>v' s' buf' res. io_task UBLK_IO_OP_WRITE sector n (kernel_fill UBLK_IO_OP_WRITE data buf) v s = Some (v', s', buf', res) \<and>
    ready v' s' \<and> vo_meta v' = vo_meta v \<and> length buf' = length buf \<and>
    (abs_disk v' s', snd (answer_of tag UBLK_IO_OP_WRITE res buf')) =
      disk_serve (vm_size_bytes (vo_meta v)) UBLK_IO_OP_WRITE sector n data (abs_disk v s)"
proof -
  have fill: "take (n * 512) (kernel_fill UBLK_IO_OP_WRITE data buf) = data"
    "length (kernel_fill UBLK_IO_OP_WRITE data buf) = length buf"
    using assms(3,6) by (simp_all add: kernel_fill_def)
  have rw: "io_task UBLK_IO_OP_WRITE sector n (kernel_fill UBLK_IO_OP_WRITE data buf) v s =
      (case do_io True (sector * 512) data v s of
         (v', s', IoOk (b, m)) \<Rightarrow> Some (v', s', b @ drop (n * 512) buf, int m)
       | (v', s', IoErr e) \<Rightarrow> Some (v', s', kernel_fill UBLK_IO_OP_WRITE data buf, -5)
       | (v', s', Panicked m) \<Rightarrow> None)"
    using io_task_rw(2)[of n "kernel_fill UBLK_IO_OP_WRITE data buf" sector] fill assms(3-6)
    by (simp add: kernel_fill_def)
  have len: "sector * 512 + length data < 2 ^ 64" "data \<noteq> []" using assms by auto
  show ?thesis
  proof (cases "in_range (vm_size_bytes (vo_meta v)) sector n")
    case True
    then have "request_ok v (sector * 512) data" using assms(6) by (simp add: request_ok_def in_range_def)
    from do_io_serves[OF assms(1) this len, of True] assms(3,6) True show ?thesis
      by (auto simp: rw fill array_request_def abs_disk_def answer_of_def cong: if_cong)
  next
    case False
    then have "\<not> request_ok v (sector * 512) data" using assms(6) by (simp add: request_ok_def in_range_def)
    with False assms(1) show ?thesis
      by (simp add: rw fill do_io_cases[OF len(1)] answer_of_def)
  qed
qed

lemma task_serves:
  assumes "ready v s" "request_fits (length buf) (Request tag op sector n data)" "length buf < 2 ^ 31"
  shows "\<exists>v' s' buf' res. io_task op sector n (kernel_fill op data buf) v s = Some (v', s', buf', res) \<and> ready v' s' \<and>
    vo_meta v' = vo_meta v \<and> length buf' = length buf \<and>
    (abs_disk v' s', snd (answer_of tag op res buf')) = disk_serve (vm_size_bytes (vo_meta v)) op sector n data (abs_disk v s)"
proof (cases op)
  case UBLK_IO_OP_READ
  with task_reads[OF assms(1) _ _ assms(3)] assms(2) show ?thesis
    by (simp add: request_fits_def kernel_fill_def)
next
  case UBLK_IO_OP_WRITE
  with task_writes[OF assms(1) _ _ assms(3)] assms(2) show ?thesis
    by (simp add: request_fits_def)
next
  case UBLK_IO_OP_FLUSH
  with flush_serves[OF assms(1)] show ?thesis
    by (auto simp: io_task_def Let_def kernel_fill_def answer_of_def abs_disk_def)
next
  case UBLK_IO_OP_DISCARD
  with assms(1) show ?thesis by (simp add: io_task_def Let_def kernel_fill_def answer_of_def)
next
  case (UblkOther k)
  with assms(1) show ?thesis by (simp add: io_task_def Let_def kernel_fill_def answer_of_def)
qed

definition queue_ok :: "nat \<Rightarrow> queue \<Rightarrow> bool" where
  "queue_ok buf_bytes q \<longleftrightarrow> length (qu_bufs q) = length (qu_live q) \<and> (\<forall>b \<in> set (qu_bufs q). length b = buf_bytes)"

lemma queue_new_ok: "queue_ok buf_bytes (queue_new buf_bytes depth)"
  by (simp add: queue_ok_def queue_new_def)

lemma queue_ok_update:
  "queue_ok buf_bytes q \<Longrightarrow> length b = buf_bytes \<Longrightarrow> queue_ok buf_bytes (q\<lparr>qu_bufs := (qu_bufs q)[tag := b]\<rparr>)"
  "queue_ok buf_bytes q \<Longrightarrow> queue_ok buf_bytes (q\<lparr>qu_live := (qu_live q)[tag := False], qu_logged := l\<rparr>)"
  by (auto simp: queue_ok_def dest: set_update_subset_insert[THEN subsetD])

lemma disk_event_dead:
  "True \<notin> set live \<Longrightarrow> \<exists>live'. disk_event sz e live d = (d, live', []) \<and> True \<notin> set live'"
proof (cases e)
  case (Request tag op sector n data)
  assume "True \<notin> set live"
  moreover from this have "\<not> live_tag tag live" by (auto simp: live_tag_def in_set_conv_nth)
  ultimately show ?thesis by (simp add: Request)
next
  case (CommandFailed tag down)
  assume "True \<notin> set live"
  then show ?thesis by (auto simp: CommandFailed dest: set_update_subset_insert[THEN subsetD])
qed

lemma disk_run_dead: "True \<notin> set live \<Longrightarrow> disk_run sz es live d = (d, [])"
proof (induction es arbitrary: live)
  case (Cons e es)
  obtain live' where "disk_event sz e live d = (d, live', [])" "True \<notin> set live'"
    using disk_event_dead[OF Cons.prems] by metis
  with Cons.IH show ?case by simp
qed simp

lemma dead_tag_update: "\<not> live_tag tag live \<Longrightarrow> live[tag := False] = live"
  by (metis live_tag_def list_update_beyond list_update_id not_less)

text \<open>The simulation: an event the queue handles is the disk's event.\<close>

lemma queue_event:
  assumes "ready v s" "queue_ok B q" "B < 2 ^ 31" "request_fits B e"
  obtains q' v' s' ans where "queue_step e (q, v, s, out) = Some (q', v', s', out @ ans)" "ready v' s'" "queue_ok B q'"
    "vo_meta v' = vo_meta v"
    "disk_event (vm_size_bytes (vo_meta v)) e (qu_live q) (abs_disk v s) = (abs_disk v' s', qu_live q', ans)"
proof (cases e)
  case (Request tag op sector n data)
  show ?thesis
  proof (cases "live_tag tag (qu_live q)")
    case False
    with Request assms that[of q v s "[]"] show ?thesis by simp
  next
    case live: True
    have B: "length (qu_bufs q ! tag) = B"
      using live assms(2) by (simp add: live_tag_def queue_ok_def)
    obtain v' s' buf' res where io: "io_task op sector n (kernel_fill op data (qu_bufs q ! tag)) v s = Some (v', s', buf', res)"
      "ready v' s'" "vo_meta v' = vo_meta v" "length buf' = B"
      "(abs_disk v' s', snd (answer_of tag op res buf')) =
        disk_serve (vm_size_bytes (vo_meta v)) op sector n data (abs_disk v s)"
      using task_serves[OF assms(1), of "qu_bufs q ! tag" tag op sector n data] assms(3,4) Request B by auto
    with live Request queue_ok_update(1)[OF assms(2) io(4), of tag] show ?thesis
      by (intro that[of "q\<lparr>qu_bufs := (qu_bufs q)[tag := buf']\<rparr>" v' s' "[answer_of tag op res buf']"])
        (simp_all add: answer_of_def io(5)[symmetric])
  qed
next
  case (CommandFailed tag down)
  show ?thesis
  proof (cases "live_tag tag (qu_live q)")
    case False
    with CommandFailed assms that[of q v s "[]"] show ?thesis by (simp add: dead_tag_update)
  next
    case True
    with CommandFailed assms(1) queue_ok_update(2)[OF assms(2)] show ?thesis
      by (intro that[of "q\<lparr>qu_live := (qu_live q)[tag := False], qu_logged := qu_logged q @ (if down then [] else [tag])\<rparr>"
            v s "[]"]) simp_all
  qed
qed

lemma queue_runs:
  assumes "ready v s" "queue_ok B q" "B < 2 ^ 31" "\<forall>e \<in> set es. request_fits B e"
    and "disk_run (vm_size_bytes (vo_meta v)) es (qu_live q) (abs_disk v s) = (d, ans)"
  shows "\<exists>q' v' s'. queue_run es (q, v, s, out) = Some (q', v', s', out @ ans) \<and> ready v' s' \<and> abs_disk v' s' = d"
  using assms
proof (induction es arbitrary: q v s out ans)
  case Nil
  then show ?case by simp
next
  case (Cons e es)
  show ?case
  proof (cases "True \<in> set (qu_live q)")
    case False
    with Cons.prems(1,5) show ?thesis by (simp only: disk_run_dead[OF False]) simp
  next
    case True
    have fits: "request_fits B e" "\<forall>e \<in> set es. request_fits B e" using Cons.prems(4) by simp_all
    obtain q1 v1 s1 ans1 where step: "queue_step e (q, v, s, out) = Some (q1, v1, s1, out @ ans1)"
      and next1: "ready v1 s1" "queue_ok B q1" and meta: "vo_meta v1 = vo_meta v"
      and event: "disk_event (vm_size_bytes (vo_meta v)) e (qu_live q) (abs_disk v s) = (abs_disk v1 s1, qu_live q1, ans1)"
      by (rule queue_event[OF Cons.prems(1,2,3) fits(1)])
    obtain ans2 where rest: "disk_run (vm_size_bytes (vo_meta v1)) es (qu_live q1) (abs_disk v1 s1) = (d, ans2)"
      "ans = ans1 @ ans2"
      using Cons.prems(5) event by (auto simp: meta split: prod.splits)
    from Cons.IH[OF next1 Cons.prems(3) fits(2) rest(1), of "out @ ans1"] True step rest(2)
    show ?thesis by simp
  qed
qed


section \<open>A run\<close>

lemma demo_ready: "2 \<le> cap \<Longrightarrow> ready (demo_volume cap) empty_store"
  using demo_volume_ok[of cap] by (simp add: ready_def chunks_def fd_cache_new_def)

abbreviation demo_events :: "ring_event list" where
  "demo_events \<equiv> [Request 0 UBLK_IO_OP_WRITE 1 1 (replicate 512 7), Request 1 UBLK_IO_OP_FLUSH 0 0 [],
     CommandFailed 0 True, Request 2 UBLK_IO_OP_READ 1 1 [], Request 3 UBLK_IO_OP_READ 16 1 []]"

abbreviation demo_answers :: "answer list" where
  "demo_answers \<equiv> [(0, 512, []), (1, 0, []), (2, 512, replicate 512 7), (3, -5, [])]"

lemma demo_run:
  "disk_run 8192 demo_events (replicate 4 True) d =
     (let c = \<lambda>i. if 512 \<le> i \<and> i < 1024 then 7 else dk_content d i in (\<lparr>dk_content = c, dk_stable = c\<rparr>, demo_answers))"
proof -
  let ?c = "\<lambda>i. if 1 * 512 \<le> i \<and> i < 1 * 512 + 1 * 512 then replicate 512 7 ! (i - 1 * 512) else dk_content d i"
  have live4: "replicate 4 True = [True, True, True, True]" by (simp add: numeral_eq_Suc)
  have tags: "live_tag 0 [True, True, True, True] = True" "live_tag 1 [True, True, True, True] = True"
    "[True, True, True, True][0 := False] = [False, True, True, True]"
    "live_tag 2 [False, True, True, True] = True" "live_tag 3 [False, True, True, True] = True"
    by (simp_all add: live_tag_def numeral_eq_Suc)
  have range: "in_range 8192 1 1 = True" "in_range 8192 16 1 = False" by (simp_all add: in_range_def)
  have read: "map (\<lambda>j. ?c (1 * 512 + j)) [0..<1 * 512] = replicate 512 7"
    by (intro nth_equalityI) (simp_all del: upt_rec_numeral)
  have content: "?c = (\<lambda>i. if 512 \<le> i \<and> i < 1024 then 7 else dk_content d i)"
    by (rule ext) (auto intro!: nth_replicate)
  have "disk_run 8192 demo_events (replicate 4 True) d =
      (d\<lparr>dk_content := ?c, dk_stable := ?c\<rparr>, [(0, int (1 * 512), []), (1, 0, []),
        (2, int (1 * 512), map (\<lambda>j. ?c (1 * 512 + j)) [0..<1 * 512]), (3, -5, [])])"
    by (simp only: live4 disk_run.simps disk_event.simps disk_serve.simps tags range Let_def prod.case if_True if_False
        not_True_eq_False append.simps ideal_disk.select_convs ideal_disk.update_convs) simp
  also have "\<dots> = (\<lparr>dk_content = ?c, dk_stable = ?c\<rparr>, demo_answers)"
    unfolding read by simp
  finally show ?thesis unfolding content Let_def .
qed


end
