(* ===== verification/Scheduler.thy ===== *)
theory Scheduler
  imports Background
begin

text \<open>
  The cron scheduler as a system (\<open>spawn_scheduler\<close>, \<open>fire_due_schedules\<close>, \<open>await_workload\<close> of
  \<open>hostd/src/vmm/firecracker/schedule.rs\<close>, \<open>start_background_tasks\<close> of \<open>auto_suspend.rs\<close>): the ticks of the
  loop, the runs it has spawned and the rest of hostd interleave in any order.  What is proved: no two
  runs of a VM overlap, and every occurrence of a schedule is looked at by exactly one tick, which
  launches a run of the VM unless one is in progress; this needs a clock that does not go back.
  A run's wait is written out with its stop: the timeout bounds the wait only up to the stop.
\<close>

section \<open>The loop and its runs\<close>

text \<open>The log is not part of hostd: a tick, with the VMM as it saw it, its window and the VMs it
  launched a run for; the end of a run.\<close>

datatype 'h sched_event =
    SchedTick "'h vmm" instant instant "vm_id list"
  | RunEnd vm_id

record 'h scheduler =
  sd_vmm :: "'h vmm"
  sd_last_tick :: instant
  sd_runs :: "vm_id list"
  sd_log :: "'h sched_event list"

definition spawn_scheduler :: "instant \<Rightarrow> 'h vmm \<Rightarrow> 'h scheduler" where
  "spawn_scheduler now v = \<lparr>sd_vmm = v, sd_last_tick = now, sd_runs = [], sd_log = []\<rparr>"

definition sched_tick ::
  "(string \<Rightarrow> string + 'c) \<Rightarrow> ('c \<Rightarrow> instant \<Rightarrow> instant option) \<Rightarrow> instant \<Rightarrow> 'h scheduler \<Rightarrow> 'h scheduler" where
  "sched_tick from_str next_after now s =
     (case fire_due_schedules from_str next_after (sd_last_tick s) now (sd_vmm s) of
        (v', runs) \<Rightarrow>
          s\<lparr>sd_vmm := v', sd_last_tick := now, sd_runs := sd_runs s @ runs,
            sd_log := sd_log s @ [SchedTick (sd_vmm s) (sd_last_tick s) now runs]\<rparr>)"

definition run_ends :: "vm_id \<Rightarrow> 'h scheduler \<Rightarrow> 'h scheduler" where
  "run_ends vm s = s\<lparr>sd_vmm := scheduled_run_ended vm (sd_vmm s), sd_runs := remove1 vm (sd_runs s),
     sd_log := sd_log s @ [RunEnd vm]\<rparr>"

text \<open>The rest of hostd does not touch the run locks, but for \<open>destroy_vm\<close>, which forgets the VM's.\<close>

definition keeps_run_locks :: "'h vmm \<Rightarrow> 'h vmm \<Rightarrow> bool" where
  "keeps_run_locks v v' \<longleftrightarrow> (\<forall>vm. map_of (fm_run_locks v') vm = map_of (fm_run_locks v) vm \<or>
     (map_of (fm_run_locks v') vm = None \<and> map_of (fm_vms v') vm = None))"

text \<open>\<open>forwards\<close> is a clock that does not go back.  The id of a VM that was destroyed during its run is not
  given to another while the run lasts.\<close>

inductive sched_step ::
  "(string \<Rightarrow> string + 'c) \<Rightarrow> ('c \<Rightarrow> instant \<Rightarrow> instant option) \<Rightarrow> bool \<Rightarrow> 'h scheduler \<Rightarrow> 'h scheduler \<Rightarrow> bool"
  for from_str next_after forwards where
  Ticks: "(forwards \<Longrightarrow> sd_last_tick s \<le> now) \<Longrightarrow>
    sched_step from_str next_after forwards s (sched_tick from_str next_after now s)"
| RunEnds: "vm \<in> set (sd_runs s) \<Longrightarrow> sched_step from_str next_after forwards s (run_ends vm s)"
| Rest: "keeps_run_locks (sd_vmm s) v' \<Longrightarrow>
    (\<And>vm. vm \<in> set (sd_runs s) \<Longrightarrow> map_of (fm_vms (sd_vmm s)) vm = None \<Longrightarrow> map_of (fm_vms v') vm = None) \<Longrightarrow>
    sched_step from_str next_after forwards s (s\<lparr>sd_vmm := v'\<rparr>)"

section \<open>What the operations keep\<close>

lemma keeps_run_locks_refl [simp]: "fm_run_locks v' = fm_run_locks v \<Longrightarrow> keeps_run_locks v v'"
  by (simp add: keeps_run_locks_def)

lemma set_inst_run_locks [simp]: "fm_run_locks (set_inst r f v) = fm_run_locks v"
  "fm_run_locks (set_entry vm g v) = fm_run_locks v" "fm_run_locks (woken now vm v) = fm_run_locks v"
  by (simp_all add: set_inst_def set_entry_def woken_def)

lemma inst_transition_run_locks: "fm_run_locks (fst (inst_transition r next v)) = fm_run_locks v"
  by (auto simp: inst_transition_def split: option.split sum.split)

lemma leave_run_locks:
  "(\<And>v. fm_run_locks (fst (k v)) = fm_run_locks v) \<Longrightarrow> fm_run_locks (fst (leave r next k v)) = fm_run_locks v"
  using inst_transition_run_locks[of r "next" v] by (auto simp: leave_def split: prod.split sum.split)

lemma lifecycle_run_locks:
  "fm_run_locks (fst (start_finish now p w j v)) = fm_run_locks v"
  "fm_run_locks (fst (pause_finish p j v)) = fm_run_locks v"
  "fm_run_locks (fst (resume_finish p j v)) = fm_run_locks v"
  "fm_run_locks (fst (snapshot_failed e j v)) = fm_run_locks v"
  "fm_run_locks (fst (restore_finish now oc j v)) = fm_run_locks v"
  by (auto simp: start_finish_def pause_finish_def resume_finish_def snapshot_failed_def restore_finish_def
      leave_run_locks split: sum.split option.split)

lemma destroy_keeps_run_locks: "keeps_run_locks v (fst (destroy_vm os to_json vm v))"
  by (auto simp: destroy_vm_def Let_def keeps_run_locks_def map_simps split: option.split prod.split)

section \<open>One tick\<close>

text \<open>The VMs with an occurrence in a window, by the cron crate's \<open>occ\<close>.\<close>

definition fires ::
  "(string \<Rightarrow> string + 'c) \<Rightarrow> ('c \<Rightarrow> instant set) \<Rightarrow> 'h vmm \<Rightarrow> instant \<Rightarrow> instant \<Rightarrow> vm_id set" where
  "fires from_str occ v lo hi = {vm. \<exists>e i expr c. (vm, e) \<in> set (fm_vms v) \<and> inst v (fe_instance e) = Some i \<and>
     vc_mode (vi_vm_config i) = ScheduleMode \<and> vc_cron_schedule (vi_vm_config i) = Some expr \<and>
     parse_cron_schedule from_str expr = Inr c \<and> (\<exists>x \<in> occ c. lo < x \<and> x \<le> hi)}"

lemma cron_due_fires:
  assumes "\<And>c. next_law (occ c) (next_after c)"
  shows "cron_due from_str next_after lo hi i \<longleftrightarrow>
    vc_mode (vi_vm_config i) = ScheduleMode \<and> (\<exists>expr c. vc_cron_schedule (vi_vm_config i) = Some expr \<and>
      parse_cron_schedule from_str expr = Inr c \<and> (\<exists>x \<in> occ c. lo < x \<and> x \<le> hi))"
  unfolding cron_due_def next_law_due[OF assms]
  by (cases "vc_cron_schedule (vi_vm_config i)") (auto split: sum.split)

lemma due_schedules_fires:
  assumes "\<And>c. next_law (occ c) (next_after c)"
  shows "set (due_schedules from_str next_after lo hi v) = fires from_str occ v lo hi"
proof -
  have "set (due_schedules from_str next_after lo hi v) = {vm. \<exists>e i. (vm, e) \<in> set (fm_vms v) \<and>
      inst v (fe_instance e) = Some i \<and> cron_due from_str next_after lo hi i}"
    by (force simp: due_schedules_def split: option.splits)
  then show ?thesis unfolding fires_def cron_due_fires[OF assms] by blast
qed

lemma fire_fold_locks:
  assumes "foldl (\<lambda>(v, runs) vm. case spawn_scheduled_run vm v of
       (v', True) \<Rightarrow> (v', runs @ [vm]) | (v', False) \<Rightarrow> (v', runs)) (v, runs) due = (v', runs')"
  shows "fm_vms v' = fm_vms v \<and> (\<exists>new. runs' = runs @ new \<and> distinct new \<and>
    set new = {vm \<in> set due. map_of (fm_run_locks v) vm \<noteq> Some True} \<and>
    (\<forall>vm. map_of (fm_run_locks v') vm = (if vm \<in> set new then Some True else map_of (fm_run_locks v) vm)))"
  using assms
proof (induction due arbitrary: v runs)
  case (Cons vm due)
  show ?case
  proof (cases "map_of (fm_run_locks v) vm = Some True")
    case True
    with Cons.IH[of v runs] Cons.prems show ?thesis by (auto simp: spawn_scheduled_run_def)
  next
    case False
    let ?v = "v\<lparr>fm_run_locks := AList.update vm True (fm_run_locks v)\<rparr>"
    have "fm_vms v' = fm_vms ?v \<and> (\<exists>new. runs' = (runs @ [vm]) @ new \<and> distinct new \<and>
        set new = {u \<in> set due. map_of (fm_run_locks ?v) u \<noteq> Some True} \<and>
        (\<forall>u. map_of (fm_run_locks v') u = (if u \<in> set new then Some True else map_of (fm_run_locks ?v) u)))"
      using False Cons.prems by (intro Cons.IH) (simp add: spawn_scheduled_run_def)
    then obtain new where vms: "fm_vms v' = fm_vms v" and runs: "runs' = runs @ vm # new" and new: "distinct new"
      "set new = {u \<in> set due. map_of (fm_run_locks ?v) u \<noteq> Some True}"
      and locks: "\<forall>u. map_of (fm_run_locks v') u = (if u \<in> set new then Some True else map_of (fm_run_locks ?v) u)"
      by auto
    have set_new: "set new = {u \<in> set due. u \<noteq> vm \<and> map_of (fm_run_locks v) u \<noteq> Some True}"
      unfolding new(2) by (auto simp: map_simps split: if_splits)
    have "map_of (fm_run_locks v') u = (if u \<in> set (vm # new) then Some True else map_of (fm_run_locks v) u)" for u
      using locks by (simp add: map_simps)
    moreover have "set (vm # new) = {u \<in> set (vm # due). map_of (fm_run_locks v) u \<noteq> Some True}"
      using False set_new by auto
    moreover have "distinct (vm # new)" using new(1) set_new by simp
    ultimately show ?thesis using vms runs by blast
  qed
qed simp

lemma fire_due_locks:
  assumes "fire_due_schedules from_str next_after lo hi v = (v', runs)"
    and "\<And>c. next_law (occ c) (next_after c)"
  shows "fm_vms v' = fm_vms v" "distinct runs"
    "set runs = {vm \<in> fires from_str occ v lo hi. map_of (fm_run_locks v) vm \<noteq> Some True}"
    "map_of (fm_run_locks v') vm = (if vm \<in> set runs then Some True else map_of (fm_run_locks v) vm)"
  using fire_fold_locks[OF assms(1)[unfolded fire_due_schedules_def]]
    due_schedules_fires[of occ next_after from_str lo hi v, OF assms(2)]
  by (auto split: if_splits)

section \<open>Every run of the system\<close>

text \<open>What a log says: the runs in progress after it, and whether its next entry is as it should be.\<close>

definition runs_after :: "'h sched_event list \<Rightarrow> vm_id list" where
  "runs_after log = foldl (\<lambda>r ev. case ev of SchedTick _ _ _ new \<Rightarrow> r @ new | RunEnd vm \<Rightarrow> remove1 vm r) [] log"

definition in_window :: "instant \<Rightarrow> 'h sched_event \<Rightarrow> bool" where
  "in_window x ev \<longleftrightarrow> (case ev of SchedTick _ lo hi _ \<Rightarrow> lo < x \<and> x \<le> hi | RunEnd _ \<Rightarrow> False)"

definition event_right ::
  "(string \<Rightarrow> string + 'c) \<Rightarrow> ('c \<Rightarrow> instant set) \<Rightarrow> vm_id list \<Rightarrow> 'h sched_event \<Rightarrow> bool" where
  "event_right from_str occ running ev \<longleftrightarrow> (case ev of
     SchedTick v lo hi new \<Rightarrow> distinct new \<and> set new = fires from_str occ v lo hi - set running
   | RunEnd vm \<Rightarrow> vm \<in> set running)"

definition log_right ::
  "(string \<Rightarrow> string + 'c) \<Rightarrow> ('c \<Rightarrow> instant set) \<Rightarrow> 'h sched_event list \<Rightarrow> bool" where
  "log_right from_str occ log \<longleftrightarrow>
     (\<forall>k < length log. event_right from_str occ (runs_after (take k log)) (log ! k))"

lemma runs_after_snoc: "runs_after (log @ [ev]) =
    (case ev of SchedTick _ _ _ new \<Rightarrow> runs_after log @ new | RunEnd vm \<Rightarrow> remove1 vm (runs_after log))"
  by (simp add: runs_after_def split: sched_event.split)

lemma log_right_snoc:
  "log_right from_str occ (log @ [ev]) \<longleftrightarrow> log_right from_str occ log \<and> event_right from_str occ (runs_after log) ev"
  by (auto simp: log_right_def nth_append less_Suc_eq)

text \<open>The windows so far are disjoint and cover the time since the start.\<close>

definition windows_cover :: "instant \<Rightarrow> instant \<Rightarrow> 'h sched_event list \<Rightarrow> bool" where
  "windows_cover t0 till log \<longleftrightarrow> t0 \<le> till \<and>
     (\<forall>x. (\<exists>k < length log. in_window x (log ! k)) \<longleftrightarrow> t0 < x \<and> x \<le> till) \<and>
     (\<forall>x j k. j < length log \<longrightarrow> k < length log \<longrightarrow> in_window x (log ! j) \<longrightarrow> in_window x (log ! k) \<longrightarrow> j = k)"

lemma windows_cover_snoc:
  "windows_cover t0 till (log @ [ev]) \<longleftrightarrow> t0 \<le> till \<and>
     (\<forall>x. (\<exists>k < length log. in_window x (log ! k)) \<or> in_window x ev \<longleftrightarrow> t0 < x \<and> x \<le> till) \<and>
     (\<forall>x j k. j < length log \<longrightarrow> k < length log \<longrightarrow> in_window x (log ! j) \<longrightarrow> in_window x (log ! k) \<longrightarrow> j = k) \<and>
     (\<forall>x. in_window x ev \<longrightarrow> (\<forall>k < length log. \<not> in_window x (log ! k)))"
proof -
  have ex: "(\<exists>k < length (log @ [ev]). in_window x ((log @ [ev]) ! k)) \<longleftrightarrow>
      (\<exists>k < length log. in_window x (log ! k)) \<or> in_window x ev" for x
    by (simp add: Ex_less_Suc nth_append disj_commute cong: conj_cong)
  have uniq: "(\<forall>j k. j < length (log @ [ev]) \<longrightarrow> k < length (log @ [ev]) \<longrightarrow>
        in_window x ((log @ [ev]) ! j) \<longrightarrow> in_window x ((log @ [ev]) ! k) \<longrightarrow> j = k) \<longleftrightarrow>
      (\<forall>j k. j < length log \<longrightarrow> k < length log \<longrightarrow> in_window x (log ! j) \<longrightarrow> in_window x (log ! k) \<longrightarrow> j = k) \<and>
      (in_window x ev \<longrightarrow> (\<forall>k < length log. \<not> in_window x (log ! k)))" for x
    by (auto simp: nth_append less_Suc_eq; blast)
  show ?thesis unfolding windows_cover_def ex uniq by (simp only: all_conj_distrib)
qed

lemma windows_cover_tick:
  assumes "windows_cover t0 till log" "till \<le> now"
  shows "windows_cover t0 now (log @ [SchedTick v till now new])"
proof -
  have old: "t0 < x \<and> x \<le> till \<longleftrightarrow> (\<exists>k < length log. in_window x (log ! k))" for x
    using assms(1) by (auto simp: windows_cover_def)
  have new: "in_window x (SchedTick v till now new) \<longleftrightarrow> till < x \<and> x \<le> now" for x
    by (simp add: in_window_def)
  have t0: "t0 \<le> till" using assms(1) by (simp add: windows_cover_def)
  show ?thesis unfolding windows_cover_snoc new
  proof (intro conjI allI)
    show "t0 \<le> now" using t0 assms(2) by simp
    show "((\<exists>k < length log. in_window x (log ! k)) \<or> till < x \<and> x \<le> now) = (t0 < x \<and> x \<le> now)" for x
      unfolding old[symmetric] using t0 assms(2) by auto
    show "till < x \<and> x \<le> now \<longrightarrow> (\<forall>k < length log. \<not> in_window x (log ! k))" for x
      using old[of x] by auto
  qed (use assms(1) in \<open>auto simp: windows_cover_def\<close>)
qed

lemma windows_cover_end: "windows_cover t0 till log \<Longrightarrow> windows_cover t0 till (log @ [RunEnd vm])"
  unfolding windows_cover_snoc by (simp add: windows_cover_def in_window_def[of _ "RunEnd vm"])

definition locks_match :: "vm_id list \<Rightarrow> 'h vmm \<Rightarrow> bool" where
  "locks_match runs v \<longleftrightarrow> (\<forall>vm.
     (map_of (fm_run_locks v) vm = Some True \<longrightarrow> vm \<in> set runs) \<and>
     (vm \<in> set runs \<longrightarrow> map_of (fm_vms v) vm \<noteq> None \<longrightarrow> map_of (fm_run_locks v) vm = Some True))"

definition sched_inv :: "(string \<Rightarrow> string + 'c) \<Rightarrow> ('c \<Rightarrow> instant set) \<Rightarrow> instant \<Rightarrow> 'h scheduler \<Rightarrow> bool" where
  "sched_inv from_str occ t0 s \<longleftrightarrow>
     distinct (sd_runs s) \<and> runs_after (sd_log s) = sd_runs s \<and> locks_match (sd_runs s) (sd_vmm s) \<and>
     log_right from_str occ (sd_log s) \<and> windows_cover t0 (sd_last_tick s) (sd_log s)"

lemma sched_invD:
  assumes "sched_inv from_str occ t0 s"
  shows "distinct (sd_runs s)" "runs_after (sd_log s) = sd_runs s" "locks_match (sd_runs s) (sd_vmm s)"
    "log_right from_str occ (sd_log s)" "windows_cover t0 (sd_last_tick s) (sd_log s)"
  using assms unfolding sched_inv_def by simp_all

lemma sched_invI:
  "distinct (sd_runs s) \<Longrightarrow> runs_after (sd_log s) = sd_runs s \<Longrightarrow> locks_match (sd_runs s) (sd_vmm s) \<Longrightarrow>
     log_right from_str occ (sd_log s) \<Longrightarrow> windows_cover t0 (sd_last_tick s) (sd_log s) \<Longrightarrow> sched_inv from_str occ t0 s"
  unfolding sched_inv_def by simp

lemma fires_known: "vm \<in> fires from_str occ v lo hi \<Longrightarrow> map_of (fm_vms v) vm \<noteq> None"
  by (auto simp: fires_def dest: weak_map_of_SomeI)

lemma sched_step_inv:
  assumes "sched_step from_str next_after True s s'" "sched_inv from_str occ t0 s" "\<And>c. next_law (occ c) (next_after c)"
  shows "sched_inv from_str occ t0 s'"
  using assms(1)
proof cases
  note inv = sched_invD[OF assms(2)]
  case (Ticks now)
  obtain v' runs where fire: "fire_due_schedules from_str next_after (sd_last_tick s) now (sd_vmm s) = (v', runs)"
    by fastforce
  note tick = fire_due_locks[OF fire assms(3)]
  have new: "set runs = fires from_str occ (sd_vmm s) (sd_last_tick s) now - set (sd_runs s)"
    unfolding tick(3) using inv(3) fires_known by (fastforce simp: locks_match_def)
  have "locks_match (sd_runs s @ runs) v'"
    using inv(3) by (auto simp: locks_match_def tick(1) tick(4) split: if_splits)
  moreover have "distinct (sd_runs s @ runs)" using inv(1) tick(2) new by auto
  moreover have "windows_cover t0 now (sd_log s @ [SchedTick (sd_vmm s) (sd_last_tick s) now runs])"
    using windows_cover_tick[OF inv(5)] Ticks(2) by simp
  ultimately show ?thesis unfolding Ticks(1)
    by (intro sched_invI) (simp_all add: sched_tick_def fire runs_after_snoc log_right_snoc event_right_def
        inv(2,4) new tick(2))
next
  note inv = sched_invD[OF assms(2)]
  case (RunEnds vm)
  have "locks_match (remove1 vm (sd_runs s)) (scheduled_run_ended vm (sd_vmm s))"
    using inv(1,3) by (auto simp: locks_match_def scheduled_run_ended_def map_simps split: if_splits)
  then show ?thesis unfolding RunEnds(1)
    using RunEnds(2) by (intro sched_invI) (simp_all add: run_ends_def runs_after_snoc log_right_snoc event_right_def
        windows_cover_end inv)
next
  note inv = sched_invD[OF assms(2)]
  case (Rest v')
  have kept: "map_of (fm_run_locks v') vm = map_of (fm_run_locks (sd_vmm s)) vm \<or>
      (map_of (fm_run_locks v') vm = None \<and> map_of (fm_vms v') vm = None)" for vm
    using Rest(2) by (simp add: keeps_run_locks_def)
  have "(map_of (fm_run_locks v') vm = Some True \<longrightarrow> vm \<in> set (sd_runs s)) \<and>
      (vm \<in> set (sd_runs s) \<longrightarrow> map_of (fm_vms v') vm \<noteq> None \<longrightarrow> map_of (fm_run_locks v') vm = Some True)" for vm
    using kept[of vm] inv(3)[unfolded locks_match_def, rule_format, of vm] Rest(3)[of vm] by auto
  then have "locks_match (sd_runs s) v'" unfolding locks_match_def by blast
  then show ?thesis unfolding Rest(1) by (intro sched_invI) (simp_all add: inv)
qed

lemma sched_run_inv:
  "(sched_step from_str next_after True)\<^sup>*\<^sup>* s s' \<Longrightarrow> sched_inv from_str occ t0 s \<Longrightarrow>
     (\<And>c. next_law (occ c) (next_after c)) \<Longrightarrow> sched_inv from_str occ t0 s'"
  by (induction rule: rtranclp_induct) (blast intro: sched_step_inv)+

lemma spawn_scheduler_inv:
  "(\<And>vm. map_of (fm_run_locks v) vm \<noteq> Some True) \<Longrightarrow> sched_inv from_str occ t0 (spawn_scheduler t0 v)"
  by (simp add: sched_inv_def spawn_scheduler_def runs_after_def locks_match_def log_right_def windows_cover_def)


section \<open>The wait of a run, to its end\<close>

text \<open>After the stop, the wait for the workload to settle; \<open>settled\<close> is what its polls see.\<close>

definition settle_poll :: "vm_id \<Rightarrow> workload_id \<Rightarrow> 'h vmm \<Rightarrow> unit result option" where
  "settle_poll vm_id wid v =
     (case get_workload vm_id wid v of
        Inl e \<Rightarrow> Some (Inl e)
      | Inr w \<Rightarrow> if is_active w then None else Some (Inr ()))"

definition await_to_end ::
  "workload_env \<Rightarrow> ('h vmm \<Rightarrow> 'h vmm) \<Rightarrow> ('h vmm \<Rightarrow> 'h vmm) \<Rightarrow> vm_id \<Rightarrow> workload_id \<Rightarrow> nat option \<Rightarrow>
   (nat \<Rightarrow> 'h vmm) \<Rightarrow> (nat \<Rightarrow> nat) \<Rightarrow> (nat \<Rightarrow> 'h vmm) \<Rightarrow> unit result option" where
  "await_to_end env m1 m2 vm_id wid timeout_secs obs clock settled =
     (case await_workload vm_id wid timeout_secs obs clock of
        None \<Rightarrow> None
      | Some (k, AwaitDone) \<Rightarrow> Some (Inr ())
      | Some (k, AwaitError e) \<Rightarrow> Some (Inl e)
      | Some (k, AwaitTimeout) \<Rightarrow>
          (case stop_workload env m1 m2 vm_id wid (obs k) of
             (_, _, Inl e) \<Rightarrow> Some (Inl e)
           | (_, _, Inr _) \<Rightarrow> map_option snd (poll_loop (\<lambda>j. settle_poll vm_id wid (settled j)) 0)))"

text \<open>C34: A scheduled run with a timeout is documented to be bounded by it.  Its wait reaches the stop, or an
  end before it, after at most half the timeout's seconds of polls; but then it never ends exactly when
  the stop could be sent and the workload is active at every later poll (the guest's report was lost, or the
  process cannot be killed): the VM stays started and its run lock held.\<close>

theorem timeout_bounds_only_until_stop:
  assumes "\<And>k. 2000 * k \<le> clock k"
  shows "(\<exists>k out. await_workload vm wid (Some t) obs clock = Some (k, out) \<and> k \<le> (t + 1) div 2) \<and>
    (await_to_end env m1 m2 vm wid (Some t) obs clock settled = None \<longleftrightarrow>
      (\<exists>k v' sent w. await_workload vm wid (Some t) obs clock = Some (k, AwaitTimeout) \<and>
         stop_workload env m1 m2 vm wid (obs k) = (v', sent, Inr w) \<and>
         (\<forall>j. \<exists>w. get_workload vm wid (settled j) = Inr w \<and> is_active w)))"
proof -
  obtain k out where k: "await_workload vm wid (Some t) obs clock = Some (k, out)" "k \<le> (t + 1) div 2"
    using await_workload_ends[where timeout = "Some t" and clock = clock and vm = vm and wid = wid and obs = obs, OF assms] by auto
  have settle: "settle_poll vm wid v = None \<longleftrightarrow> (\<exists>w. get_workload vm wid v = Inr w \<and> is_active w)" for v
    by (auto simp: settle_poll_def split: sum.splits)
  have "poll_loop (\<lambda>j. settle_poll vm wid (settled j)) 0 = None \<longleftrightarrow>
      (\<forall>j. \<exists>w. get_workload vm wid (settled j) = Inr w \<and> is_active w)"
    unfolding poll_loop_None settle ..
  with k show ?thesis
    by (cases out) (auto simp: await_to_end_def split: prod.splits sum.splits)
qed

section \<open>The background tasks\<close>

datatype background_task = AutoSuspendSignals | HttpIdleDetector | CronScheduler

text \<open>\<open>start_background_tasks\<close>: whether the receiver of the guests' idle signals is still there, and then
  the tasks spawned.  A second call finds no receiver.\<close>

definition start_background_tasks :: "bool \<Rightarrow> bool \<times> background_task list" where
  "start_background_tasks receiver =
     (False, (if receiver then [AutoSuspendSignals] else []) @ [HttpIdleDetector, CronScheduler])"

text \<open>The task of the signals: per signal the VM, the time, what the snapshot comes to, and what runs
  between the gate and the snapshot.  The task of the idle detector: its ticks.\<close>

definition signal_loop :: "(vm_id \<times> instant \<times> unit result \<times> ('h vmm \<Rightarrow> 'h vmm)) list \<Rightarrow> 'h vmm \<Rightarrow> 'h vmm" where
  "signal_loop signals v = foldl (\<lambda>v (vm_id, now, outcome, meanwhile). maybe_auto_suspend now outcome meanwhile vm_id v) v signals"

definition idle_loop ::
  "(instant \<times> (vm_id \<Rightarrow> unit result) \<times> (vm_id \<Rightarrow> 'h vmm \<Rightarrow> 'h vmm)) list \<Rightarrow> 'h vmm \<Rightarrow> 'h vmm" where
  "idle_loop ticks v = foldl (\<lambda>v (now, outcome, meanwhile). check_http_idle_vms now outcome meanwhile v) v ticks"

text \<open>guestd reports idleness on every interval; it is documented to be safe and idempotent.  Once a
  signal has suspended the VM, the ones after it do nothing.\<close>

lemma signals_idempotent:
  assumes "auto_suspend_gate now vm v" "\<forall>(vm', _, _, m) \<in> set signals. vm' = vm \<and> m = (\<lambda>u. u)"
  shows "signal_loop ((vm, now, Inr (), \<lambda>u. u) # signals) v = maybe_auto_suspend now (Inr ()) (\<lambda>u. u) vm v"
proof -
  define w where "w = maybe_auto_suspend now (Inr ()) (\<lambda>u. u) vm v"
  obtain e i where "entry_instance vm v = Some (e, i)" "vi_state i = Started"
    by (rule auto_suspend_gateE[OF assms(1)])
  from snapshot_vm_started[OF this, of now "Inr ()"] assms(1) have "vm_state_of vm w = Some Suspended"
    by (auto simp: w_def maybe_auto_suspend_def vm_state_of_entry)
  then have "\<not> auto_suspend_gate at vm w" for at
    by (auto simp: vm_state_of_entry elim!: auto_suspend_gateE)
  then have quiet: "maybe_auto_suspend at oc (\<lambda>u. u) vm w = w" for at oc
    by (simp add: maybe_auto_suspend_def)
  have "signal_loop signals w = w" using assms(2)
    by (induction signals) (auto simp: signal_loop_def quiet)
  then show ?thesis by (simp add: signal_loop_def w_def)
qed

section \<open>The properties on a concrete VM\<close>

text \<open>A VM whose schedule fires every hour; times are in milliseconds.\<close>

abbreviation hourly :: "unit \<Rightarrow> instant \<Rightarrow> instant option" where
  "hourly \<equiv> \<lambda>_. every 3600000"

abbreviation demo_parser :: "string \<Rightarrow> string + unit" where
  "demo_parser \<equiv> \<lambda>_. Inr ()"

abbreviation demo_locked :: "(vm_id, bool) amap \<Rightarrow> unit vmm" where
  "demo_locked l \<equiv> demo_cron\<lparr>fm_run_locks := l\<rparr>"

lemma demo_due: "due_schedules demo_parser hourly lo hi (demo_locked l) =
    (if (lo div 3600000 + 1) * 3600000 \<le> hi then [''vm-a''] else [])"
  by (simp add: due_schedules_def demo_cron_def demo_running_def inst_def fc_entry_new_def cron_due_def
      demo_cron_inst_def parse_cron_schedule_def every_def)

lemma demo_fire:
  "fire_due_schedules demo_parser hourly lo hi (demo_locked l) =
     (if (lo div 3600000 + 1) * 3600000 \<le> hi \<and> map_of l ''vm-a'' \<noteq> Some True
      then (demo_locked (AList.update ''vm-a'' True l), [''vm-a'']) else (demo_locked l, []))"
  by (simp add: fire_due_schedules_def demo_due spawn_scheduled_run_def)

lemma demo_tick:
  "sd_vmm s = demo_locked l \<Longrightarrow> sched_tick demo_parser hourly now s =
     (if (sd_last_tick s div 3600000 + 1) * 3600000 \<le> now \<and> map_of l ''vm-a'' \<noteq> Some True
      then s\<lparr>sd_vmm := demo_locked (AList.update ''vm-a'' True l), sd_last_tick := now, sd_runs := sd_runs s @ [''vm-a''],
             sd_log := sd_log s @ [SchedTick (demo_locked l) (sd_last_tick s) now [''vm-a'']]\<rparr>
      else s\<lparr>sd_vmm := demo_locked l, sd_last_tick := now,
             sd_log := sd_log s @ [SchedTick (demo_locked l) (sd_last_tick s) now []]\<rparr>)"
  by (simp add: sched_tick_def demo_fire)


text \<open>With a clock that is set back between two ticks, one occurrence is served twice: its run
  ends, the clock goes back four seconds, and the next tick launches it again.\<close>

lemma clock_step_back_fires_twice:
  "\<exists>s u v w. (sched_step demo_parser hourly False)\<^sup>*\<^sup>* (spawn_scheduler 3598000 (demo_locked [])) s \<and>
     sd_log s = [SchedTick u 3598000 3603000 [''vm-a''], RunEnd ''vm-a'', SchedTick v 3603000 3599000 [],
       SchedTick w 3599000 3604000 [''vm-a'']]"
proof -
  let ?tick = "sched_tick demo_parser hourly"
  let ?s0 = "spawn_scheduler 3598000 (demo_locked [])"
  let ?s2 = "run_ends ''vm-a'' (?tick 3603000 ?s0)"
  have s1: "?tick 3603000 ?s0 = \<lparr>sd_vmm = demo_locked [(''vm-a'', True)], sd_last_tick = 3603000, sd_runs = [''vm-a''],
      sd_log = [SchedTick (demo_locked []) 3598000 3603000 [''vm-a'']]\<rparr>"
    by (subst demo_tick[of _ "[]"]) (simp_all add: spawn_scheduler_def)
  have s2: "?s2 = \<lparr>sd_vmm = demo_locked [(''vm-a'', False)], sd_last_tick = 3603000, sd_runs = [],
      sd_log = [SchedTick (demo_locked []) 3598000 3603000 [''vm-a''], RunEnd ''vm-a'']\<rparr>"
    unfolding s1 by (simp add: run_ends_def scheduled_run_ended_def)
  have s3: "?tick 3599000 ?s2 = ?s2\<lparr>sd_last_tick := 3599000,
      sd_log := sd_log ?s2 @ [SchedTick (demo_locked [(''vm-a'', False)]) 3603000 3599000 []]\<rparr>"
    unfolding s2 by (subst demo_tick[of _ "[(''vm-a'', False)]"]) simp_all
  have s4: "sd_log (?tick 3604000 (?tick 3599000 ?s2)) = sd_log ?s2 @
      [SchedTick (demo_locked [(''vm-a'', False)]) 3603000 3599000 [],
       SchedTick (demo_locked [(''vm-a'', False)]) 3599000 3604000 [''vm-a'']]"
    unfolding s3 unfolding s2 by (subst demo_tick[of _ "[(''vm-a'', False)]"]) simp_all
  have step: "sched_step demo_parser hourly False s (?tick now s)" for s :: "unit scheduler" and now
    by (rule Ticks) simp
  have "sched_step demo_parser hourly False (?tick 3603000 ?s0) ?s2" by (rule RunEnds) (simp add: s1)
  then have "(sched_step demo_parser hourly False)\<^sup>*\<^sup>* ?s0 (?tick 3604000 (?tick 3599000 ?s2))"
    using step[of ?s0 3603000] step[of ?s2 3599000] step[of "?tick 3599000 ?s2" 3604000]
    by (meson r_into_rtranclp rtranclp.rtrancl_into_rtrancl)
  with s4 show ?thesis unfolding s2 by auto
qed

text \<open>A workload that is active for ever: its stop is sent, and the wait never ends.\<close>

definition demo_stuck :: "unit vmm" where
  "demo_stuck = demo_running\<lparr>fm_vms := [(''vm-a'', (fc_entry_new 0 demo_inst)\<lparr>fe_fc := Some 42, fe_guest_conn := Some 9,
     fe_workloads := [(''wl-'', workload_new [] 5 ''vm-a'' demo_spec)]\<rparr>)]\<rparr>"

abbreviation demo_env :: workload_env where
  "demo_env \<equiv> \<lparr>we_mkdir = Inr (), we_picks = [1], we_now = 8, we_conn = demo_conn, we_open = True\<rparr>"

lemma timeout_bounds_only_until_stop_witness:
  "await_to_end demo_env (\<lambda>u. u) (\<lambda>u. u) ''vm-a'' ''wl-'' (Some 10) (\<lambda>_. demo_stuck) (\<lambda>k. 2000 * k) (\<lambda>_. demo_stuck) = None"
proof -
  have active: "get_workload ''vm-a'' ''wl-'' demo_stuck = Inr (workload_new [] 5 ''vm-a'' demo_spec)"
    "is_active (workload_new [] 5 ''vm-a'' demo_spec)"
    by (simp_all add: get_workload_def demo_stuck_def ok_or_def workload_new_def is_active_def)
  have stop: "\<exists>v' sent w. stop_workload demo_env (\<lambda>u. u) (\<lambda>u. u) ''vm-a'' ''wl-'' demo_stuck = (v', sent, Inr w)"
    using active by (simp add: stop_workload_def guest_conn_def cached_conn_def demo_stuck_def demo_conn_def
        conn_send_def get_workload_def with_workload_mut_def set_entry_def ok_or_def)
  have "await_workload ''vm-a'' ''wl-'' (Some 10) (\<lambda>_. demo_stuck) (\<lambda>k. 2000 * k) = Some (0 + 5, AwaitTimeout)"
    unfolding await_workload_def by (rule poll_loop_first) (simp_all add: await_poll_def active)
  with stop active show ?thesis
    by (subst timeout_bounds_only_until_stop[THEN conjunct2]) auto
qed

end
