(* ===== verification/Ownership.thy ===== *)
theory Ownership
  imports Background Hostd
begin

text \<open>
  Who owns an address: \<open>create_vm\<close> and \<open>destroy_vm\<close> cut at the points where another task can run, next
  to each other and to every other operation of hostd, over the allocator's table.

  The allocator's nested maps are read as one set, \<open>held\<close>, of which an allocation adds one element and a
  release removes the elements of one VM.  The step relation has the pieces of creations and destructions
  of a hostd that has just started, the going away of their callers, and \<open>elsewhere\<close>, any step that leaves
  the table, the map and the addresses of the instances as they are; the lemmas \<open>same_nets_*\<close> show that the
  other operations of the VMM are such steps.
\<close>

section \<open>The address table\<close>

text \<open>VM, project, guest address and subnet index of each entry.\<close>

definition held :: "net_state \<Rightarrow> (vm_id \<times> project_id \<times> u32 \<times> u32) set" where
  "held s = {(vm, pid, ip, idx). \<exists>p. (pid, p) \<in> set (projects s) \<and> (ip, vm) \<in> set (ps_vms p) \<and> ps_subnet_index p = idx}"

lemma held_iff:
  "(vm, pid, ip, idx) \<in> held s \<longleftrightarrow>
     (\<exists>p. (pid, p) \<in> set (projects s) \<and> (ip, vm) \<in> set (ps_vms p) \<and> ps_subnet_index p = idx)"
  by (simp add: held_def)

lemma held_owner: "v \<in> fst ` held s \<longleftrightarrow> (\<exists>pid p. (pid, p) \<in> set (projects s) \<and> owns_vm p v)"
  by (force simp: held_def owns_vm_iff)

lemma held_default [simp]: "held net_state_default = {}"
  by (simp add: held_def net_state_default_def)

lemma heldE:
  assumes "ipam_wf n q s" "(vm, pid, ip, idx) \<in> held s"
  obtains p where "map_of (projects s) pid = Some p" "project_wf n q pid p" "(ip, vm) \<in> set (ps_vms p)"
    "ps_subnet_index p = idx"
proof -
  from assms(2) obtain p where p: "(pid, p) \<in> set (projects s)" "(ip, vm) \<in> set (ps_vms p)" "ps_subnet_index p = idx"
    by (auto simp: held_iff)
  with assms(1) have "map_of (projects s) pid = Some p" "project_wf n q pid p"
    by (auto simp: ipam_wf_def list_all_iff)
  with p that show thesis by blast
qed

lemma entry_unique: "distinct (map fst al) \<Longrightarrow> map_of al k = Some v \<Longrightarrow> (k, w) \<in> set al \<Longrightarrow> w = v"
  by (metis map_of_is_SomeI option.inject)

lemma held_at:
  assumes "distinct (map fst (projects s))" "map_of (projects s) pid = Some p"
  shows "(vm, pid, ip, idx) \<in> held s \<longleftrightarrow> (ip, vm) \<in> set (ps_vms p) \<and> idx = ps_subnet_index p"
  unfolding held_iff by (metis entry_unique[OF assms] map_of_SomeD[OF assms(2)])

lemma held_part:
  assumes "distinct (map fst (projects s))" "map_of (projects s) pid = Some p"
  shows "{t \<in> held s. fst (snd t) = pid} = {(vm, pid, ip, ps_subnet_index p) |vm ip. (ip, vm) \<in> set (ps_vms p)}"
  using held_at[OF assms] by auto

lemma index_unique:
  assumes "ipam_wf n q s" "map_of (projects s) pid = Some p" "map_of (projects s) pid' = Some p'"
    "ps_subnet_index p = ps_subnet_index p'"
  shows "pid = pid' \<and> p = p'"
proof -
  have "inj_on (\<lambda>(_, p). ps_subnet_index p) (set (projects s))" using assms(1) by (simp add: ipam_wf_def distinct_map)
  from inj_onD[OF this _ map_of_SomeD[OF assms(2)] map_of_SomeD[OF assms(3)]] assms(4) show ?thesis by simp
qed

lemma held_map_entry:
  assumes "distinct (map fst (projects s))" "map_of (projects s) pid = Some p"
    "\<And>p. ps_subnet_index (f p) = ps_subnet_index p"
  shows "held (s\<lparr>projects := AList.map_entry pid f (projects s)\<rparr>) =
    {t \<in> held s. fst (snd t) \<noteq> pid} \<union> {(vm, pid, ip, ps_subnet_index p) |vm ip. (ip, vm) \<in> set (ps_vms (f p))}"
proof -
  have at: "map_of (AList.map_entry pid f (projects s)) = (map_of (projects s))(pid \<mapsto> f p)"
    using assms(2) by (simp add: amap_map_entry)
  have d: "distinct (map fst (AList.map_entry pid f (projects s)))" using assms(1) by simp
  have "(pid', p') \<in> set (AList.map_entry pid f (projects s)) \<longleftrightarrow>
      (if pid' = pid then p' = f p else (pid', p') \<in> set (projects s))" for pid' p'
    unfolding map_of_eq_Some_iff[OF d, symmetric] at using assms(1) by auto
  then show ?thesis using assms(3) by (auto simp: held_def split: if_splits)
qed

lemma held_delete: "held (s\<lparr>projects := AList.delete pid (projects s)\<rparr>) = {t \<in> held s. fst (snd t) \<noteq> pid}"
  by (auto simp: held_def AList.delete_eq)

lemma alloc_held:
  assumes plan: "plan_ok n q" and wf: "ipam_wf n q s" and al: "alloc s pid v tap n q = (s', Inr plan)"
  obtains ip idx where "held s' = insert (v, pid, ip, idx) (held s)"
    "ap_vm_net plan = vm_net_new tap ip (net_host (net_subnet n idx q) 1) (net_subnet n idx q)"
proof (cases rule: alloc_cases[of s pid v tap n q])
  case none
  with al show ?thesis by simp
next
  case (existing p ip)
  have d: "distinct (map fst (projects s))" using wf by (simp add: ipam_wf_def)
  have pw: "project_wf n q pid p"
    using wf map_of_SomeD[OF existing(1)] by (auto simp: ipam_wf_def list_all_iff)
  have "usable_ip (net_subnet n (ps_subnet_index p) q) ip \<and> map_of (ps_vms p) ip = None"
    using plan pw existing by (intro lowest_free_ip_usable project_subnet_wf project_wf_subnet_prefix)
  then have up: "AList.update ip v (ps_vms p) = ps_vms p @ [(ip, v)]"
    by (simp add: update_fresh amap_none)
  have s': "s' = s\<lparr>projects := AList.map_entry pid (\<lambda>p. p\<lparr>ps_vms := AList.update ip v (ps_vms p)\<rparr>) (projects s)\<rparr>"
    and net: "ap_vm_net plan = vm_net_new tap ip (ps_gateway p) (net_subnet n (ps_subnet_index p) q)"
    using al by (auto simp: alloc_existing[OF existing])
  have "held s' = {t \<in> held s. fst (snd t) \<noteq> pid} \<union>
      {(vm, pid, ip', ps_subnet_index p) |vm ip'. (ip', vm) \<in> set (ps_vms p @ [(ip, v)])}"
    unfolding s' by (subst held_map_entry[OF d existing(1)]) (simp_all add: up)
  also have "\<dots> = insert (v, pid, ip, ps_subnet_index p)
      ({t \<in> held s. fst (snd t) \<noteq> pid} \<union> {t \<in> held s. fst (snd t) = pid})"
    unfolding held_part[OF d existing(1)] by auto
  also have "\<dots> = insert (v, pid, ip, ps_subnet_index p) (held s)" by auto
  finally have "held s' = insert (v, pid, ip, ps_subnet_index p) (held s)" .
  with that net pw show ?thesis by (simp add: project_wf_def Let_def)
next
  case (new i)
  have "held s' = insert (v, pid, net_host (net_subnet n (of_nat i) q) 2, of_nat i) (held s)"
    using al by (auto simp: alloc_new[OF new] held_def first_project_def)
  moreover have "ap_vm_net plan = vm_net_new tap (net_host (net_subnet n (of_nat i) q) 2)
      (net_host (net_subnet n (of_nat i) q) 1) (net_subnet n (of_nat i) q)"
    using al by (auto simp: alloc_new[OF new])
  ultimately show ?thesis by (rule that)
qed

lemma release_held:
  assumes wf: "ipam_wf n q s" and inj: "inj_on fst (held s)"
  shows "held (fst (release s v n q)) = {t \<in> held s. fst t \<noteq> v}"
proof (cases "find_owner v (projects s)")
  case None
  then have "v \<notin> fst ` held s" by (auto simp: held_owner find_owner_None)
  with None show ?thesis by (force simp: release_def)
next
  case (Some x)
  obtain pid p where x: "x = (pid, p)" by (cases x)
  have d: "distinct (map fst (projects s))" using wf by (simp add: ipam_wf_def)
  have m: "map_of (projects s) pid = Some p" "owns_vm p v" using find_owner_Some[of v "projects s" pid p] Some x d by auto
  obtain ip where own: "(v, pid, ip, ps_subnet_index p) \<in> held s"
    using m map_of_SomeD[OF m(1)] unfolding held_iff owns_vm_iff by force
  have only: "pid' = pid" if "(v, pid', ip', idx') \<in> held s" for pid' ip' idx'
    using inj_onD[OF inj _ that own] by simp
  have split: "{t \<in> held s. fst t \<noteq> v} = {t \<in> held s. fst (snd t) \<noteq> pid} \<union> {t \<in> held s. fst (snd t) = pid \<and> fst t \<noteq> v}"
    using only by auto
  have rest: "{t \<in> held s. fst (snd t) = pid \<and> fst t \<noteq> v} =
      {(vm, pid, ip, ps_subnet_index p) |vm ip. (ip, vm) \<in> set (ps_vms (remove_vm v p))}"
    by (auto simp: held_at[OF d m(1)] remove_vm_vms)
  have "fst (release s v n q) = rollback_alloc s pid v" using release_state[OF d, of v n q] Some x by simp
  then show ?thesis
    unfolding split rest using m(1)
    by (auto simp: rollback_alloc_alt held_delete held_map_entry[OF d m(1)])
qed

text \<open>What the table says of two VMs.\<close>

lemma held_ip:
  assumes plan: "plan_ok n q" and wf: "ipam_wf n q s"
    and "(a, pid, ip, idx) \<in> held s" "(b, pid', ip, idx') \<in> held s"
  shows "a = b"
proof -
  obtain p where p: "map_of (projects s) pid = Some p" "project_wf n q pid p" "(ip, a) \<in> set (ps_vms p)" "ps_subnet_index p = idx"
    by (rule heldE[OF wf assms(3)])
  obtain p' where p': "map_of (projects s) pid' = Some p'" "project_wf n q pid' p'" "(ip, b) \<in> set (ps_vms p')" "ps_subnet_index p' = idx'"
    by (rule heldE[OF wf assms(4)])
  from p(3) p'(3) have in_p: "ip \<in> set (map fst (ps_vms p))" "ip \<in> set (map fst (ps_vms p'))" by force+
  obtain i where i: "ip = net_host (net_subnet n (ps_subnet_index p) q) (of_nat i)" "offset_ok q (of_nat i)"
    using project_ips[OF plan p(2) in_p(1)] .
  obtain j where j: "ip = net_host (net_subnet n (ps_subnet_index p') q) (of_nat j)" "offset_ok q (of_nat j)"
    using project_ips[OF plan p'(2) in_p(2)] .
  have "ps_subnet_index p = ps_subnet_index p'"
    using project_hosts_apart[OF plan p(2) p'(2) i(2) j(2)] i(1) j(1) by simp
  with index_unique[OF wf p(1) p'(1)] have "p = p'" by blast
  then have "distinct (map fst (ps_vms p))" "(ip, b) \<in> set (ps_vms p)"
    using p(2) p'(3) by (auto simp: project_wf_def Let_def)
  with p(3) show "a = b" by (metis map_of_is_SomeI option.inject)
qed

lemma held_project:
  assumes wf: "ipam_wf n q s" and "(a, pid, ip, idx) \<in> held s" "(b, pid', ip', idx') \<in> held s"
  shows "pid = pid' \<longleftrightarrow> idx = idx'"
proof -
  obtain p where p: "map_of (projects s) pid = Some p" "ps_subnet_index p = idx" by (rule heldE[OF wf assms(2)])
  obtain p' where p': "map_of (projects s) pid' = Some p'" "ps_subnet_index p' = idx'" by (rule heldE[OF wf assms(3)])
  show ?thesis
  proof
    assume "pid = pid'"
    with p p' show "idx = idx'" by simp
  next
    assume "idx = idx'"
    with p p' index_unique[OF wf p(1) p'(1)] show "pid = pid'" by simp
  qed
qed

section \<open>Creation and destruction in their pieces\<close>

text \<open>Up to the first point where \<open>create_vm\<close> waits: the checks, the allocation, the instance.\<close>

definition create_begin ::
  "('h, 'm) host_os_scheme \<Rightarrow> (net_state \<Rightarrow> string + string) \<Rightarrow> (string \<Rightarrow> unit result) \<Rightarrow> create_env \<Rightarrow>
   vm_config \<Rightarrow> 'h vmm \<Rightarrow> 'h vmm \<times> (inst_ref \<times> vm_instance) result" where
  "create_begin os to_json parse_cron env config v =
     (case check_mode parse_cron config of
        Inl e \<Rightarrow> (v, Inl e)
      | Inr _ \<Rightarrow>
     (case check_block_storage config of
        Inl e \<Rightarrow> (v, Inl e)
      | Inr _ \<Rightarrow>
      let config = image_defaults config in
     (case vm_instance_new (ce_picks env) (ce_now env) config (fm_assets_dir v) (fm_work_dir v) of
        Inl e \<Rightarrow> (v, Inl e)
      | Inr i \<Rightarrow>
      let vm_id = vi_vm_id i in
     (case ce_mkdir env of
        Inl e \<Rightarrow> (v, Inl e)
      | Inr _ \<Rightarrow>
     (case nm_allocate os to_json (fm_net v) (vc_project_id config) vm_id (tap_for_vm vm_id) (fm_host v) of
        ((m, h), Inl e) \<Rightarrow> (v\<lparr>fm_net := m, fm_host := h\<rparr>, Inl e)
      | ((m, h), Inr net) \<Rightarrow>
          let r = fm_next_ref v;
              i1 = i\<lparr>vi_net := Some net, vi_guest_cid := Some (fm_next_cid v)\<rparr>
          in (v\<lparr>fm_net := m, fm_host := h, fm_next_cid := fm_next_cid v + 1,
                fm_next_ref := r + 1, fm_heap := AList.update r i1 (fm_heap v)\<rparr>, Inr (r, i1)))))))"

text \<open>After the block volume, the process and its configuration, which give \<open>made\<close>: the entry in the map, or the
  undoing.\<close>

definition create_end ::
  "('h, 'm) host_os_scheme \<Rightarrow> (net_state \<Rightarrow> string + string) \<Rightarrow> inst_ref \<Rightarrow> vm_instance \<Rightarrow> child result \<Rightarrow>
   'h vmm \<Rightarrow> 'h vmm \<times> vm_id result" where
  "create_end os to_json r i made v =
     (case made of
        Inl e \<Rightarrow> (create_undo os to_json (vi_vm_id i) r v, Inl e)
      | Inr child \<Rightarrow>
          let e = (fc_entry_new r i)\<lparr>fe_fc := Some child\<rparr>;
              v1 = v\<lparr>fm_vms := AList.update (vi_vm_id i) e (fm_vms v)\<rparr>
          in (case inst_transition r Created v1 of
                (v2, Inl e) \<Rightarrow> (v2, Inl e)
              | (v2, Inr _) \<Rightarrow> (v2, Inr (vi_vm_id i))))"

lemma create_vm_pieces:
  "create_vm os to_json parse_cron env config v =
     (case create_begin os to_json parse_cron env config v of
        (v1, Inl e) \<Rightarrow> (v1, Inl e)
      | (v1, Inr (r, i)) \<Rightarrow>
          (case create_setup env (image_defaults config) (vi_vm_id i) r v1 of
             (v2, made) \<Rightarrow> create_end os to_json r i made v2))"
  unfolding create_vm_def create_begin_def create_end_def Let_def
  by (simp split: sum.split prod.split)

text \<open>\<open>destroy_vm\<close> takes the entry out of the map, waits for the end of the process, releases the address,
  waits for the end of the worker and forgets the rest.\<close>

definition destroy_remove :: "vm_id \<Rightarrow> 'h vmm \<Rightarrow> 'h vmm \<times> fc_entry result" where
  "destroy_remove vm_id v =
     (case map_of (fm_vms v) vm_id of
        None \<Rightarrow> (v, Inl (VmNotFound vm_id))
      | Some e \<Rightarrow> (v\<lparr>fm_vms := AList.delete vm_id (fm_vms v)\<rparr>, Inr e))"

definition destroy_release ::
  "('h, 'm) host_os_scheme \<Rightarrow> (net_state \<Rightarrow> string + string) \<Rightarrow> vm_id \<Rightarrow> 'h vmm \<Rightarrow> 'h vmm" where
  "destroy_release os to_json vm_id v =
     (let ((m, h), _) = nm_release os to_json (fm_net v) vm_id (fm_host v) in v\<lparr>fm_net := m, fm_host := h\<rparr>)"

definition destroy_forget :: "vm_id \<Rightarrow> 'h vmm \<Rightarrow> 'h vmm" where
  "destroy_forget vm_id v =
     v\<lparr>fm_workers := fst (storage_detach vm_id (fm_workers v)),
       fm_wake_times := AList.delete vm_id (fm_wake_times v),
       fm_activity := clear vm_id (fm_activity v),
       fm_run_locks := AList.delete vm_id (fm_run_locks v)\<rparr>"

lemma destroy_vm_pieces:
  "destroy_vm os to_json vm_id v =
     (case destroy_remove vm_id v of
        (v1, Inl e) \<Rightarrow> (v1, Inl e)
      | (v1, Inr _) \<Rightarrow> (destroy_forget vm_id (destroy_release os to_json vm_id v1), Inr ()))"
  by (simp add: destroy_vm_def destroy_remove_def destroy_release_def destroy_forget_def Let_def
      split: option.split prod.split)

section \<open>The system\<close>

text \<open>
  The creations that have an address and are not in the map, the destroyed VMs whose address is not released;
  and, kept for the statements only, the ids whose creation was refused because the state file could not
  be written (\<open>ow_lost\<close>) and those whose creation or destruction was dropped at a point where it
  waits, when its caller went away (\<open>ow_dropped\<close>).
\<close>

record 'h ownership =
  ow_vmm :: "'h vmm"
  ow_creating :: "(inst_ref \<times> vm_instance) list"
  ow_leaving :: "vm_id list"
  ow_lost :: "vm_id set"
  ow_dropped :: "vm_id set"

text \<open>What a step elsewhere must leave alone.\<close>

definition net_view :: "'h vmm \<Rightarrow> inst_ref \<Rightarrow> (vm_id \<times> project_id \<times> vm_net option) option" where
  "net_view v r = map_option (\<lambda>i. (vi_vm_id i, vc_project_id (vi_vm_config i), vi_net i)) (inst v r)"

definition same_nets :: "'h vmm \<Rightarrow> 'h vmm \<Rightarrow> bool" where
  "same_nets v v' \<longleftrightarrow> fm_net v' = fm_net v \<and> fm_next_ref v' = fm_next_ref v \<and>
     (\<forall>vm. get_vm vm v' = get_vm vm v) \<and> net_view v' = net_view v"

definition creating_ids :: "'h ownership \<Rightarrow> vm_id list" where
  "creating_ids S = map (vi_vm_id \<circ> snd) (ow_creating S)"

definition stranded :: "'h ownership \<Rightarrow> vm_id set" where
  "stranded S = ow_lost S \<union> ow_dropped S"

definition known_ids :: "'h ownership \<Rightarrow> vm_id set" where
  "known_ids S = {vm. get_vm vm (ow_vmm S) \<noteq> None} \<union> set (creating_ids S) \<union> set (ow_leaving S) \<union> stranded S"

text \<open>A new id is one nobody knows: ids are random.\<close>

inductive own_step ::
  "('h, 'm) host_os_scheme \<Rightarrow> (net_state \<Rightarrow> string + string) \<Rightarrow> 'h ownership \<Rightarrow> 'h ownership \<Rightarrow> bool"
  for os to_json where
  begin_create: "vm_id_new_random (ce_picks env) (vc_project_id config) \<notin> known_ids S \<Longrightarrow>
    create_begin os to_json parse_cron env config (ow_vmm S) = (v, Inr (r, i)) \<Longrightarrow>
    own_step os to_json S (S\<lparr>ow_vmm := v, ow_creating := (r, i) # ow_creating S\<rparr>)"
| refuse_create: "vm_id_new_random (ce_picks env) (vc_project_id config) \<notin> known_ids S \<Longrightarrow>
    create_begin os to_json parse_cron env config (ow_vmm S) = (v, Inl e) \<Longrightarrow>
    own_step os to_json S (S\<lparr>ow_vmm := v,
      ow_lost := (if fm_net v = fm_net (ow_vmm S) then ow_lost S
                  else insert (vm_id_new_random (ce_picks env) (vc_project_id config)) (ow_lost S))\<rparr>)"
| end_create: "(r, i) \<in> set (ow_creating S) \<Longrightarrow> create_end os to_json r i made (ow_vmm S) = (v, res) \<Longrightarrow>
    own_step os to_json S (S\<lparr>ow_vmm := v, ow_creating := remove1 (r, i) (ow_creating S)\<rparr>)"
| remove: "destroy_remove vm (ow_vmm S) = (v, Inr e) \<Longrightarrow>
    own_step os to_json S (S\<lparr>ow_vmm := v, ow_leaving := vm # ow_leaving S\<rparr>)"
| give_back: "vm \<in> set (ow_leaving S) \<Longrightarrow>
    own_step os to_json S (S\<lparr>ow_vmm := destroy_release os to_json vm (ow_vmm S), ow_leaving := remove1 vm (ow_leaving S)\<rparr>)"
| drop_create: "(r, i) \<in> set (ow_creating S) \<Longrightarrow>
    own_step os to_json S (S\<lparr>ow_creating := remove1 (r, i) (ow_creating S), ow_dropped := insert (vi_vm_id i) (ow_dropped S)\<rparr>)"
| drop_destroy: "vm \<in> set (ow_leaving S) \<Longrightarrow>
    own_step os to_json S (S\<lparr>ow_leaving := remove1 vm (ow_leaving S), ow_dropped := insert vm (ow_dropped S)\<rparr>)"
| elsewhere: "same_nets (ow_vmm S) v \<Longrightarrow> own_step os to_json S (S\<lparr>ow_vmm := v\<rparr>)"

definition own_init ::
  "('h, 'm) host_os_scheme \<Rightarrow> (net_state \<Rightarrow> string + string) \<Rightarrow> 'h ownership \<Rightarrow> bool" where
  "own_init os to_json S \<longleftrightarrow>
     (\<exists>from_json env args h h' deleted fc_bin token.
        start_hostd os from_json to_json env args h = (h', deleted, Inr (fc_bin, token, ow_vmm S))) \<and>
     ow_creating S = [] \<and> ow_leaving S = [] \<and> ow_lost S = {} \<and> ow_dropped S = {}"

definition own_reachable ::
  "('h, 'm) host_os_scheme \<Rightarrow> (net_state \<Rightarrow> string + string) \<Rightarrow> 'h ownership \<Rightarrow> bool" where
  "own_reachable os to_json S \<longleftrightarrow> (\<exists>S0. own_init os to_json S0 \<and> (own_step os to_json)\<^sup>*\<^sup>* S0 S)"

text \<open>The state file can always be written.\<close>

definition saves :: "('h, 'm) host_os_scheme \<Rightarrow> (net_state \<Rightarrow> string + string) \<Rightarrow> bool" where
  "saves os to_json \<longleftrightarrow> (\<forall>path st h. snd (persist os to_json path st h) = Inr ())"

section \<open>What the pieces do to the table\<close>

definition net_of :: "net_manager \<Rightarrow> vm_id \<Rightarrow> u32 \<Rightarrow> u32 \<Rightarrow> vm_net" where
  "net_of m vm ip idx =
     (let subnet = net_subnet (nm_supernet m) idx (nm_subnet_prefix m)
      in vm_net_new (tap_for_vm vm) ip (net_host subnet 1) subnet)"

definition same_plan :: "net_manager \<Rightarrow> net_manager \<Rightarrow> bool" where
  "same_plan m m' \<longleftrightarrow> nm_supernet m' = nm_supernet m \<and> nm_subnet_prefix m' = nm_subnet_prefix m"

abbreviation table :: "'h vmm \<Rightarrow> (vm_id \<times> project_id \<times> u32 \<times> u32) set" where
  "table v \<equiv> held (nm_state (fm_net v))"

lemma nm_allocate_held:
  assumes wf: "nm_wf m" and al: "nm_allocate os to_json m pid vm (tap_for_vm vm) h = ((m', h'), res)"
  obtains (refused) e where "m' = m" "res = Inl e"
  | (given) ip idx where "nm_wf m'" "same_plan m m'"
      "held (nm_state m') = insert (vm, pid, ip, idx) (held (nm_state m))" "res = Inr (net_of m vm ip idx)"
  | (unsaved) ip idx e where "nm_wf m'" "same_plan m m'"
      "held (nm_state m') = insert (vm, pid, ip, idx) (held (nm_state m))" "res = Inl e" "\<not> saves os to_json"
proof (rule nm_allocate_state[OF conjunct1[OF wf] conjunct2[OF wf], of os to_json pid vm "tap_for_vm vm" h])
  assume "fst (fst (nm_allocate os to_json m pid vm (tap_for_vm vm) h)) = m"
    "\<exists>e. snd (nm_allocate os to_json m pid vm (tap_for_vm vm) h) = Inl e"
  with al refused show thesis by auto
next
  fix st plan
  assume a: "alloc (nm_state m) pid vm (tap_for_vm vm) (nm_supernet m) (nm_subnet_prefix m) = (st, Inr plan)"
    "fst (fst (nm_allocate os to_json m pid vm (tap_for_vm vm) h)) = m\<lparr>nm_state := st\<rparr>"
    "snd (nm_allocate os to_json m pid vm (tap_for_vm vm) h) = Inr (ap_vm_net plan) \<or>
       (\<exists>h1 e. apply_alloc os plan h = (h1, Inr ()) \<and> snd (persist os to_json (nm_state_path m) st h1) = Inl e \<and>
          snd (nm_allocate os to_json m pid vm (tap_for_vm vm) h) = Inl e)"
  obtain ip idx where t: "held st = insert (vm, pid, ip, idx) (held (nm_state m))"
    "ap_vm_net plan = vm_net_new (tap_for_vm vm) ip (net_host (net_subnet (nm_supernet m) idx (nm_subnet_prefix m)) 1)
       (net_subnet (nm_supernet m) idx (nm_subnet_prefix m))"
    by (rule alloc_held[OF conjunct1[OF wf] conjunct2[OF wf] a(1)])
  then have net: "ap_vm_net plan = net_of m vm ip idx" by (simp add: net_of_def Let_def)
  have m': "m' = m\<lparr>nm_state := st\<rparr>" using a(2) al by simp
  have wf': "nm_wf m'"
    using alloc_wf[OF conjunct1[OF wf] conjunct2[OF wf], of pid vm "tap_for_vm vm"] a(1) wf by (simp add: m')
  have "same_plan m m'" by (simp add: m' same_plan_def)
  then show thesis
    using a(3)
  proof (elim disjE exE conjE)
    assume "snd (nm_allocate os to_json m pid vm (tap_for_vm vm) h) = Inr (ap_vm_net plan)"
    with al t(1) wf' net \<open>same_plan m m'\<close> given show thesis by (simp add: m')
  next
    fix h1 e
    assume "snd (persist os to_json (nm_state_path m) st h1) = Inl e"
      "snd (nm_allocate os to_json m pid vm (tap_for_vm vm) h) = Inl e"
    moreover from this(1) have "\<not> saves os to_json" by (metis saves_def sum.distinct(1))
    ultimately show thesis using al t(1) wf' \<open>same_plan m m'\<close> unsaved by (simp add: m')
  qed
qed

lemma nm_release_held:
  assumes "nm_wf m" "inj_on fst (held (nm_state m))" "m' = fst (fst (nm_release os to_json m vm h))"
  shows "nm_wf m'" "same_plan m m'" "held (nm_state m') = {t \<in> held (nm_state m). fst t \<noteq> vm}"
  using assms release_held[of "nm_supernet m" "nm_subnet_prefix m" "nm_state m" vm]
  by (simp_all add: nm_release_state release_wf same_plan_def)

lemma net_view_new:
  "fm_heap v' = AList.update r i (fm_heap v) \<Longrightarrow>
     net_view v' = (net_view v)(r \<mapsto> (vi_vm_id i, vc_project_id (vi_vm_config i), vi_net i))"
  by (auto simp: net_view_def inst_def fun_eq_iff map_simps)

lemma net_view_other [simp]:
  "net_view (v\<lparr>fm_net := m\<rparr>) = net_view v" "net_view (v\<lparr>fm_host := h\<rparr>) = net_view v"
  "net_view (v\<lparr>fm_next_cid := c\<rparr>) = net_view v" "net_view (v\<lparr>fm_next_ref := n\<rparr>) = net_view v"
  "net_view (v\<lparr>fm_vms := vs\<rparr>) = net_view v" "net_view (v\<lparr>fm_workers := ws\<rparr>) = net_view v"
  "net_view (v\<lparr>fm_wake_times := ts\<rparr>) = net_view v" "net_view (v\<lparr>fm_activity := a\<rparr>) = net_view v"
  "net_view (v\<lparr>fm_run_locks := ls\<rparr>) = net_view v"
  by (auto simp: net_view_def inst_def fun_eq_iff)

lemma image_defaults_project [simp]: "vc_project_id (image_defaults config) = vc_project_id config"
  by (simp add: image_defaults_def split: option.split)

lemma create_begin_cases:
  assumes wf: "nm_wf (fm_net v)" and c: "create_begin os to_json parse_cron env config v = (v', res)"
    and vm_def: "vm_id_new_random (ce_picks env) (vc_project_id config) = vm"
  obtains (refused) e where "fm_net v' = fm_net v" "net_view v' = net_view v" "fm_vms v' = fm_vms v"
      "fm_next_ref v' = fm_next_ref v" "res = Inl e"
  | (unsaved) ip idx e where "nm_wf (fm_net v')" "same_plan (fm_net v) (fm_net v')"
      "table v' = insert (vm, vc_project_id config, ip, idx) (table v)" "\<not> saves os to_json"
      "net_view v' = net_view v" "fm_vms v' = fm_vms v" "fm_next_ref v' = fm_next_ref v" "res = Inl e"
  | (given) ip idx i where "nm_wf (fm_net v')" "same_plan (fm_net v) (fm_net v')"
      "table v' = insert (vm, vc_project_id config, ip, idx) (table v)"
      "net_view v' = (net_view v)(fm_next_ref v \<mapsto> (vm, vc_project_id config, Some (net_of (fm_net v) vm ip idx)))"
      "fm_vms v' = fm_vms v" "fm_next_ref v' = fm_next_ref v + 1" "res = Inr (fm_next_ref v, i)" "vi_vm_id i = vm"
proof -
  consider (early) e where "v' = v" "res = Inl e"
  | (asked) i where "vm_instance_new (ce_picks env) (ce_now env) (image_defaults config) (fm_assets_dir v) (fm_work_dir v) = Inr i"
      "(v', res) = (case nm_allocate os to_json (fm_net v) (vc_project_id (image_defaults config)) (vi_vm_id i) (tap_for_vm (vi_vm_id i)) (fm_host v) of
        ((m, h), Inl e) \<Rightarrow> (v\<lparr>fm_net := m, fm_host := h\<rparr>, Inl e)
      | ((m, h), Inr net) \<Rightarrow>
          let r = fm_next_ref v;
              i1 = i\<lparr>vi_net := Some net, vi_guest_cid := Some (fm_next_cid v)\<rparr>
          in (v\<lparr>fm_net := m, fm_host := h, fm_next_cid := fm_next_cid v + 1,
                fm_next_ref := r + 1, fm_heap := AList.update r i1 (fm_heap v)\<rparr>, Inr (r, i1)))"
    using c unfolding create_begin_def Let_def by (auto split: sum.splits)
  then show thesis
  proof cases
    case early
    with refused show thesis by simp
  next
    case asked
    note i = vm_instance_new_fields[OF asked(1), simplified, unfolded vm_def]
    obtain m h r where al: "nm_allocate os to_json (fm_net v) (vc_project_id config) vm (tap_for_vm vm) (fm_host v) = ((m, h), r)"
      by (metis prod.exhaust)
    from wf al show thesis
    proof (cases rule: nm_allocate_held)
      case (refused e)
      with asked(2) al i that(1) show thesis by simp
    next
      case (given ip idx)
      let ?i = "i\<lparr>vi_net := Some (net_of (fm_net v) vm ip idx), vi_guest_cid := Some (fm_next_cid v)\<rparr>"
      have v': "v' = v\<lparr>fm_net := m, fm_host := h, fm_next_cid := fm_next_cid v + 1,
          fm_next_ref := fm_next_ref v + 1, fm_heap := AList.update (fm_next_ref v) ?i (fm_heap v)\<rparr>"
        and res: "res = Inr (fm_next_ref v, ?i)"
        using asked(2) al i given(4) by (simp_all add: Let_def)
      have "net_view v' = (net_view v)(fm_next_ref v \<mapsto> (vm, vc_project_id config, Some (net_of (fm_net v) vm ip idx)))"
        using net_view_new[of v' "fm_next_ref v" ?i v] i by (simp add: v')
      with given i res that(3)[of ip idx ?i] show thesis by (simp add: v')
    next
      case (unsaved ip idx e)
      with asked(2) al i that(2) show thesis by simp
    qed
  qed
qed

lemma get_vm_vms: "fm_vms v' = fm_vms v \<Longrightarrow> get_vm vm v' = get_vm vm v"
  by (simp add: get_vm_def)

lemma net_view_set_inst:
  "(\<And>i. (vi_vm_id (f i), vc_project_id (vi_vm_config (f i)), vi_net (f i)) = (vi_vm_id i, vc_project_id (vi_vm_config i), vi_net i)) \<Longrightarrow>
     net_view (set_inst r f v) = net_view v"
  by (auto simp: net_view_def inst_set_inst fun_eq_iff option.map_comp comp_def)

lemma net_view_inst_transition [simp]: "net_view (fst (inst_transition r next v)) = net_view v"
  by (simp add: inst_transition_def net_view_set_inst split: option.split sum.split)

lemma inst_transition_fields [simp]:
  "fm_vms (fst (inst_transition r next v)) = fm_vms v" "fm_net (fst (inst_transition r next v)) = fm_net v"
  "fm_next_ref (fst (inst_transition r next v)) = fm_next_ref v"
  by (simp_all add: inst_transition_def set_inst_def split: option.split sum.split)

lemma create_end_cases:
  assumes c: "create_end os to_json r i made v = (v', res)" and wf: "nm_wf (fm_net v)" "inj_on fst (table v)"
  obtains (undone) "nm_wf (fm_net v')" "same_plan (fm_net v) (fm_net v')" "table v' = {t \<in> table v. fst t \<noteq> vi_vm_id i}"
      "net_view v' = net_view v" "fm_vms v' = fm_vms v" "fm_next_ref v' = fm_next_ref v"
  | (entered) "fm_net v' = fm_net v" "net_view v' = net_view v" "fm_next_ref v' = fm_next_ref v"
      "\<And>vm. get_vm vm v' = (if vm = vi_vm_id i then Some r else get_vm vm v)"
proof (cases made)
  case (Inl e)
  then have v': "v' = create_undo os to_json (vi_vm_id i) r v" using c by (simp add: create_end_def)
  have net: "fm_net v' = fst (fst (nm_release os to_json (fm_net v) (vi_vm_id i) (fm_host v)))"
    by (simp add: v' create_undo_def Let_def split: prod.split)
  have "net_view v' = net_view v" by (simp add: v' net_view_def fun_eq_iff)
  with nm_release_held[OF wf net] undone show thesis by (simp add: v')
next
  case (Inr child)
  let ?v1 = "v\<lparr>fm_vms := AList.update (vi_vm_id i) ((fc_entry_new r i)\<lparr>fe_fc := Some child\<rparr>) (fm_vms v)\<rparr>"
  have "v' = fst (inst_transition r Created ?v1)"
    using c Inr by (auto simp: create_end_def Let_def split: prod.splits sum.splits)
  with entered show thesis by (simp add: get_vm_def map_simps fc_entry_new_def)
qed

lemma destroy_release_view:
  assumes wf: "nm_wf (fm_net v)" "inj_on fst (table v)"
  shows "nm_wf (fm_net (destroy_release os to_json vm v))" "same_plan (fm_net v) (fm_net (destroy_release os to_json vm v))"
    "table (destroy_release os to_json vm v) = {t \<in> table v. fst t \<noteq> vm}"
    "net_view (destroy_release os to_json vm v) = net_view v" "fm_vms (destroy_release os to_json vm v) = fm_vms v"
    "fm_next_ref (destroy_release os to_json vm v) = fm_next_ref v"
proof -
  have net: "fm_net (destroy_release os to_json vm v) = fst (fst (nm_release os to_json (fm_net v) vm (fm_host v)))"
    by (simp add: destroy_release_def Let_def split: prod.split)
  show "nm_wf (fm_net (destroy_release os to_json vm v))" "same_plan (fm_net v) (fm_net (destroy_release os to_json vm v))"
    "table (destroy_release os to_json vm v) = {t \<in> table v. fst t \<noteq> vm}"
    using nm_release_held[OF wf net] by simp_all
qed (simp_all add: destroy_release_def Let_def split: prod.split)

section \<open>The invariant\<close>

text \<open>The instance of a VM has the address the table holds for it.\<close>

definition live :: "'h vmm \<Rightarrow> vm_id \<Rightarrow> inst_ref \<Rightarrow> bool" where
  "live v vm r \<longleftrightarrow> (\<exists>pid ip idx. (vm, pid, ip, idx) \<in> table v \<and>
     net_view v r = Some (vm, pid, Some (net_of (fm_net v) vm ip idx)))"

lemma liveI:
  "(vm, pid, ip, idx) \<in> table v \<Longrightarrow> net_view v r = Some (vm, pid, Some (net_of (fm_net v) vm ip idx)) \<Longrightarrow> live v vm r"
  unfolding live_def by blast

lemma net_of_plan: "same_plan m m' \<Longrightarrow> net_of m' = net_of m"
  by (simp add: net_of_def same_plan_def fun_eq_iff)

lemma live_keep:
  assumes "live v vm r" "net_view v' r = net_view v r" "same_plan (fm_net v) (fm_net v')"
    "\<And>t. t \<in> table v \<Longrightarrow> fst t = vm \<Longrightarrow> t \<in> table v'"
  shows "live v' vm r"
proof -
  obtain pid ip idx where t: "(vm, pid, ip, idx) \<in> table v" "net_view v r = Some (vm, pid, Some (net_of (fm_net v) vm ip idx))"
    using assms(1) by (auto simp: live_def)
  show ?thesis by (rule liveI[OF assms(4)[OF t(1)]]) (simp_all add: t(2) assms(2) net_of_plan[OF assms(3)])
qed

definition away :: "'h ownership \<Rightarrow> vm_id list" where
  "away S = creating_ids S @ ow_leaving S"

definition own_inv :: "'h ownership \<Rightarrow> bool" where
  "own_inv S \<longleftrightarrow> (let v = ow_vmm S in
     nm_wf (fm_net v) \<and> inj_on fst (table v) \<and> fst ` table v = known_ids S \<and>
     distinct (away S) \<and>
     (\<forall>vm \<in> set (away S). get_vm vm v = None) \<and>
     (\<forall>vm \<in> stranded S. get_vm vm v = None \<and> vm \<notin> set (away S)) \<and> ow_lost S \<inter> ow_dropped S = {} \<and>
     (\<forall>r. net_view v r \<noteq> None \<longrightarrow> r < fm_next_ref v) \<and>
     (\<forall>vm r. get_vm vm v = Some r \<longrightarrow> live v vm r) \<and>
     (\<forall>c \<in> set (ow_creating S). live v (vi_vm_id (snd c)) (fst c)) \<and>
     (\<forall>vm \<in> known_ids S. \<exists>x. vm = ''vm-'' @ x))"

lemma own_invD:
  assumes "own_inv S"
  shows "nm_wf (fm_net (ow_vmm S))" "inj_on fst (table (ow_vmm S))" "fst ` table (ow_vmm S) = known_ids S"
    "distinct (away S)" "vm \<in> set (away S) \<Longrightarrow> get_vm vm (ow_vmm S) = None"
    "vm \<in> stranded S \<Longrightarrow> get_vm vm (ow_vmm S) = None" "vm \<in> stranded S \<Longrightarrow> vm \<notin> set (away S)"
    "net_view (ow_vmm S) r \<noteq> None \<Longrightarrow> r < fm_next_ref (ow_vmm S)"
    "get_vm vm (ow_vmm S) = Some r \<Longrightarrow> live (ow_vmm S) vm r"
    "c \<in> set (ow_creating S) \<Longrightarrow> live (ow_vmm S) (vi_vm_id (snd c)) (fst c)"
    "vm \<in> known_ids S \<Longrightarrow> \<exists>x. vm = ''vm-'' @ x" "ow_lost S \<inter> ow_dropped S = {}"
  using assms unfolding own_inv_def Let_def by blast+

lemma own_invI:
  assumes "nm_wf (fm_net (ow_vmm S))" "inj_on fst (table (ow_vmm S))" "fst ` table (ow_vmm S) = known_ids S"
    "distinct (away S)" "\<And>vm. vm \<in> set (away S) \<Longrightarrow> get_vm vm (ow_vmm S) = None"
    "\<And>vm. vm \<in> stranded S \<Longrightarrow> get_vm vm (ow_vmm S) = None \<and> vm \<notin> set (away S)"
    "\<And>r. net_view (ow_vmm S) r \<noteq> None \<Longrightarrow> r < fm_next_ref (ow_vmm S)"
    "\<And>vm r. get_vm vm (ow_vmm S) = Some r \<Longrightarrow> live (ow_vmm S) vm r"
    "\<And>c. c \<in> set (ow_creating S) \<Longrightarrow> live (ow_vmm S) (vi_vm_id (snd c)) (fst c)"
    "\<And>vm. vm \<in> known_ids S \<Longrightarrow> \<exists>x. vm = ''vm-'' @ x" "ow_lost S \<inter> ow_dropped S = {}"
  shows "own_inv S"
proof -
  let ?v = "ow_vmm S"
  have a: "\<forall>vm \<in> set (away S). get_vm vm ?v = None" by (rule ballI, rule assms(5))
  have l: "\<forall>vm \<in> stranded S. get_vm vm ?v = None \<and> vm \<notin> set (away S)" by (rule ballI, rule assms(6))
  have r: "\<forall>r. net_view ?v r \<noteq> None \<longrightarrow> r < fm_next_ref ?v" by (intro allI impI, rule assms(7))
  have g: "\<forall>vm r. get_vm vm ?v = Some r \<longrightarrow> live ?v vm r" by (intro allI impI, rule assms(8))
  have c: "\<forall>c \<in> set (ow_creating S). live ?v (vi_vm_id (snd c)) (fst c)" by (rule ballI, rule assms(9))
  have k: "\<forall>vm \<in> known_ids S. \<exists>x. vm = ''vm-'' @ x" by (rule ballI, rule assms(10))
  note facts = conjunct1[OF assms(1)] conjunct2[OF assms(1)] assms(2-4) a l assms(11) r g c k
  show ?thesis unfolding own_inv_def Let_def by (intro conjI) (rule facts)+
qed

lemma map_remove1_distinct:
  "distinct (map f xs) \<Longrightarrow> x \<in> set xs \<Longrightarrow> map f (remove1 x xs) = remove1 (f x) (map f xs)"
  by (induction xs) (auto simp: image_iff)

lemma new_id_vm: "\<exists>x. vm_id_new_random picks pid = ''vm-'' @ x"
  by (simp add: vm_id_new_random_alt)

lemma away_vmm [simp]:
  "away (S\<lparr>ow_vmm := v\<rparr>) = away S" "creating_ids (S\<lparr>ow_vmm := v\<rparr>) = creating_ids S"
  "stranded (S\<lparr>ow_vmm := v\<rparr>) = stranded S" "stranded (S\<lparr>ow_creating := cs\<rparr>) = stranded S"
  "stranded (S\<lparr>ow_leaving := ls\<rparr>) = stranded S" "stranded (S\<lparr>ow_lost := L\<rparr>) = L \<union> ow_dropped S"
  "stranded (S\<lparr>ow_dropped := D\<rparr>) = ow_lost S \<union> D"
  by (simp_all add: away_def creating_ids_def stranded_def)

lemma known_away: "known_ids S = {vm. get_vm vm (ow_vmm S) \<noteq> None} \<union> set (away S) \<union> stranded S"
  by (auto simp: known_ids_def away_def)

lemma elsewhere_keeps:
  assumes inv: "own_inv S" and s: "same_nets (ow_vmm S) v"
  shows "own_inv (S\<lparr>ow_vmm := v\<rparr>)"
proof -
  have e: "fm_net v = fm_net (ow_vmm S)" "fm_next_ref v = fm_next_ref (ow_vmm S)" "get_vm vm v = get_vm vm (ow_vmm S)"
    "net_view v = net_view (ow_vmm S)" for vm
    using s by (simp_all add: same_nets_def)
  then have "live v = live (ow_vmm S)" by (simp add: live_def fun_eq_iff)
  with inv e show ?thesis by (simp add: own_inv_def known_away Let_def)
qed

text \<open>A table in which one VM, known to nobody, has been given an address.\<close>

lemma table_grows:
  assumes inv: "own_inv S" and new: "vm \<notin> known_ids S"
    and t: "table v = insert (vm, pid, ip, idx) (table (ow_vmm S))"
  shows "inj_on fst (table v)" "fst ` table v = insert vm (known_ids S)"
  using own_invD(2,3)[OF inv] new by (auto simp: t)

lemma live_grows:
  assumes inv: "own_inv S" and l: "live (ow_vmm S) vm r"
    and "same_plan (fm_net (ow_vmm S)) (fm_net v)" "table v = insert t (table (ow_vmm S))"
    and n: "\<And>r. r < fm_next_ref (ow_vmm S) \<Longrightarrow> net_view v r = net_view (ow_vmm S) r"
  shows "live v vm r"
proof (rule live_keep[OF l])
  have "net_view (ow_vmm S) r \<noteq> None" using l by (auto simp: live_def)
  then show "net_view v r = net_view (ow_vmm S) r" by (intro n own_invD(8)[OF inv])
qed (use assms in simp_all)

lemma begin_keeps:
  assumes inv: "own_inv S" and fresh: "vm_id_new_random (ce_picks env) (vc_project_id config) \<notin> known_ids S"
    and c: "create_begin os to_json parse_cron env config (ow_vmm S) = (v, Inr (r, i))"
  shows "own_inv (S\<lparr>ow_vmm := v, ow_creating := (r, i) # ow_creating S\<rparr>)" (is "own_inv ?S")
  using own_invD(1)[OF inv] c refl
proof (cases rule: create_begin_cases)
  case (given ip idx i')
  let ?vm = "vm_id_new_random (ce_picks env) (vc_project_id config)"
  have ri: "r = fm_next_ref (ow_vmm S)" "i' = i" "vi_vm_id i = ?vm" using given by auto
  have away: "away ?S = ?vm # away S" by (simp add: away_def creating_ids_def ri)
  have vms: "get_vm vm v = get_vm vm (ow_vmm S)" for vm by (rule get_vm_vms[OF given(5)])
  have known: "known_ids ?S = insert ?vm (known_ids S)" by (auto simp: known_away away vms)
  have nv: "net_view v r' = net_view (ow_vmm S) r'" if "r' < fm_next_ref (ow_vmm S)" for r'
    using that by (simp add: given(4))
  note live = live_grows[OF inv _ given(2,3) nv]
  have out: "?vm \<notin> set (away S)" "get_vm ?vm (ow_vmm S) = None" "?vm \<notin> stranded S"
    using fresh by (auto simp: known_away)
  show ?thesis
  proof (rule own_invI)
    show "inj_on fst (table (ow_vmm ?S))" "fst ` table (ow_vmm ?S) = known_ids ?S"
      using table_grows[OF inv fresh given(3)] known by simp_all
    show "live (ow_vmm ?S) (vi_vm_id (snd c)) (fst c)" if "c \<in> set (ow_creating ?S)" for c
    proof (cases "c = (r, i)")
      case True
      have "live v ?vm r"
        by (rule liveI[of _ "vc_project_id config" ip idx]) (simp_all add: given(3,4) ri net_of_plan[OF given(2)])
      with True ri show ?thesis by simp
    next
      case False
      with that live[OF own_invD(10)[OF inv]] show ?thesis by simp
    qed
    show "live (ow_vmm ?S) vm r'" if "get_vm vm (ow_vmm ?S) = Some r'" for vm r'
      using that live[OF own_invD(9)[OF inv]] by (simp add: vms)
    show "r' < fm_next_ref (ow_vmm ?S)" if "net_view (ow_vmm ?S) r' \<noteq> None" for r'
      using that own_invD(8)[OF inv, of r'] by (cases "r' = fm_next_ref (ow_vmm S)") (auto simp: given(4,6))
    show "\<exists>x. vm = ''vm-'' @ x" if "vm \<in> known_ids ?S" for vm
      using that own_invD(11)[OF inv, of vm] new_id_vm unfolding known by blast
  qed (use given(1) out own_invD(4-7)[OF inv] own_invD(12)[OF inv] in \<open>auto simp: away vms stranded_def\<close>)
qed simp_all

lemma refuse_keeps:
  assumes inv: "own_inv S" and fresh: "vm_id_new_random (ce_picks env) (vc_project_id config) \<notin> known_ids S"
    and c: "create_begin os to_json parse_cron env config (ow_vmm S) = (v, Inl e)"
  shows "own_inv (S\<lparr>ow_vmm := v, ow_lost := (if fm_net v = fm_net (ow_vmm S) then ow_lost S
      else insert (vm_id_new_random (ce_picks env) (vc_project_id config)) (ow_lost S))\<rparr>)" (is "own_inv ?S")
  using own_invD(1)[OF inv] c refl
proof (cases rule: create_begin_cases)
  case (refused e')
  then have "same_nets (ow_vmm S) v" by (simp add: same_nets_def get_vm_def)
  moreover have "?S = S\<lparr>ow_vmm := v\<rparr>" by (cases S) (simp add: refused(1))
  ultimately show ?thesis using elsewhere_keeps[OF inv] by metis
next
  case (unsaved ip idx e')
  let ?vm = "vm_id_new_random (ce_picks env) (vc_project_id config)"
  have vms: "get_vm vm v = get_vm vm (ow_vmm S)" for vm by (rule get_vm_vms[OF unsaved(6)])
  have "?vm \<in> fst ` table v" "?vm \<notin> fst ` table (ow_vmm S)"
    using fresh own_invD(3)[OF inv] by (simp_all add: unsaved(3))
  then have "fm_net v \<noteq> fm_net (ow_vmm S)" by auto
  then have S: "?S = S\<lparr>ow_vmm := v, ow_lost := insert ?vm (ow_lost S)\<rparr>" by simp
  have away: "away (S\<lparr>ow_vmm := v, ow_lost := L\<rparr>) = away S" for L by (simp add: away_def creating_ids_def)
  have known: "known_ids (S\<lparr>ow_vmm := v, ow_lost := insert ?vm (ow_lost S)\<rparr>) = insert ?vm (known_ids S)"
    by (auto simp: known_away away vms stranded_def)
  have live: "live v vm r" if "live (ow_vmm S) vm r" for vm r
    by (rule live_grows[OF inv that unsaved(2,3)]) (simp add: unsaved(5))
  show ?thesis
    unfolding S
  proof (rule own_invI)
    show "\<exists>x. vm = ''vm-'' @ x" if "vm \<in> known_ids (S\<lparr>ow_vmm := v, ow_lost := insert ?vm (ow_lost S)\<rparr>)" for vm
      using that own_invD(11)[OF inv, of vm] new_id_vm unfolding known by blast
    show "live (ow_vmm (S\<lparr>ow_vmm := v, ow_lost := insert ?vm (ow_lost S)\<rparr>)) vm r"
      if "get_vm vm (ow_vmm (S\<lparr>ow_vmm := v, ow_lost := insert ?vm (ow_lost S)\<rparr>)) = Some r" for vm r
      using that live[OF own_invD(9)[OF inv]] by (simp add: vms)
  qed (use unsaved(1,5,7) fresh known table_grows[OF inv fresh unsaved(3)] live[OF own_invD(10)[OF inv]]
        own_invD(4-8)[OF inv] own_invD(12)[OF inv] in \<open>auto simp: away vms known_away stranded_def\<close>)
qed simp_all

lemma table_shrinks:
  assumes inv: "own_inv S" and t: "table v = {t \<in> table (ow_vmm S). fst t \<noteq> vm}"
  shows "inj_on fst (table v)" "fst ` table v = known_ids S - {vm}"
  using own_invD(2,3)[OF inv] by (auto simp: t intro: inj_on_subset)

lemma live_shrinks:
  assumes "live (ow_vmm S) vm' r" "vm' \<noteq> vm" "same_plan (fm_net (ow_vmm S)) (fm_net v)"
    "table v = {t \<in> table (ow_vmm S). fst t \<noteq> vm}" "net_view v = net_view (ow_vmm S)"
  shows "live v vm' r"
  by (rule live_keep[OF assms(1)]) (use assms in simp_all)

text \<open>A VM of \<open>away\<close> loses its address.\<close>

lemma drop_keeps:
  assumes inv: "own_inv S" and vm: "vm \<in> set (away S)"
    and v: "nm_wf (fm_net v)" "same_plan (fm_net (ow_vmm S)) (fm_net v)" "table v = {t \<in> table (ow_vmm S). fst t \<noteq> vm}"
      "net_view v = net_view (ow_vmm S)" "fm_vms v = fm_vms (ow_vmm S)" "fm_next_ref v = fm_next_ref (ow_vmm S)"
    and S': "ow_vmm S' = v" "ow_lost S' = ow_lost S" "ow_dropped S' = ow_dropped S"
      "set (away S') = set (away S) - {vm}" "distinct (away S')"
      "\<And>c. c \<in> set (ow_creating S') \<Longrightarrow> c \<in> set (ow_creating S) \<and> vi_vm_id (snd c) \<noteq> vm"
  shows "own_inv S'"
proof -
  have vms: "get_vm vm v = get_vm vm (ow_vmm S)" for vm by (rule get_vm_vms[OF v(5)])
  have st: "stranded S' = stranded S" by (simp add: stranded_def S')
  have out: "get_vm vm (ow_vmm S) = None" "vm \<notin> stranded S"
    using own_invD(5,7)[OF inv] vm by blast+
  have known: "known_ids S' = known_ids S - {vm}"
    unfolding known_away S' st vms using out by auto
  note live = live_shrinks[OF _ _ v(2,3,4)]
  show ?thesis
  proof (rule own_invI)
    show "live (ow_vmm S') vm' r" if "get_vm vm' (ow_vmm S') = Some r" for vm' r
    proof -
      from that have "get_vm vm' (ow_vmm S) = Some r" by (simp add: S' vms)
      moreover from this out have "vm' \<noteq> vm" by auto
      ultimately show ?thesis unfolding S'(1) by (intro live own_invD(9)[OF inv])
    qed
    show "live (ow_vmm S') (vi_vm_id (snd c)) (fst c)" if "c \<in> set (ow_creating S')" for c
      unfolding S'(1) using S'(6)[OF that] by (intro live own_invD(10)[OF inv]) simp_all
    show "\<exists>x. vm' = ''vm-'' @ x" if "vm' \<in> known_ids S'" for vm'
      using that own_invD(11)[OF inv, of vm'] unfolding known by blast
  qed (use v(1,4,6) S'(1-5) st table_shrinks[OF inv v(3)] known own_invD(5-8)[OF inv] own_invD(12)[OF inv] in \<open>auto simp: vms\<close>)
qed

lemma creating_removed:
  assumes inv: "own_inv S" and at: "(r, i) \<in> set (ow_creating S)"
    and S': "ow_creating S' = remove1 (r, i) (ow_creating S)" "ow_leaving S' = ow_leaving S"
  shows "set (away S') = set (away S) - {vi_vm_id i}" "distinct (away S')" "vi_vm_id i \<in> set (away S)"
    "c \<in> set (ow_creating S') \<Longrightarrow> c \<in> set (ow_creating S) \<and> vi_vm_id (snd c) \<noteq> vi_vm_id i"
proof -
  have d: "distinct (map (vi_vm_id \<circ> snd) (ow_creating S))"
    using own_invD(4)[OF inv] by (simp add: away_def creating_ids_def)
  have ids: "creating_ids S' = remove1 (vi_vm_id i) (creating_ids S)"
    using map_remove1_distinct[OF d at] by (simp add: creating_ids_def S')
  have dc: "distinct (creating_ids S)" using d by (simp add: creating_ids_def)
  have ic: "vi_vm_id i \<in> set (creating_ids S)" using at by (force simp: creating_ids_def)
  show "set (away S') = set (away S) - {vi_vm_id i}" "distinct (away S')" "vi_vm_id i \<in> set (away S)"
    using dc ic own_invD(4)[OF inv] by (auto simp: away_def ids S'(2))
  assume c: "c \<in> set (ow_creating S')"
  then have "vi_vm_id (snd c) \<in> set (creating_ids S')" by (auto simp: creating_ids_def)
  then have "vi_vm_id (snd c) \<noteq> vi_vm_id i" using dc by (auto simp: ids)
  moreover have "c \<in> set (ow_creating S)" using c set_remove1_subset unfolding S' by fastforce
  ultimately show "c \<in> set (ow_creating S) \<and> vi_vm_id (snd c) \<noteq> vi_vm_id i" by simp
qed

lemma leaving_removed:
  assumes inv: "own_inv S" and at: "vm \<in> set (ow_leaving S)"
    and S': "ow_creating S' = ow_creating S" "ow_leaving S' = remove1 vm (ow_leaving S)"
  shows "set (away S') = set (away S) - {vm}" "distinct (away S')" "vm \<in> set (away S)"
    "c \<in> set (ow_creating S') \<Longrightarrow> c \<in> set (ow_creating S) \<and> vi_vm_id (snd c) \<noteq> vm"
proof -
  have d: "distinct (creating_ids S)" "distinct (ow_leaving S)" "set (creating_ids S) \<inter> set (ow_leaving S) = {}"
    using own_invD(4)[OF inv] by (simp_all add: away_def)
  have ids: "creating_ids S' = creating_ids S" by (simp add: creating_ids_def S')
  show "set (away S') = set (away S) - {vm}" "distinct (away S')" "vm \<in> set (away S)"
    using d at by (auto simp: away_def ids S'(2))
  assume "c \<in> set (ow_creating S')"
  then show "c \<in> set (ow_creating S) \<and> vi_vm_id (snd c) \<noteq> vm"
    using d(3) at by (auto simp: creating_ids_def S'(1))
qed

text \<open>A VM of \<open>away\<close> is left behind: its address stays.\<close>

lemma strand_keeps:
  assumes inv: "own_inv S" and vm: "vm \<in> set (away S)"
    and S': "ow_vmm S' = ow_vmm S" "ow_lost S' = ow_lost S" "ow_dropped S' = insert vm (ow_dropped S)"
      "set (away S') = set (away S) - {vm}" "distinct (away S')"
      "\<And>c. c \<in> set (ow_creating S') \<Longrightarrow> c \<in> set (ow_creating S) \<and> vi_vm_id (snd c) \<noteq> vm"
  shows "own_inv S'"
proof -
  have st: "stranded S' = insert vm (stranded S)" by (simp add: stranded_def S')
  have known: "known_ids S' = known_ids S" unfolding known_away S' st using vm by auto
  have out: "get_vm vm (ow_vmm S) = None" "vm \<notin> stranded S" using own_invD(5,7)[OF inv] vm by blast+
  show ?thesis
  proof (rule own_invI)
    show "live (ow_vmm S') (vi_vm_id (snd c)) (fst c)" if "c \<in> set (ow_creating S')" for c
      unfolding S'(1) using S'(6)[OF that] by (intro own_invD(10)[OF inv]) simp
    show "live (ow_vmm S') vm' r" if "get_vm vm' (ow_vmm S') = Some r" for vm' r
      using that unfolding S'(1) by (rule own_invD(9)[OF inv])
    show "\<exists>x. vm' = ''vm-'' @ x" if "vm' \<in> known_ids S'" for vm'
      using that own_invD(11)[OF inv, of vm'] unfolding known by blast
  qed (use S'(1-5) st known out own_invD(1-8)[OF inv] own_invD(12)[OF inv] in \<open>auto simp: stranded_def\<close>)
qed

lemma drop_create_keeps:
  assumes inv: "own_inv S" and at: "(r, i) \<in> set (ow_creating S)"
  shows "own_inv (S\<lparr>ow_creating := remove1 (r, i) (ow_creating S), ow_dropped := insert (vi_vm_id i) (ow_dropped S)\<rparr>)"
    (is "own_inv ?S")
proof -
  have e: "ow_creating ?S = remove1 (r, i) (ow_creating S)" "ow_leaving ?S = ow_leaving S" by simp_all
  show ?thesis
    by (rule strand_keeps[OF inv creating_removed(3)[OF inv at e]])
      (use creating_removed(1,2)[OF inv at e] creating_removed(4)[OF inv at e] in simp_all)
qed

lemma drop_destroy_keeps:
  assumes inv: "own_inv S" and at: "vm \<in> set (ow_leaving S)"
  shows "own_inv (S\<lparr>ow_leaving := remove1 vm (ow_leaving S), ow_dropped := insert vm (ow_dropped S)\<rparr>)" (is "own_inv ?S")
proof -
  have e: "ow_creating ?S = ow_creating S" "ow_leaving ?S = remove1 vm (ow_leaving S)" by simp_all
  show ?thesis
    by (rule strand_keeps[OF inv leaving_removed(3)[OF inv at e]])
      (use leaving_removed(1,2)[OF inv at e] leaving_removed(4)[OF inv at e] in simp_all)
qed

lemma end_keeps:
  assumes inv: "own_inv S" and at: "(r, i) \<in> set (ow_creating S)"
    and c: "create_end os to_json r i made (ow_vmm S) = (v, res)"
  shows "own_inv (S\<lparr>ow_vmm := v, ow_creating := remove1 (r, i) (ow_creating S)\<rparr>)" (is "own_inv ?S")
proof -
  have e: "ow_creating ?S = remove1 (r, i) (ow_creating S)" "ow_leaving ?S = ow_leaving S" by simp_all
  note away = creating_removed(1-3)[OF inv at e] and cs = creating_removed(4)[OF inv at e]
  from c own_invD(1,2)[OF inv] show ?thesis
  proof (cases rule: create_end_cases)
    case undone
    then show ?thesis by (intro drop_keeps[OF inv away(3)]) (use away cs in simp_all)
  next
    case entered
    have l: "live v = live (ow_vmm S)" using entered(1,2) by (simp add: live_def fun_eq_iff)
    have known: "known_ids ?S = known_ids S"
      using away entered(4) by (auto simp: known_away split: if_splits)
    have out: "vi_vm_id i \<notin> stranded S" using own_invD(7)[OF inv] away(3) by blast
    show ?thesis
    proof (rule own_invI)
      show "live (ow_vmm ?S) vm r'" if "get_vm vm (ow_vmm ?S) = Some r'" for vm r'
        using that own_invD(9)[OF inv, of vm r'] own_invD(10)[OF inv at] by (simp add: entered(4) l split: if_splits)
      show "live (ow_vmm ?S) (vi_vm_id (snd c)) (fst c)" if "c \<in> set (ow_creating ?S)" for c
        using own_invD(10)[OF inv, of c] cs[OF that] by (simp add: l)
      show "\<exists>x. vm = ''vm-'' @ x" if "vm \<in> known_ids ?S" for vm
        using that own_invD(11)[OF inv, of vm] unfolding known by blast
    qed (use entered(1-3) own_invD(1-8)[OF inv] own_invD(12)[OF inv] away out known in \<open>auto simp: entered(4)\<close>)
  qed
qed

lemma remove_keeps:
  assumes inv: "own_inv S" and c: "destroy_remove vm (ow_vmm S) = (v, Inr e)"
  shows "own_inv (S\<lparr>ow_vmm := v, ow_leaving := vm # ow_leaving S\<rparr>)" (is "own_inv ?S")
proof -
  have v: "v = (ow_vmm S)\<lparr>fm_vms := AList.delete vm (fm_vms (ow_vmm S))\<rparr>" "map_of (fm_vms (ow_vmm S)) vm = Some e"
    using c by (auto simp: destroy_remove_def split: option.splits)
  have vms: "get_vm vm' v = (if vm' = vm then None else get_vm vm' (ow_vmm S))" for vm'
    by (simp add: v(1) get_vm_def map_simps)
  have was: "get_vm vm (ow_vmm S) \<noteq> None" using v(2) by (simp add: get_vm_def)
  have away: "set (away ?S) = insert vm (set (away S))" by (auto simp: away_def creating_ids_def)
  have out: "vm \<notin> set (away S)" "vm \<notin> stranded S" using own_invD(5,6)[OF inv, of vm] was by auto
  then have d: "distinct (away ?S)" using own_invD(4)[OF inv] by (auto simp: away_def creating_ids_def)
  have f: "fm_net v = fm_net (ow_vmm S)" "net_view v = net_view (ow_vmm S)" "fm_next_ref v = fm_next_ref (ow_vmm S)"
    by (simp_all add: v(1))
  then have l: "live v = live (ow_vmm S)" by (simp add: live_def fun_eq_iff)
  have known: "known_ids ?S = known_ids S" using was by (auto simp: known_away away vms)
  show ?thesis
  proof (rule own_invI)
    show "live (ow_vmm ?S) vm' r" if "get_vm vm' (ow_vmm ?S) = Some r" for vm' r
      using that own_invD(9)[OF inv, of vm' r] by (simp add: vms l split: if_splits)
    show "live (ow_vmm ?S) (vi_vm_id (snd c)) (fst c)" if "c \<in> set (ow_creating ?S)" for c
      using own_invD(10)[OF inv, of c] that by (simp add: l)
    show "\<exists>x. vm' = ''vm-'' @ x" if "vm' \<in> known_ids ?S" for vm'
      using that own_invD(11)[OF inv, of vm'] unfolding known by blast
  qed (use own_invD(1-8)[OF inv] own_invD(12)[OF inv] f d away out known in \<open>auto simp: vms\<close>)
qed

lemma give_back_keeps:
  assumes inv: "own_inv S" and at: "vm \<in> set (ow_leaving S)"
  shows "own_inv (S\<lparr>ow_vmm := destroy_release os to_json vm (ow_vmm S), ow_leaving := remove1 vm (ow_leaving S)\<rparr>)"
    (is "own_inv ?S")
proof -
  note view = destroy_release_view[OF own_invD(1,2)[OF inv], of os to_json vm]
  have e: "ow_creating ?S = ow_creating S" "ow_leaving ?S = remove1 vm (ow_leaving S)" by simp_all
  note away = leaving_removed(1-3)[OF inv at e] and cs = leaving_removed(4)[OF inv at e]
  show ?thesis by (intro drop_keeps[OF inv away(3) view]) (use away cs in simp_all)
qed

lemma own_step_keeps: "own_step os to_json S S' \<Longrightarrow> own_inv S \<Longrightarrow> own_inv S'"
  by (induction rule: own_step.induct)
    (rule begin_keeps refuse_keeps end_keeps remove_keeps give_back_keeps drop_create_keeps drop_destroy_keeps elsewhere_keeps; assumption)+

lemma own_init_inv:
  assumes "own_init os to_json S"
  shows "own_inv S"
proof -
  from assms obtain from_json env args h h' deleted fc_bin token where
    "start_hostd os from_json to_json env args h = (h', deleted, Inr (fc_bin, token, ow_vmm S))"
    by (auto simp: own_init_def)
  from started_parts[OF this] have "fm_vms (ow_vmm S) = []" "fm_heap (ow_vmm S) = []" "nm_wf (fm_net (ow_vmm S))"
    "nm_state (fm_net (ow_vmm S)) = net_state_default"
    by (auto simp: sys_init_def)
  with assms show ?thesis
    by (simp add: own_init_def own_inv_def Let_def known_ids_def stranded_def away_def creating_ids_def get_vm_def
        ipam_default_wf net_view_def inst_def)
qed

lemma own_reachable_inv: "own_reachable os to_json S \<Longrightarrow> own_inv S"
  unfolding own_reachable_def
proof (elim exE conjE)
  fix S0 assume "own_init os to_json S0" "(own_step os to_json)\<^sup>*\<^sup>* S0 S"
  from this(2) own_init_inv[OF this(1)] show "own_inv S"
    by (induction rule: rtranclp_induct) (auto intro: own_step_keeps)
qed

section \<open>The other operations leave the table alone\<close>

lemma same_nets_refl [simp]: "same_nets v v"
  by (simp add: same_nets_def)

lemma same_nets_trans: "same_nets u v \<Longrightarrow> same_nets v w \<Longrightarrow> same_nets u w"
  by (simp add: same_nets_def)

lemma same_nets_set_entry: "(\<And>e. fe_instance (f e) = fe_instance e) \<Longrightarrow> same_nets v (set_entry vm f v)"
  by (auto simp: same_nets_def get_vm_def vms_set_entry net_view_def set_entry_def inst_def fun_eq_iff
      option.map_comp comp_def amap_map_entry)

lemma same_nets_set_inst:
  "(\<And>i. (vi_vm_id (f i), vc_project_id (vi_vm_config (f i)), vi_net (f i)) = (vi_vm_id i, vc_project_id (vi_vm_config i), vi_net i)) \<Longrightarrow>
     same_nets v (set_inst r f v)"
  using net_view_set_inst[of f r v] by (simp add: same_nets_def get_vm_def) (simp add: set_inst_def)

lemma same_nets_transition: "same_nets v (fst (inst_transition r next v))"
  by (simp add: same_nets_def get_vm_def)

lemma same_nets_fields:
  "same_nets v (v\<lparr>fm_wake_times := ts\<rparr>)" "same_nets v (v\<lparr>fm_activity := a\<rparr>)" "same_nets v (v\<lparr>fm_run_locks := ls\<rparr>)"
  "same_nets v (v\<lparr>fm_workers := ws\<rparr>)" "same_nets v (destroy_forget vm v)" "same_nets v (woken now vm v)"
  by (simp_all add: same_nets_def get_vm_def destroy_forget_def woken_def)

lemma same_nets_leave:
  "(\<And>v. same_nets v (fst (k v))) \<Longrightarrow> same_nets v (fst (leave r next k v))"
  using same_nets_transition[of v r "next"]
  by (auto simp: leave_def intro: same_nets_trans split: prod.splits sum.splits)

lemma same_nets_lifecycle:
  "same_nets v (fst (lifecycle_enter op vm v))" "same_nets v (fst (start_finish now p w j v))"
  "same_nets v (fst (pause_finish p j v))" "same_nets v (fst (resume_finish p j v))"
  "same_nets v (fst (snapshot_stop now j v))" "same_nets v (fst (snapshot_finish j v))"
  "same_nets v (fst (snapshot_failed e j v))" "same_nets v (fst (restore_finish now oc j v))"
proof -
  note t = same_nets_transition
  show "same_nets v (fst (lifecycle_enter op vm v))"
    using t[of v _ Restoring] t[of v _ "op_begin op"]
    by (auto simp: lifecycle_enter_def op_enter_def restore_enter_def split: sum.splits option.splits prod.splits)
       (metis fst_conv)+
  show "same_nets v (fst (start_finish now p w j v))" "same_nets v (fst (pause_finish p j v))"
    "same_nets v (fst (resume_finish p j v))" "same_nets v (fst (snapshot_failed e j v))"
    by (auto simp: start_finish_def pause_finish_def resume_finish_def snapshot_failed_def
        intro!: same_nets_leave same_nets_fields split: sum.split)
  show "same_nets v (fst (snapshot_stop now j v))"
    by (simp add: snapshot_stop_def same_nets_set_entry)
  have "same_nets v (set_inst (jb_ref j) (\<lambda>i. i\<lparr>vi_snapshot := jb_snapshot j\<rparr>) v)"
    by (simp add: same_nets_set_inst)
  from same_nets_trans[OF this t[of _ "jb_ref j" Suspended]] show "same_nets v (fst (snapshot_finish j v))"
    by (cases "inst_transition (jb_ref j) Suspended (set_inst (jb_ref j) (\<lambda>i. i\<lparr>vi_snapshot := jb_snapshot j\<rparr>) v)")
      (simp add: snapshot_finish_def Let_def split: sum.split)
  have "same_nets v (set_entry (jb_vm j) (\<lambda>e. e\<lparr>fe_fc := Some child\<rparr>) v)" for child
    by (simp add: same_nets_set_entry)
  then show "same_nets v (fst (restore_finish now oc j v))"
    by (auto simp: restore_finish_def intro!: same_nets_leave same_nets_fields same_nets_trans[OF _ same_nets_leave]
        split: sum.split option.split)
qed

lemma same_nets_workloads:
  "same_nets v (register_workload vm w v)" "same_nets v (unregister_workload vm wid v)"
  "same_nets v (with_workload_mut vm wid f v)" "same_nets v (conn_closed vm h v)"
  by (simp_all add: register_workload_def unregister_workload_def with_workload_mut_def conn_closed_def
      same_nets_set_entry)

lemma same_nets_event: "same_nets v (fst (handle_guest_event now vm dir ev v))"
proof -
  have "same_nets v (foldl (\<lambda>v info. with_workload_mut vm (gw_id info) (reconcile_workload now info) v) v infos)" for infos
    by (induction infos arbitrary: v) (auto intro: same_nets_trans same_nets_workloads)
  then show ?thesis by (auto simp: handle_guest_event_def same_nets_workloads split: guest_event.split option.split)
qed

lemma same_nets_ports: "same_nets v (fst (with_network_config f vm v))"
  by (auto simp: with_network_config_def same_nets_set_inst split: sum.split option.split)

lemma same_nets_setup: "same_nets v (fst (create_setup env config vm r v))"
proof -
  have "same_nets v (set_inst r (\<lambda>i. i\<lparr>vi_block_device := Some dev\<rparr>) (v\<lparr>fm_workers := ws\<rparr>))" for dev ws
    by (rule same_nets_trans[OF same_nets_fields(4) same_nets_set_inst]) simp
  then show ?thesis
    by (auto simp: create_setup_def Let_def same_nets_fields split: option.split sum.split prod.split)
qed

lemma same_nets_conn:
  assumes "same_nets v (meanwhile v)"
  shows "same_nets v (fst (guest_conn env meanwhile vm v))"
proof -
  have "same_nets u (fst (install_guest_conn env vm r u))" for r and u :: "'a vmm"
    by (auto simp: install_guest_conn_def Let_def same_nets_set_entry split: option.split prod.split sum.split)
  then show ?thesis using assms
    by (auto simp: guest_conn_def intro: same_nets_trans split: option.split sum.split)
qed

section \<open>Properties\<close>

definition subnet_hosts :: "ipv4net \<Rightarrow> u32 set" where
  "subnet_hosts subnet = net_host subnet ` {a. offset_ok (net_prefix subnet) a}"

lemma tap_inj: "tap_for_vm (''vm-'' @ x) = tap_for_vm (''vm-'' @ y) \<Longrightarrow> x = y"
  by (simp del: append.simps)

lemma net_of_fields [simp]:
  "vn_guest_ip (net_of m vm ip idx) = ip" "vn_guest_mac (net_of m vm ip idx) = guest_mac_from_ip ip"
  "vn_tap_name (net_of m vm ip idx) = tap_for_vm vm"
  "vn_subnet (net_of m vm ip idx) = net_subnet (nm_supernet m) idx (nm_subnet_prefix m)"
  "vn_gateway_ip (net_of m vm ip idx) = net_host (net_subnet (nm_supernet m) idx (nm_subnet_prefix m)) 1"
  by (simp_all add: net_of_def vm_net_new_def Let_def)

lemma held_not_gateway:
  assumes plan: "plan_ok n q" and wf: "ipam_wf n q s"
    and "(a, pid, ip, idx) \<in> held s" "(b, pid', ip', idx') \<in> held s"
  shows "ip \<noteq> net_host (net_subnet n idx' q) 1"
proof -
  obtain p where p: "map_of (projects s) pid = Some p" "(ip, a) \<in> set (ps_vms p)" by (rule heldE[OF wf assms(3)])
  obtain p' where p': "map_of (projects s) pid' = Some p'" "project_wf n q pid' p'" "ps_subnet_index p' = idx'"
    by (rule heldE[OF wf assms(4)])
  have "ip \<in> set (guest_ips s)" using map_of_SomeD[OF p(1)] p(2) by (force simp: guest_ips_def)
  moreover have "ps_gateway p' \<in> set (gateways s)" using map_of_SomeD[OF p'(1)] by (force simp: gateways_def)
  ultimately have "ip \<noteq> ps_gateway p'" using ipam_ips_distinct(2)[OF plan wf] by blast
  with p' show ?thesis by (simp add: project_wf_def Let_def)
qed

lemma held_subnets:
  assumes plan: "plan_ok n q" and wf: "ipam_wf n q s"
    and t: "(a, pid, ip, idx) \<in> held s" "(b, pid', ip', idx') \<in> held s"
  shows "if pid = pid' then net_subnet n idx q = net_subnet n idx' q
    else subnet_hosts (net_subnet n idx q) \<inter> subnet_hosts (net_subnet n idx' q) = {}"
proof (cases "pid = pid'")
  case True
  with held_project[OF wf t] show ?thesis by simp
next
  case False
  obtain p where p: "project_wf n q pid p" "ps_subnet_index p = idx" by (rule heldE[OF wf t(1)])
  obtain p' where p': "project_wf n q pid' p'" "ps_subnet_index p' = idx'" by (rule heldE[OF wf t(2)])
  have "index_ok n q idx" "index_ok n q idx'" using p p' by (auto simp: project_wf_def Let_def)
  moreover have "idx \<noteq> idx'" using False held_project[OF wf t] by simp
  ultimately show ?thesis
    using False ip.subnets_disjoint[OF plan] by (simp add: subnet_hosts_def net_subnet_def Let_def)
qed

lemma live_inst:
  assumes "live v vm r"
  obtains i ip idx where "inst v r = Some i" "(vm, vc_project_id (vi_vm_config i), ip, idx) \<in> table v"
    "vi_net i = Some (net_of (fm_net v) vm ip idx)"
  using assms by (auto simp: live_def net_view_def)


lemma lost_only_unsaved:
  assumes "own_step os to_json S S'" "own_inv S" "saves os to_json" "ow_lost S = {}"
  shows "ow_lost S' = {}"
  using assms
proof cases
  case (refuse_create env config parse_cron v e)
  have "fm_net v = fm_net (ow_vmm S)"
    using own_invD(1)[OF assms(2)] refuse_create(3) refl
    by (cases rule: create_begin_cases) (use assms(3) in simp_all)
  with refuse_create assms(4) show ?thesis by simp
qed (use assms in simp_all)

lemma reachable_lost:
  assumes "own_reachable os to_json S" "saves os to_json"
  shows "ow_lost S = {}"
proof -
  from assms(1) obtain S0 where S0: "own_init os to_json S0" "(own_step os to_json)\<^sup>*\<^sup>* S0 S" by (auto simp: own_reachable_def)
  from S0(2) have "own_inv S \<and> ow_lost S = {}"
  proof (induction rule: rtranclp_induct)
    case base
    with S0(1) own_init_inv[OF S0(1)] show ?case by (simp add: own_init_def)
  next
    case (step T T')
    with own_step_keeps[OF step(2)] lost_only_unsaved[OF step(2) _ assms(2)] show ?case by blast
  qed
  then show ?thesis by simp
qed

text \<open>C13: The address table accounts for every VM.  It holds exactly one address for each VM of the map, for
  each creation between its allocation and its entry or its undoing, for each destruction between the
  removal from the map and the release, for each creation that was refused because only the state file
  could not be written, and for each creation or destruction whose caller went away in between; no VM is
  in two of these groups.  So the last two keep their addresses although nothing can release them any
  more; the first of the two is empty while writes work.\<close>

theorem addresses_accounted:
  assumes "own_reachable os to_json S"
  shows "fst ` held (nm_state (fm_net (ow_vmm S))) =
      {vm. get_vm vm (ow_vmm S) \<noteq> None} \<union> set (creating_ids S @ ow_leaving S) \<union> ow_lost S \<union> ow_dropped S \<and>
    inj_on fst (held (nm_state (fm_net (ow_vmm S)))) \<and>
    distinct (creating_ids S @ ow_leaving S) \<and>
    {vm. get_vm vm (ow_vmm S) \<noteq> None} \<inter> (set (creating_ids S @ ow_leaving S) \<union> ow_lost S \<union> ow_dropped S) = {} \<and>
    (ow_lost S \<union> ow_dropped S) \<inter> set (creating_ids S @ ow_leaving S) = {} \<and> ow_lost S \<inter> ow_dropped S = {} \<and>
    (saves os to_json \<longrightarrow> ow_lost S = {})"
proof -
  note inv = own_reachable_inv[OF assms]
  note d = own_invD[OF inv, unfolded away_def stranded_def]
  have "{vm. get_vm vm (ow_vmm S) \<noteq> None} \<inter> (set (creating_ids S @ ow_leaving S) \<union> ow_lost S \<union> ow_dropped S) = {}"
    using d(5,6) by auto
  moreover have "(ow_lost S \<union> ow_dropped S) \<inter> set (creating_ids S @ ow_leaving S) = {}" using d(7) by blast
  moreover have "known_ids S = {vm. get_vm vm (ow_vmm S) \<noteq> None} \<union> set (creating_ids S @ ow_leaving S) \<union> ow_lost S \<union> ow_dropped S"
    by (auto simp: known_ids_def stranded_def)
  ultimately show ?thesis using d(2-4,12) reachable_lost[OF assms] by simp
qed

section \<open>A run with two VMs\<close>

definition at_rest :: "unit vmm \<Rightarrow> unit ownership" where
  "at_rest v = \<lparr>ow_vmm = v, ow_creating = [], ow_leaving = [], ow_lost = {}, ow_dropped = {}\<rparr>"

abbreviation demo_js :: "net_state \<Rightarrow> string + string" where
  "demo_js \<equiv> (\<lambda>_. Inr ''{}'')"

lemma working_create:
  assumes m: "nm_supernet (fm_net v) = demo_net" "nm_subnet_prefix (fm_net v) = 29"
    and al: "alloc (nm_state (fm_net v)) 7 (vm_id_new_random picks 7) (tap_for_vm (vm_id_new_random picks 7)) demo_net 29 = (st, Inr plan)"
  obtains i v' v'' where
    "create_begin working_host demo_js (\<lambda>_. Inr ()) (demo_env\<lparr>ce_picks := picks\<rparr>) demo_config v = (v', Inr (fm_next_ref v, i))"
    "create_end working_host demo_js (fm_next_ref v) i (Inr 42) v' = (v'', Inr (vm_id_new_random picks 7))"
    "nm_state (fm_net v'') = st" "nm_supernet (fm_net v'') = demo_net" "nm_subnet_prefix (fm_net v'') = 29"
    "\<And>vm. get_vm vm v'' = (if vm = vm_id_new_random picks 7 then Some (fm_next_ref v) else get_vm vm v)"
proof -
  let ?id = "vm_id_new_random picks 7"
  obtain i where i: "vm_instance_new picks 0 demo_config (fm_assets_dir v) (fm_work_dir v) = Inr i"
    "vi_vm_id i = ?id" "vi_state i = Creating"
    by (simp add: vm_instance_new_def rootfs_file_def demo_config_def Let_def)
  let ?i = "i\<lparr>vi_net := Some (ap_vm_net plan), vi_guest_cid := Some (fm_next_cid v)\<rparr>"
  let ?v = "v\<lparr>fm_net := (fm_net v)\<lparr>nm_state := st\<rparr>, fm_host := fm_host v, fm_next_cid := fm_next_cid v + 1,
      fm_next_ref := fm_next_ref v + 1, fm_heap := AList.update (fm_next_ref v) ?i (fm_heap v)\<rparr>"
  have n: "nm_allocate working_host demo_js (fm_net v) 7 ?id (tap_for_vm ?id) (fm_host v) =
      (((fm_net v)\<lparr>nm_state := st\<rparr>, fm_host v), Inr (ap_vm_net plan))"
    using al by (simp add: nm_allocate_def m working_host_apply working_host_commands)
  note n' = n[simplified]
  have c: "vc_project_id demo_config = 7" "check_mode (\<lambda>_. Inr ()) demo_config = Inr ()"
    "check_block_storage demo_config = Inr ()" "image_defaults demo_config = demo_config"
    by (simp_all add: demo_config_def check_mode_def check_block_storage_def image_defaults_def)
  have b: "create_begin working_host demo_js (\<lambda>_. Inr ()) (demo_env\<lparr>ce_picks := picks\<rparr>) demo_config v = (?v, Inr (fm_next_ref v, ?i))"
    by (simp add: create_begin_def Let_def demo_env_def c i n')
  let ?w = "?v\<lparr>fm_vms := AList.update ?id ((fc_entry_new (fm_next_ref v) ?i)\<lparr>fe_fc := Some 42\<rparr>) (fm_vms v)\<rparr>"
  have at: "inst ?w (fm_next_ref v) = Some ?i" by (simp add: inst_def map_simps)
  have "inst_transition (fm_next_ref v) Created ?w = (set_inst (fm_next_ref v) (\<lambda>i. i\<lparr>vi_state := Created\<rparr>) ?w, Inr ())"
    by (rule inst_transition_ok[OF at]) (simp add: i(3) can_transition_to.simps)
  then have e: "create_end working_host demo_js (fm_next_ref v) ?i (Inr 42) ?v =
      (set_inst (fm_next_ref v) (\<lambda>i. i\<lparr>vi_state := Created\<rparr>) ?w, Inr ?id)"
    by (simp add: create_end_def Let_def i(2))
  show thesis
    by (rule that[OF b e]) (simp_all add: set_inst_def m get_vm_def map_simps fc_entry_new_def)
qed

lemma working_steps:
  assumes r: "own_reachable working_host demo_js (at_rest v)"
    and fresh: "get_vm (vm_id_new_random picks 7) v = None"
    and m: "nm_supernet (fm_net v) = demo_net" "nm_subnet_prefix (fm_net v) = 29"
    and al: "alloc (nm_state (fm_net v)) 7 (vm_id_new_random picks 7) (tap_for_vm (vm_id_new_random picks 7)) demo_net 29 = (st, Inr plan)"
  obtains w where "own_reachable working_host demo_js (at_rest w)"
    "nm_state (fm_net w) = st" "nm_supernet (fm_net w) = demo_net" "nm_subnet_prefix (fm_net w) = 29"
    "\<forall>vm. get_vm vm w = (if vm = vm_id_new_random picks 7 then Some (fm_next_ref v) else get_vm vm v)"
proof (rule working_create[OF m al])
  fix i v' w
  assume b: "create_begin working_host demo_js (\<lambda>_. Inr ()) (demo_env\<lparr>ce_picks := picks\<rparr>) demo_config v = (v', Inr (fm_next_ref v, i))"
    and e: "create_end working_host demo_js (fm_next_ref v) i (Inr 42) v' = (w, Inr (vm_id_new_random picks 7))"
    and rest: "nm_state (fm_net w) = st" "nm_supernet (fm_net w) = demo_net" "nm_subnet_prefix (fm_net w) = 29"
    "\<And>vm. get_vm vm w = (if vm = vm_id_new_random picks 7 then Some (fm_next_ref v) else get_vm vm v)"
  let ?T = "(at_rest v)\<lparr>ow_vmm := v', ow_creating := [(fm_next_ref v, i)]\<rparr>"
  have "vm_id_new_random (ce_picks (demo_env\<lparr>ce_picks := picks\<rparr>)) (vc_project_id demo_config) \<notin> known_ids (at_rest v)"
    using fresh by (simp add: known_ids_def stranded_def at_rest_def creating_ids_def demo_config_def)
  from own_step.begin_create[OF this, of working_host demo_js "\<lambda>_. Inr ()" v' "fm_next_ref v" i] b
  have "own_step working_host demo_js (at_rest v) ?T" by (simp add: at_rest_def)
  moreover have "own_step working_host demo_js ?T (at_rest w)"
    using own_step.end_create[of "fm_next_ref v" i ?T working_host demo_js "Inr 42" w] e by (simp add: at_rest_def)
  ultimately have "own_reachable working_host demo_js (at_rest w)"
    using r unfolding own_reachable_def by (meson rtranclp.rtrancl_into_rtrancl)
  with rest that show thesis by blast
qed

lemma two_vms_run:
  obtains w ra rb where "own_reachable working_host demo_js (at_rest w)"
    "get_vm ''vm-7-'' w = Some ra" "get_vm ''vm-7-a'' w = Some rb"
proof -
  have ids: "vm_id_new_random [] 7 = ''vm-7-''" "vm_id_new_random [0] 7 = ''vm-7-a''"
    by (simp_all add: vm_id_new_random_alt dec_seven ID_CHARSET_def)
  have m: "nm_supernet (fm_net demo_vmm) = demo_net" "nm_subnet_prefix (fm_net demo_vmm) = 29"
    "nm_state (fm_net demo_vmm) = net_state_default" by (simp_all add: demo_vmm_def)
  have none: "get_vm vm demo_vmm = None" for vm by (simp add: demo_vmm_def get_vm_def)
  have "own_init working_host demo_js (at_rest demo_vmm)"
    by (simp add: own_init_def at_rest_def) (use demo_started[of "\<lambda>_. Inl []"] in blast)
  then have r: "own_reachable working_host demo_js (at_rest demo_vmm)" by (auto simp: own_reachable_def)
  let ?st = "\<lparr>projects = [(7, \<lparr>ps_subnet_index = 0, ps_bridge = ''tbr-7'', ps_gateway = 0x0A000001,
      ps_vms = [(0x0A000002, ''vm-7-'')]\<rparr>)]\<rparr>"
  have "\<exists>plan. alloc (nm_state (fm_net demo_vmm)) 7 ''vm-7-'' (tap_for_vm ''vm-7-'') demo_net 29 = (?st, Inr plan)"
    by (simp add: m alloc_def net_subnet_count_unat net_wf_def net_state_default_def IFNAMSIZ_MAX_def
        BRIDGE_PREFIX_def net_subnet_def net_host_def dec_seven Let_def)
  then obtain plan where al: "alloc (nm_state (fm_net demo_vmm)) 7 (vm_id_new_random [] 7)
      (tap_for_vm (vm_id_new_random [] 7)) demo_net 29 = (?st, Inr plan)"
    unfolding ids by blast
  obtain v where v: "own_reachable working_host demo_js (at_rest v)"
    "nm_state (fm_net v) = ?st" "nm_supernet (fm_net v) = demo_net" "nm_subnet_prefix (fm_net v) = 29"
    "\<forall>vm. get_vm vm v = (if vm = vm_id_new_random [] 7 then Some (fm_next_ref demo_vmm) else get_vm vm demo_vmm)"
    by (rule working_steps[OF r none m(1,2) al])
  have "\<exists>st plan. alloc (nm_state (fm_net v)) 7 ''vm-7-a'' (tap_for_vm ''vm-7-a'') demo_net 29 = (st, Inr plan)"
    by (simp add: v(2) alloc_def owns_vm_def lowest_free_ip_def net_subnet_def net_last_unat net_wf_def net_host_def)
  then obtain st plan2 where al2: "alloc (nm_state (fm_net v)) 7 (vm_id_new_random [0] 7)
      (tap_for_vm (vm_id_new_random [0] 7)) demo_net 29 = (st, Inr plan2)"
    unfolding ids by blast
  have fresh: "get_vm (vm_id_new_random [0] 7) v = None" by (simp add: v(5) ids none)
  obtain w where w: "own_reachable working_host demo_js (at_rest w)"
    "\<forall>vm. get_vm vm w = (if vm = vm_id_new_random [0] 7 then Some (fm_next_ref v) else get_vm vm v)"
    by (rule working_steps[OF v(1) fresh v(3,4) al2])
  show thesis by (rule that[OF w(1)]) (simp_all add: w(2) v(5) ids)
qed


lemma working_saves: "saves working_host demo_js"
  by (simp add: saves_def working_host_commands)

lemma addresses_accounted_witness:
  "\<exists>w. own_reachable working_host demo_js (at_rest w) \<and> ''vm-7-a'' \<in> fst ` held (nm_state (fm_net w)) \<and>
     fst ` held (nm_state (fm_net w)) = {vm. get_vm vm w \<noteq> None}"
proof -
  obtain w ra rb where w: "own_reachable working_host demo_js (at_rest w)"
    "get_vm ''vm-7-'' w = Some ra" "get_vm ''vm-7-a'' w = Some rb" by (rule two_vms_run)
  have o: "ow_vmm (at_rest w) = w" "creating_ids (at_rest w) = []" "ow_leaving (at_rest w) = []" "ow_lost (at_rest w) = {}" "ow_dropped (at_rest w) = {}"
    by (simp_all add: at_rest_def creating_ids_def)
  from addresses_accounted[OF w(1), unfolded o] have "fst ` held (nm_state (fm_net w)) = {vm. get_vm vm w \<noteq> None}" by simp
  with w show ?thesis by blast
qed

end
