(* ===== verification/Spec2Isabelle.thy ===== *)
theory Spec2Isabelle
  imports Setup Background GuestdSys VmtopUi Channel Hostd Wake Routes Device Scheduler Streaming Ownership
begin

text \<open>
  \<^bold>\<open>tikovm.\<close>  hostd (\<open>hostd/src\<close>) runs Firecracker micro-VMs: a management API creates, starts,
  pauses, snapshots, restores and destroys them, runs workloads in them through a guest daemon over
  vsock, and publishes ports of theirs through a proxy.  guestd (\<open>guestd/src\<close>) is that daemon; vmtop
  (\<open>vmtop/src\<close>) shows the VMs of a hostd in a terminal.  This development models the three; strings,
  options, sums and finite maps follow the Rust types, \<open>result\<close> is \<open>error + 'a\<close>.

  \<^bold>\<open>Theories and code.\<close>
  \<^item> \<open>Prelude\<close>, \<open>RustStd\<close>, \<open>Poll\<close>, \<open>Json\<close>, \<open>Errors\<close>: association lists, bounded search, the string
    functions of the standard library the code uses, loops that poll, the text of a JSON value, and
    \<open>error.rs\<close> with its messages.
  \<^item> \<open>Cidr\<close>, \<open>NetTypes\<close> (\<open>net/cidr.rs\<close>, \<open>net/types.rs\<close>): address arithmetic on 32-bit words, names,
    exposed ports.  \<open>Ipam\<close> (\<open>net/state.rs\<close>): allocation of subnets, bridges and addresses, as a
    record that is passed on.  \<open>NetHost\<close> (\<open>net/host.rs\<close>): the commands for bridges, TAPs and NAT over
    a host whose command runner is a parameter.  \<open>NetManager\<close> (\<open>net/manager.rs\<close>): the two combined,
    with persistence and rollback.
  \<^item> \<open>Volume\<close>, \<open>VolumeSpec\<close> (\<open>storage/volume.rs\<close>): chunk files behind a handle cache with dirty marks,
    over a store that distinguishes written from durable bytes; the specification is a flat byte
    array.  \<open>Storage\<close> (\<open>storage/manager.rs\<close>, \<open>worker.rs\<close>, \<open>ublk_worker.rs\<close>): the worker processes.
    \<open>Device\<close> (\<open>queue_fn\<close> of \<open>ublk_worker.rs\<close>): a queue with its tasks, and the disk the guest sees.
  \<^item> \<open>VmState\<close>, \<open>VmTypes\<close>, \<open>Workload\<close>, \<open>Activity\<close> (\<open>vmm/vm.rs\<close>, \<open>workload.rs\<close>, \<open>activity.rs\<close>): the
    state machine of a VM, its records, workloads, activity counting.
  \<^item> \<open>Vmm\<close>, \<open>Lifecycle\<close>, \<open>VmmOps\<close> (\<open>vmm/firecracker/vmm.rs\<close>): the shared map of VMs and the store of
    the instances it points to; every lifecycle operation split where it releases the locks, so that
    \<open>sys_step\<close> interleaves any number of them; workloads, ports, waking.
    \<open>Wake\<close>: any number of \<open>ensure_started\<close> at once, with their locks, and operations that are dropped.
    \<open>Ownership\<close>: creations and destructions in their pieces over the address table, from hostd's start on.
  \<^item> \<open>Guest\<close> (\<open>guest.rs\<close>, \<open>vsock.rs\<close>): the handshake, the connection kept per VM, the guest's events.
    \<open>Background\<close> (\<open>auto_suspend.rs\<close>, \<open>schedule.rs\<close>): the idle detectors and the cron scheduler.
    \<open>Scheduler\<close>: its ticks, runs and the rest of hostd as a step relation, and the wait of a run to its end.
    \<open>Setup\<close> (\<open>setup.rs\<close>, \<open>api.rs\<close>): Firecracker's API client and the calls that configure a machine.
    \<open>FcProcess\<close> (\<open>setup.rs\<close>, \<open>vmm.rs\<close>): the Firecracker process of a VM and what becomes of it on every path.
  \<^item> \<open>Utf8\<close>, \<open>Postgres\<close>, \<open>PgRewrite\<close> (\<open>proxy/tcp.rs\<close>) and \<open>Proxy\<close> (\<open>token.rs\<close>, \<open>target.rs\<close>, \<open>http.rs\<close>,
    \<open>server.rs\<close>, and the session of \<open>tcp.rs\<close>): the data plane.
    \<open>Streaming\<close>: requests, sessions and the bodies of replies next to auto-suspend.  \<open>Api\<close> (\<open>api/*\<close>): the control plane.
    \<open>Inventory\<close>, \<open>Routes\<close>: the JSON of its answers and what vmtop reads of it, the route tables, and a
    request from its text to the text of the answer.
    \<open>Hostd\<close> (\<open>main.rs\<close>, and the start-up parts of \<open>storage/*\<close>): the start of the server and of a worker.
  \<^item> \<open>Guestd\<close> (\<open>guestd/src/agent.rs\<close>, \<open>monitor.rs\<close>): the agent's requests and the idle detector.  \<open>GuestdSys\<close>:
    \<open>gd_step\<close> interleaves its threads, the processes of the guest and the connections, and hostd
    handles what is sent.  \<open>Channel\<close> (\<open>vsock.rs\<close>, \<open>proto.rs\<close>, \<open>connection.rs\<close>, \<open>main.rs\<close> and hostd's
    \<open>run_guest_conn\<close>): the lines of text between the two.
  \<^item> \<open>VmtopView\<close> (\<open>model.rs\<close>, \<open>view.rs\<close>), \<open>VmtopApp\<close> (\<open>api.rs\<close>, \<open>app.rs\<close>, \<open>main.rs\<close>), \<open>VmtopUi\<close> (\<open>format.rs\<close>,
    \<open>ui.rs\<close>): the inventory and its rows, the poller and the event loop, the text of every line.

  \<^bold>\<open>What the lemmas show.\<close>  Lifecycle: at most one operation per VM, its finishing transition is never
  refused, a suspended VM has its snapshot.  Addresses are unique whatever fails, from the allocator
  to the VMs of a running hostd, the table accounts for each VM, and allocation and release undo each other.  A volume behaves as a byte array and a successful flush makes it durable,
  with two counterexamples; the device of a worker is a disk with a write cache.  Workloads that are over stay over; starting one is all or nothing.
  Auto-suspend touches only what it may; the race it leaves is stated.  The scheduler serves every
  moment once and never overlaps two runs of a VM.  The
  proxy reaches a guest only with a valid token for a port that is exposed at that moment, and no
  credential reaches a guest; the API admits exactly the configured token.  A set-up makes exactly
  its calls in order and never leaves the overlay mounted; a restore ends with its process owned by the
  VM or killed.  Concurrent wake-ups share one restore; an operation whose caller goes away wedges its VM.
  No request does anything without the token, and vmtop reads exactly what hostd has; it shows the last
  successful poll and keeps the selected row in its window.  What guestd reports is true and in order
  and the channel loses nothing, so that an exit status hostd records is the process's; two runs show
  what their interleaving still allows.

  \<^bold>\<open>Loops and fuel.\<close>  Loops over data are structural or have a measure.  Loops that poll the outside
  are \<open>poll_loop\<close>, a partial function of the observations: no result means the loop never ends, and
  each use states when it does.

  \<^bold>\<open>Parameters.\<close>  Files, processes, commands, sockets, the clock, random draws, the cron iterator,
  jsonwebtoken and serde are arguments of the definitions; what is relied on is stated where it is
  used (for instance \<open>jwt_law\<close>).

  \<^bold>\<open>Not modelled.\<close>  The parsing of JSON text (serde\_json), the decoding of request bodies, the matching
  of paths (axum, by its documented rules), HTTP framing (hyper), the byte splice (tokio), the command
  line (clap), the terminal (crossterm, ratatui), the ublk driver, logging, and locks
  that are poisoned: none of it is code of the repository, or it has no effect but on the outside.
\<close>

end
